(* ===== verification/Prelude.thy ===== *)
theory Prelude
  imports Main "HOL-Library.Word" "HOL-Library.Sublist"
begin

unbundle bit_operations_syntax

text \<open>
  What the components of the development share: the names of the machine types, the error
  monad (the model's \<open>longjmp\<close> and early returns), the character classes of \<open><ctype.h>\<close>
  in the C locale, decimal printing (the \<open>%d\<close> and \<open>%zu\<close> of \<open>printf\<close>), the interface
  of the growable arrays that the program writes by hand, and generic lemmas on
  lists and words.
\<close>

section \<open>Machine types\<close>

type_synonym byte = "8 word"
type_synonym u32 = "32 word"
type_synonym u64 = "64 word"

section \<open>Errors as values\<close>

text \<open>
  A C function that may give up (by \<open>longjmp\<close>, or by returning NULL after setting an error)
  returns \<open>Inl e\<close>; \<open>bindE\<close> runs the next step on a success only.
\<close>

definition bindE :: "'e + 'a \<Rightarrow> ('a \<Rightarrow> 'e + 'b) \<Rightarrow> 'e + 'b" where
  "bindE m f = (case m of Inl e \<Rightarrow> Inl e | Inr x \<Rightarrow> f x)"

lemma bindE_simps [simp]:
  "bindE (Inl e) f = Inl e"
  "bindE (Inr x) f = f x"
  by (simp_all add: bindE_def)

lemma bindE_cong [fundef_cong]:
  "m = m' \<Longrightarrow> (\<And>x. m' = Inr x \<Longrightarrow> f x = f' x) \<Longrightarrow> bindE m f = bindE m' f'"
  by (cases m') (auto simp: bindE_def)

lemma bindE_eq_Inr [simp]:
  "bindE m f = Inr y \<longleftrightarrow> (\<exists>x. m = Inr x \<and> f x = Inr y)"
  "Inr y = bindE m f \<longleftrightarrow> (\<exists>x. m = Inr x \<and> f x = Inr y)"
  by (cases m; auto)+

lemma bindE_eq_Inl:
  "bindE m f = Inl e \<longleftrightarrow> m = Inl e \<or> (\<exists>x. m = Inr x \<and> f x = Inl e)"
  by (cases m) auto

lemma bindE_assoc: "bindE (bindE m f) g = bindE m (\<lambda>x. bindE (f x) g)"
  by (cases m) auto

section \<open>C strings and character classes\<close>

text \<open>
  A pointer into a NUL-terminated string is the list of the characters from it up to (not
  including) the terminator, so \<open>*p\<close> is \<open>at p\<close> and \<open>p + n\<close> is \<open>drop n p\<close>. The classes
  are those of the C locale, on the unsigned value of the character.
\<close>

abbreviation NUL :: char where "NUL \<equiv> CHR 0x00"
abbreviation TAB :: char where "TAB \<equiv> CHR 0x09"
abbreviation LF :: char where "LF \<equiv> CHR 0x0A"
abbreviation CR :: char where "CR \<equiv> CHR 0x0D"
abbreviation DQUOTE :: char where "DQUOTE \<equiv> CHR 0x22"
abbreviation SQUOTE :: char where "SQUOTE \<equiv> CHR 0x27"
abbreviation BSLASH :: char where "BSLASH \<equiv> CHR 0x5C"

definition at :: "string \<Rightarrow> char" where
  "at p = (case p of [] \<Rightarrow> NUL | c # _ \<Rightarrow> c)"

definition cstr :: "string \<Rightarrow> string" where
  "cstr s = takeWhile (\<lambda>c. c \<noteq> NUL) s"

definition code :: "char \<Rightarrow> nat" where
  "code c = of_char c"

definition chr :: "nat \<Rightarrow> char" where
  "chr n = char_of n"

definition is_digit :: "char \<Rightarrow> bool" where
  "is_digit c \<longleftrightarrow> 48 \<le> code c \<and> code c \<le> 57"

definition is_lower :: "char \<Rightarrow> bool" where
  "is_lower c \<longleftrightarrow> 97 \<le> code c \<and> code c \<le> 122"

definition is_upper :: "char \<Rightarrow> bool" where
  "is_upper c \<longleftrightarrow> 65 \<le> code c \<and> code c \<le> 90"

definition is_alpha :: "char \<Rightarrow> bool" where
  "is_alpha c \<longleftrightarrow> is_lower c \<or> is_upper c"

definition is_alnum :: "char \<Rightarrow> bool" where
  "is_alnum c \<longleftrightarrow> is_alpha c \<or> is_digit c"

definition is_xdigit :: "char \<Rightarrow> bool" where
  "is_xdigit c \<longleftrightarrow> is_digit c \<or> (97 \<le> code c \<and> code c \<le> 102) \<or> (65 \<le> code c \<and> code c \<le> 70)"

definition is_space :: "char \<Rightarrow> bool" where
  "is_space c \<longleftrightarrow> code c = 32 \<or> (9 \<le> code c \<and> code c \<le> 13)"

lemmas ctype_defs = is_digit_def is_lower_def is_upper_def is_alpha_def is_alnum_def
  is_xdigit_def is_space_def code_def

lemma at_simps [simp]: "at [] = NUL" "at (c # s) = c"
  by (simp_all add: at_def)

lemma code_chr [simp]: "code (chr n) = n mod 256"
  by (simp add: code_def chr_def)

lemma chr_code [simp]: "chr (code c) = c"
  by (simp add: code_def chr_def)

lemma code_less [simp]: "code c < 256"
  by (simp add: code_def)

lemma code_Char [simp]: "code (Char b0 b1 b2 b3 b4 b5 b6 b7) = of_char (Char b0 b1 b2 b3 b4 b5 b6 b7)"
  by (simp add: code_def)

lemma code_inject [simp]: "code c = code d \<longleftrightarrow> c = d"
  by (metis chr_code)

lemma char_eq_code: "c = d \<longleftrightarrow> code c = code d"
  by simp

lemma ctype_NUL [simp]:
  "\<not> is_digit NUL" "\<not> is_alpha NUL" "\<not> is_alnum NUL" "\<not> is_xdigit NUL" "\<not> is_space NUL"
  by (simp_all add: ctype_defs)

lemma at_not_NUL: "at p \<noteq> NUL \<Longrightarrow> p = at p # drop 1 p"
  by (cases p) auto

lemma length_drop_at: "at p \<noteq> NUL \<Longrightarrow> length (drop 1 p) < length p"
  by (cases p) auto

lemma cstr_no_NUL [simp]: "NUL \<notin> set (cstr s)"
  by (auto simp: cstr_def dest: set_takeWhileD)

lemma cstr_id: "NUL \<notin> set s \<Longrightarrow> cstr s = s"
  by (auto simp: cstr_def takeWhile_eq_all_conv)

lemma cstr_idem [simp]: "cstr (cstr s) = cstr s"
  by (rule cstr_id) simp

section \<open>Decimal printing\<close>

text \<open>The digits \<open>%d\<close>, \<open>%u\<close> and \<open>%zu\<close> print for a non-negative number.\<close>

fun dec_str :: "nat \<Rightarrow> string" where
  "dec_str n = (if n < 10 then [chr (48 + n)] else dec_str (n div 10) @ [chr (48 + n mod 10)])"

declare dec_str.simps [simp del]

lemma dec_str_nonempty [simp]: "dec_str n \<noteq> []"
  by (subst dec_str.simps) simp

lemma dec_str_digits: "c \<in> set (dec_str n) \<Longrightarrow> is_digit c"
proof (induction n rule: dec_str.induct)
  case (1 n)
  show ?case
  proof (cases "n < 10")
    case True
    with 1 show ?thesis by (subst (asm) dec_str.simps) (auto simp: is_digit_def)
  next
    case False
    with 1 show ?thesis by (subst (asm) dec_str.simps) (auto simp: is_digit_def)
  qed
qed

text \<open>The \<open>%d\<close> of a signed number.\<close>

definition int_str :: "int \<Rightarrow> string" where
  "int_str i = (if i < 0 then CHR ''-'' # dec_str (nat (- i)) else dec_str (nat i))"

lemma dec_str_value: "foldl (\<lambda>a c. 10 * a + (code c - 48)) 0 (dec_str n) = n"
proof (induction n rule: dec_str.induct)
  case (1 n)
  then show ?case by (cases "n < 10") (subst dec_str.simps; simp)+
qed

lemma dec_str_inject [simp]: "dec_str m = dec_str n \<longleftrightarrow> m = n"
  by (metis dec_str_value)

lemma length_dec_str: "n < 10 ^ k \<Longrightarrow> 0 < k \<Longrightarrow> length (dec_str n) \<le> k"
proof (induction n arbitrary: k rule: dec_str.induct)
  case (1 n)
  show ?case
  proof (cases "n < 10")
    case True
    then show ?thesis using 1(3) by (subst dec_str.simps) simp
  next
    case False
    then obtain j where k: "k = Suc j" "0 < j" using 1(2,3) by (cases k; cases "k = 1") auto
    have "n div 10 < 10 ^ j" using 1(2) k by (simp add: less_mult_imp_div_less mult.commute)
    with 1(1) [OF False] k False show ?thesis by (subst dec_str.simps) simp
  qed
qed

section \<open>Floating point\<close>

text \<open>
  The floating-point operations of the C library and of the hardware the program uses, on bit
  patterns: \<open>strtod s\<close> is the value and the number of characters it consumed, \<open>to_float\<close> the
  conversion of a \<open>double\<close> to a \<open>float\<close>. Their code is not in this repository.
\<close>

record fp_env =
  strtod :: "string \<Rightarrow> u64 \<times> nat"
  to_float :: "u64 \<Rightarrow> u32"

section \<open>Growable arrays\<close>

text \<open>
  The program has several hand-written growable arrays (\<open>Buf\<close>, \<open>WatBuilder\<close>, the arrays of the
  string pool and of the token stream). They share one contract: appending to a well-formed array
  succeeds (its capacity-doubling loop stops), keeps it well formed, and appends exactly what
  the argument stands for (its \<open>view\<close>). \<open>put_chunks\<close> is what a client does with one: a sequence
  of appends.
\<close>

fun put_chunks :: "('s \<Rightarrow> 'x \<Rightarrow> 's option) \<Rightarrow> 's \<Rightarrow> 'x list \<Rightarrow> 's option" where
  "put_chunks put s [] = Some s"
| "put_chunks put s (x # xs) =
     (case put s x of None \<Rightarrow> None | Some s' \<Rightarrow> put_chunks put s' xs)"

locale growable =
  fixes put :: "'s \<Rightarrow> 'x \<Rightarrow> 's option"
    and view :: "'x \<Rightarrow> 'a list"
    and contents :: "'s \<Rightarrow> 'a list"
    and ok :: "'s \<Rightarrow> bool"
  assumes put_ok: "ok s \<Longrightarrow> \<exists>s'. put s x = Some s' \<and> ok s' \<and> contents s' = contents s @ view x"
begin

lemma put_Some:
  assumes "ok s" and "put s x = Some s'"
  shows "ok s'" and "contents s' = contents s @ view x"
  using put_ok [OF assms(1), of x] assms(2) by auto

lemma put_not_None: "ok s \<Longrightarrow> put s x \<noteq> None"
  using put_ok by fastforce

lemma chunks_ok:
  "ok s \<Longrightarrow> \<exists>s'. put_chunks put s xs = Some s' \<and> ok s'
     \<and> contents s' = contents s @ concat (map view xs)"
proof (induction xs arbitrary: s)
  case Nil
  then show ?case by simp
next
  case (Cons x xs)
  from put_ok [OF Cons.prems, of x] obtain t where
    t: "put s x = Some t" "ok t" "contents t = contents s @ view x" by blast
  from Cons.IH [OF t(2)] t show ?case by auto
qed

lemma chunks_cong:
  "ok s \<Longrightarrow> ok s' \<Longrightarrow> contents s = contents s' \<Longrightarrow> concat (map view xs) = concat (map view ys) \<Longrightarrow>
    map_option contents (put_chunks put s xs) = map_option contents (put_chunks put s' ys)"
  using chunks_ok [of s xs] chunks_ok [of s' ys] by fastforce

end

text \<open>
  The capacity loop \<open>while (need > cap) cap *= 2;\<close> the five arrays share. It does not end from
  a capacity of 0, hence \<open>option\<close>.
\<close>

partial_function (option) grow_cap :: "nat \<Rightarrow> nat \<Rightarrow> nat option" where
  "grow_cap need cap = (if need \<le> cap then Some cap else grow_cap need (cap * 2))"

lemma grow_cap_Some: "0 < cap \<Longrightarrow> \<exists>c. grow_cap need cap = Some c \<and> need \<le> c \<and> cap \<le> c"
proof (induction "need - cap" arbitrary: cap rule: less_induct)
  case less
  show ?case
  proof (cases "need \<le> cap")
    case True
    then show ?thesis by (simp add: grow_cap.simps)
  next
    case False
    with less.prems have "need - cap * 2 < need - cap" "0 < cap * 2" by auto
    from less.hyps [OF this] obtain c where "grow_cap need (cap * 2) = Some c" "need \<le> c" "cap * 2 \<le> c"
      by blast
    with False show ?thesis by (subst grow_cap.simps) auto
  qed
qed

section \<open>Generic lemmas\<close>

lemma takeWhile_dropWhile_length:
  "length (dropWhile P xs) \<le> length xs"
  by (induction xs) auto

lemma length_dropWhile_less: "xs \<noteq> [] \<Longrightarrow> P (hd xs) \<Longrightarrow> length (dropWhile P xs) < length xs"
  by (cases xs) (auto simp: le_imp_less_Suc length_dropWhile_le)

lemma drop_bit_less:
  assumes "v \<noteq> 0" and "0 < n"
  shows "unat (drop_bit n v) < unat (v :: 'a::len word)"
proof -
  have "unat (drop_bit n v) = unat v div 2 ^ n"
    by (simp only: unat_drop_bit_eq drop_bit_nat_def)
  also have "\<dots> < unat v"
    using assms one_less_power [of "2 :: nat" n] by (intro div_less_dividend) (auto simp: unat_gt_0)
  finally show ?thesis .
qed

end
