(* ===== verification/Wat_Buf.thy ===== *)
theory Wat_Buf
  imports Prelude
begin

text \<open>
  The byte buffer of the assembler (\<open>src/src/wat2wasm.c\<close>, section "byte buffer"): a
  capacity-doubling array of bytes, the LEB128 encoders and the little-endian float encoders
  that write to it; and \<open>WatBuilder\<close> (\<open>src/src/wat_builder.c\<close>), the text buffer of the code
  generator, which keeps a NUL behind its contents. Both are \<open>growable\<close> arrays. The encoders
  are shown to append \<open>uleb\<close>, \<open>sleb\<close> and \<open>le_bytes\<close>, whose inverses are the decoders of the
  WebAssembly specification; the rest of the assembler is modelled on the contents alone.
\<close>

section \<open>The buffer\<close>

text \<open>
  \<open>data\<close> is the allocated block, so its length is the capacity; what \<open>realloc\<close> adds is
  filled with zeros here, and \<open>contents\<close> never reaches it.
\<close>

record Buf =
  data :: "byte list"
  len :: nat
  cap :: nat

definition buf_init :: Buf where
  "buf_init = \<lparr>data = replicate 64 0, len = 0, cap = 64\<rparr>"

definition xgrow :: "byte list \<Rightarrow> nat \<Rightarrow> byte list" where
  "xgrow p n = take n p @ replicate (n - length p) 0"

definition buf_reserve :: "Buf \<Rightarrow> nat \<Rightarrow> Buf option" where
  "buf_reserve b extra =
     (if len b + extra \<le> cap b then Some b
      else case grow_cap (len b + extra) (cap b) of
             None \<Rightarrow> None
           | Some c \<Rightarrow> Some (b\<lparr>data := xgrow (data b) c, cap := c\<rparr>))"

definition buf_bytes :: "Buf \<Rightarrow> byte list \<Rightarrow> Buf option" where
  "buf_bytes b p =
     (case buf_reserve b (length p) of
        None \<Rightarrow> None
      | Some b \<Rightarrow> Some (b\<lparr>data := take (len b) (data b) @ p @ drop (len b + length p) (data b),
                        len := len b + length p\<rparr>))"

definition buf_byte :: "Buf \<Rightarrow> byte \<Rightarrow> Buf option" where
  "buf_byte b x =
     (case buf_reserve b 1 of
        None \<Rightarrow> None
      | Some b \<Rightarrow> Some (b\<lparr>data := (data b)[len b := x], len := len b + 1\<rparr>))"

definition contents :: "Buf \<Rightarrow> byte list" where
  "contents b = take (len b) (data b)"

definition buf_append :: "Buf \<Rightarrow> Buf \<Rightarrow> Buf option" where
  "buf_append b src = buf_bytes b (contents src)"

definition buf_ok :: "Buf \<Rightarrow> bool" where
  "buf_ok b \<longleftrightarrow> 0 < cap b \<and> len b \<le> cap b \<and> length (data b) = cap b"

lemma buf_ok_init: "buf_ok buf_init" "contents buf_init = []"
  by (simp_all add: buf_ok_def buf_init_def contents_def)

lemma buf_reserve_ok:
  assumes "buf_ok b"
  shows "\<exists>b'. buf_reserve b n = Some b' \<and> buf_ok b' \<and> len b' = len b \<and> len b + n \<le> cap b'
    \<and> contents b' = contents b"
proof (cases "len b + n \<le> cap b")
  case True
  with assms show ?thesis by (simp add: buf_reserve_def)
next
  case False
  from assms have "0 < cap b" by (simp add: buf_ok_def)
  from grow_cap_Some [OF this] obtain c where
    "grow_cap (len b + n) (cap b) = Some c" "len b + n \<le> c" "cap b \<le> c" by blast
  with False assms show ?thesis
    by (auto simp: buf_reserve_def buf_ok_def xgrow_def contents_def)
qed

lemma buf_bytes_ok:
  assumes "buf_ok b"
  shows "\<exists>b'. buf_bytes b p = Some b' \<and> buf_ok b' \<and> contents b' = contents b @ p"
proof -
  from buf_reserve_ok [OF assms, of "length p"] obtain r where
    "buf_reserve b (length p) = Some r" "buf_ok r" "len r = len b" "len b + length p \<le> cap r"
    "contents r = contents b" by blast
  with assms show ?thesis
    by (auto simp: buf_bytes_def buf_ok_def contents_def)
qed

lemma buf_byte_is_bytes: "buf_ok b \<Longrightarrow> buf_byte b x = buf_bytes b [x]"
  using buf_reserve_ok [of b 1]
  by (auto simp: buf_byte_def buf_bytes_def buf_ok_def upd_conv_take_nth_drop split: option.splits)

interpretation buf: growable buf_bytes "\<lambda>p. p" contents buf_ok
  by unfold_locales (rule buf_bytes_ok)

section \<open>The text builder of the code generator\<close>

record WatBuilder =
  wbuf :: "string"
  used :: nat
  wcap :: nat

definition wat_init :: WatBuilder where
  "wat_init = \<lparr>wbuf = replicate 1024 NUL, used = 0, wcap = 1024\<rparr>"

definition ensure :: "WatBuilder \<Rightarrow> nat \<Rightarrow> WatBuilder option" where
  "ensure w need =
     (if used w + need + 1 > wcap w
      then case grow_cap (used w + need + 1) (wcap w) of
             None \<Rightarrow> None
           | Some c \<Rightarrow> Some (w\<lparr>wbuf := take c (wbuf w) @ replicate (c - length (wbuf w)) NUL, wcap := c\<rparr>)
      else Some w)"

text \<open>
  \<open>wat_append\<close>: \<open>memcpy\<close> of \<open>strlen(s)\<close> bytes and the terminator behind them. The list
  argument is the string \<open>s\<close> points to, so it ends before its first NUL.
\<close>

definition wat_append :: "WatBuilder \<Rightarrow> string \<Rightarrow> WatBuilder option" where
  "wat_append w s0 =
     (let s = cstr s0; n = length s in
      case ensure w n of
        None \<Rightarrow> None
      | Some w \<Rightarrow>
          let b = take (used w) (wbuf w) @ s @ drop (used w + n) (wbuf w)
          in Some (w\<lparr>wbuf := b[used w + n := NUL], used := used w + n\<rparr>))"

definition wat_cstr :: "WatBuilder \<Rightarrow> string" where
  "wat_cstr w = cstr (wbuf w)"

text \<open>
  \<open>wat_vappendf\<close> asks \<open>vsnprintf\<close> for the length first, then lets it print into the room made. Its
  argument is what the C library prints for the format and its arguments, \<open>None\<close> for a negative return,
  which aborts. \<open>vsnprintf_at\<close> is the second call: at most \<open>n - 1\<close> characters and a NUL behind them.
\<close>

definition vsnprintf_at :: "string \<Rightarrow> nat \<Rightarrow> nat \<Rightarrow> string \<Rightarrow> string" where
  "vsnprintf_at b off n t =
     (if n = 0 then b
      else let t = take (n - 1) t @ [NUL] in take off b @ t @ drop (off + length t) b)"

definition wat_vappendf :: "WatBuilder \<Rightarrow> string option \<Rightarrow> WatBuilder option" where
  "wat_vappendf w printed =
     (case printed of
        None \<Rightarrow> None
      | Some t \<Rightarrow>
          (case ensure w (length t) of
             None \<Rightarrow> None
           | Some w \<Rightarrow> Some (w\<lparr>wbuf := vsnprintf_at (wbuf w) (used w) (wcap w - used w) t, used := used w + length t\<rparr>)))"

text \<open>A formatted text may hold a NUL, so the builder's invariant for both calls does not exclude one.\<close>

datatype chunk = Text string | Printed string

primrec emit_chunk :: "WatBuilder \<Rightarrow> chunk \<Rightarrow> WatBuilder option" where
  "emit_chunk w (Text s) = wat_append w s"
| "emit_chunk w (Printed t) = wat_vappendf w (Some t)"

primrec chunk_text :: "chunk \<Rightarrow> string" where
  "chunk_text (Text s) = cstr s"
| "chunk_text (Printed t) = t"

definition wat_bytes :: "WatBuilder \<Rightarrow> string" where
  "wat_bytes w = take (used w) (wbuf w)"

definition wat_closed :: "WatBuilder \<Rightarrow> bool" where
  "wat_closed w \<longleftrightarrow> used w < wcap w \<and> length (wbuf w) = wcap w \<and> wbuf w ! used w = NUL"

lemma ensure_closed:
  assumes "wat_closed w"
  obtains w' where "ensure w n = Some w'" and "used w' = used w" and "used w + n < wcap w'"
    and "length (wbuf w') = wcap w'" and "take (used w) (wbuf w') = wat_bytes w"
proof (cases "used w + n + 1 > wcap w")
  case False
  with assms that show ?thesis by (auto simp: ensure_def wat_closed_def wat_bytes_def)
next
  case True
  from assms have "0 < wcap w" by (simp add: wat_closed_def)
  from grow_cap_Some [OF this] obtain c where
    "grow_cap (used w + n + 1) (wcap w) = Some c" "used w + n + 1 \<le> c" "wcap w \<le> c" by blast
  with True assms that show ?thesis by (auto simp: ensure_def wat_closed_def wat_bytes_def)
qed

lemma wat_append_closed:
  assumes "wat_closed w"
  shows "\<exists>w'. wat_append w s = Some w' \<and> wat_closed w' \<and> wat_bytes w' = wat_bytes w @ cstr s"
proof -
  obtain e where e: "ensure w (length (cstr s)) = Some e" "used e = used w" "used w + length (cstr s) < wcap e"
    "length (wbuf e) = wcap e" "take (used w) (wbuf e) = wat_bytes w"
    by (rule ensure_closed [OF assms])
  moreover have "used w \<le> length (wbuf w)" using assms by (simp add: wat_closed_def)
  ultimately show ?thesis
    by (simp add: wat_append_def Let_def wat_closed_def wat_bytes_def nth_list_update)
qed

lemma wat_vappendf_closed:
  assumes "wat_closed w"
  shows "\<exists>w'. wat_vappendf w (Some t) = Some w' \<and> wat_closed w' \<and> wat_bytes w' = wat_bytes w @ t"
proof -
  obtain e where e: "ensure w (length t) = Some e" "used e = used w" "used w + length t < wcap e"
    "length (wbuf e) = wcap e" "take (used w) (wbuf e) = wat_bytes w"
    by (rule ensure_closed [OF assms])
  then have "take (wcap e - used e - 1) t = t" "wcap e - used e \<noteq> 0" by simp_all
  moreover have "used w \<le> length (wbuf w)" using assms by (simp add: wat_closed_def)
  ultimately show ?thesis
    using e by (simp add: wat_vappendf_def vsnprintf_at_def Let_def wat_closed_def wat_bytes_def nth_append)
qed

interpretation wat: growable emit_chunk chunk_text wat_bytes wat_closed
proof unfold_locales
  fix w c assume "wat_closed w"
  then show "\<exists>w'. emit_chunk w c = Some w' \<and> wat_closed w' \<and> wat_bytes w' = wat_bytes w @ chunk_text c"
    by (cases c) (simp_all add: wat_append_closed wat_vappendf_closed)
qed

lemma cstr_closed: "cstr (x @ NUL # y) = cstr x"
  by (induction x) (simp_all add: cstr_def)

lemma wat_cstr_bytes: "wat_closed w \<Longrightarrow> wat_cstr w = cstr (wat_bytes w)"
proof -
  assume ok: "wat_closed w"
  then have "wbuf w = wat_bytes w @ NUL # drop (Suc (used w)) (wbuf w)"
    using id_take_nth_drop [of "used w" "wbuf w"] by (simp add: wat_closed_def wat_bytes_def)
  then show ?thesis unfolding wat_cstr_def by (metis cstr_closed)
qed

section \<open>LEB128\<close>

text \<open>The encoders as written: a loop that shifts the value and writes a byte a turn.\<close>

function buf_uleb :: "Buf \<Rightarrow> u64 \<Rightarrow> Buf option" where
  "buf_uleb b v =
     (let byte = (ucast (v AND 0x7f) :: byte);
          v = drop_bit 7 v;
          byte = (if v \<noteq> 0 then byte OR 0x80 else byte)
      in case buf_byte b byte of
           None \<Rightarrow> None
         | Some b \<Rightarrow> if v \<noteq> 0 then buf_uleb b v else Some b)"
  by pat_completeness auto
termination
proof (relation "measure (\<lambda>(b, v). unat v)", goal_cases)
  case 1
  then show ?case by simp
next
  case (2 b v byte v' byte' b')
  then have "v \<noteq> 0" by auto
  with 2 show ?case by (simp add: drop_bit_less)
qed

text \<open>
  \<open>v >>= 7\<close> on an \<open>int64_t\<close> is an arithmetic shift (\<open>signed_drop_bit\<close>). The loop ends because
  the signed value moves towards 0 or -1.
\<close>

definition sleb_byte :: "u64 \<Rightarrow> byte" where
  "sleb_byte v = ucast (v AND 0x7f)"

definition sleb_last :: "u64 \<Rightarrow> byte \<Rightarrow> bool" where
  "sleb_last v' byte \<longleftrightarrow> (v' = 0 \<and> byte AND 0x40 = 0) \<or> (v' = -1 \<and> byte AND 0x40 \<noteq> 0)"

lemma sint_shift7: "sint (signed_drop_bit 7 (v :: u64)) = sint v div 128"
  by (simp add: sint_signed_drop_bit_eq drop_bit_eq_div)

lemma sint_eq_zero: "(w :: u64) = 0 \<longleftrightarrow> sint w = 0"
proof
  assume "sint w = 0"
  then have "sint w = sint (0 :: u64)" by simp
  then show "w = 0" by (rule signed_word_eqI)
qed simp

lemma sint_eq_minus1: "(w :: u64) = -1 \<longleftrightarrow> sint w = -1"
proof
  assume "sint w = -1"
  then have "sint w = sint (-1 :: u64)" by simp
  then show "w = -1" by (rule signed_word_eqI)
qed simp

definition sleb_measure :: "u64 \<Rightarrow> nat" where
  "sleb_measure v = nat (if sint v < 0 then - 1 - sint v else sint v)"

lemma sleb_more:
  assumes "\<not> sleb_last (signed_drop_bit 7 v) (sleb_byte v)"
  shows "sleb_measure (signed_drop_bit 7 v) < sleb_measure v"
proof -
  have "v \<noteq> 0" "v \<noteq> -1"
    using assms by (auto simp: sleb_last_def sleb_byte_def)
  then have "sint v \<noteq> 0" "sint v \<noteq> -1"
    using sint_eq_zero [of v] sint_eq_minus1 [of v] by auto
  then have "sint v < -1 \<or> 0 < sint v" by linarith
  then show ?thesis
    unfolding sleb_measure_def sint_shift7 by (auto simp: div_neg_pos_less0)
qed

function buf_sleb :: "Buf \<Rightarrow> u64 \<Rightarrow> Buf option" where
  "buf_sleb b v =
     (let byte = sleb_byte v;
          v' = signed_drop_bit 7 v
      in if sleb_last v' byte then buf_byte b byte
         else case buf_byte b (byte OR 0x80) of
                None \<Rightarrow> None
              | Some b' \<Rightarrow> buf_sleb b' v')"
  by pat_completeness auto
termination
  by (relation "measure (\<lambda>(b, v). sleb_measure v)") (auto simp: sleb_more)

declare buf_uleb.simps [simp del] buf_sleb.simps [simp del]

text \<open>What the loops append, as functions of the value alone.\<close>

definition low7 :: "u64 \<Rightarrow> byte" where
  "low7 v = ucast (v AND 0x7f)"

function uleb :: "u64 \<Rightarrow> byte list" where
  "uleb v = (if drop_bit 7 v = 0 then [low7 v] else (low7 v OR 0x80) # uleb (drop_bit 7 v))"
  by pat_completeness auto
termination
proof (relation "measure unat", goal_cases)
  case (2 v)
  then have "v \<noteq> 0" by auto
  then show ?case by (simp add: drop_bit_less)
qed simp

function sleb :: "u64 \<Rightarrow> byte list" where
  "sleb v = (if sleb_last (signed_drop_bit 7 v) (low7 v) then [low7 v]
             else (low7 v OR 0x80) # sleb (signed_drop_bit 7 v))"
  by pat_completeness auto
termination
  by (relation "measure sleb_measure") (auto simp: sleb_more [unfolded sleb_byte_def] low7_def)

declare uleb.simps [simp del] sleb.simps [simp del]

lemma buf_uleb_contents:
  "buf_ok b \<Longrightarrow> \<exists>b'. buf_uleb b v = Some b' \<and> buf_ok b' \<and> contents b' = contents b @ uleb v"
proof (induction v arbitrary: b rule: uleb.induct)
  case (1 v)
  let ?x = "if drop_bit 7 v \<noteq> 0 then low7 v OR 0x80 else low7 v"
  from buf_bytes_ok [OF "1.prems", of "[?x]"] buf_byte_is_bytes [OF "1.prems", of ?x]
  obtain c where c: "buf_byte b ?x = Some c" "buf_ok c" "contents c = contents b @ [?x]" by auto
  show ?case
  proof (cases "drop_bit 7 v = 0")
    case True
    with c show ?thesis
      by (simp add: buf_uleb.simps [of b v] uleb.simps [of v] Let_def low7_def)
  next
    case False
    from "1.IH" [OF False c(2)] obtain d where
      "buf_uleb c (drop_bit 7 v) = Some d" "buf_ok d" "contents d = contents c @ uleb (drop_bit 7 v)"
      by blast
    with False c show ?thesis
      by (simp add: buf_uleb.simps [of b v] uleb.simps [of v] Let_def low7_def)
  qed
qed

lemma buf_sleb_contents:
  "buf_ok b \<Longrightarrow> \<exists>b'. buf_sleb b v = Some b' \<and> buf_ok b' \<and> contents b' = contents b @ sleb v"
proof (induction v arbitrary: b rule: sleb.induct)
  case (1 v)
  let ?last = "sleb_last (signed_drop_bit 7 v) (low7 v)"
  let ?x = "if ?last then low7 v else low7 v OR 0x80"
  from buf_bytes_ok [OF "1.prems", of "[?x]"] buf_byte_is_bytes [OF "1.prems", of ?x]
  obtain c where c: "buf_byte b ?x = Some c" "buf_ok c" "contents c = contents b @ [?x]" by auto
  have eq: "sleb_byte v = low7 v" by (simp add: sleb_byte_def low7_def)
  show ?case
  proof (cases ?last)
    case True
    with c show ?thesis
      by (simp add: buf_sleb.simps [of b v] sleb.simps [of v] Let_def eq)
  next
    case False
    from "1.IH" [OF False c(2)] obtain d where
      "buf_sleb c (signed_drop_bit 7 v) = Some d" "buf_ok d"
      "contents d = contents c @ sleb (signed_drop_bit 7 v)" by blast
    with False c show ?thesis
      by (simp add: buf_sleb.simps [of b v] sleb.simps [of v] Let_def eq)
  qed
qed

subsection \<open>The decoders of the WebAssembly specification\<close>

text \<open>
  Section 5.2.2 of the WebAssembly specification, read as functions: an unsigned and a signed
  integer of at most \<open>N\<close> bits at the head of a byte list, with what follows it.
\<close>

fun decode_u :: "nat \<Rightarrow> byte list \<Rightarrow> (nat \<times> byte list) option" where
  "decode_u N [] = None"
| "decode_u N (b # bs) =
     (let n = unat b in
      if n < 128 then (if n < 2 ^ N then Some (n, bs) else None)
      else if N > 7
      then (case decode_u (N - 7) bs of None \<Rightarrow> None | Some (m, r) \<Rightarrow> Some (128 * m + (n - 128), r))
      else None)"

fun decode_s :: "nat \<Rightarrow> byte list \<Rightarrow> (int \<times> byte list) option" where
  "decode_s N [] = None"
| "decode_s N (b # bs) =
     (let n = uint b in
      if n < 64 then (if n < 2 ^ (N - 1) then Some (n, bs) else None)
      else if n < 128 then (if - (2 ^ (N - 1)) \<le> n - 128 then Some (n - 128, bs) else None)
      else if N > 7
      then (case decode_s (N - 7) bs of None \<Rightarrow> None | Some (m, r) \<Rightarrow> Some (128 * m + (n - 128), r))
      else None)"

lemma and_7f: "v AND 0x7f = take_bit 7 (v :: u64)"
  by (simp add: take_bit_eq_mask mask_eq_exp_minus_1)

lemma unat_low7: "unat (low7 v) = unat v mod 128"
  unfolding low7_def and_7f
  by (simp add: unsigned_ucast_eq take_bit_eq_mod unat_mod)

lemma uint_low7: "uint (low7 v) = uint v mod 128"
  using arg_cong [OF unat_low7, of int v] by (simp add: zmod_int)

lemma low7_high:
  "unat (low7 v OR 0x80) = unat v mod 128 + 128"
proof -
  have b: "\<not> bit (low7 v) 7"
    by (simp add: low7_def and_7f bit_simps)
  have "low7 v AND 0x80 = 0"
  proof (rule bit_eqI)
    fix n
    have "bit (2 ^ 7 :: byte) n \<Longrightarrow> n = 7"
      unfolding bit_exp_iff by simp
    then have "bit (0x80 :: byte) n \<Longrightarrow> n = 7" by simp
    then show "bit (low7 v AND 0x80) n = bit 0 n"
      using b by (auto simp: bit_and_iff)
  qed
  then have "low7 v OR 0x80 = low7 v + 0x80"
    by (simp add: disjunctive_add_eq_or)
  moreover have "unat (low7 v + 0x80) = unat (low7 v) + 128"
    by (subst unat_add_lem [THEN iffD1]) (simp_all add: unat_low7)
  ultimately show ?thesis by (simp add: unat_low7)
qed

lemma unat_shift7: "unat (drop_bit 7 (v :: u64)) = unat v div 128"
  by (simp only: unat_drop_bit_eq drop_bit_nat_def) simp

lemma uleb_roundtrip:
  "unat v < 2 ^ N \<Longrightarrow> decode_u N (uleb v @ rest) = Some (unat v, rest)"
proof (induction v arbitrary: N rule: uleb.induct)
  case (1 v)
  show ?case
  proof (cases "drop_bit 7 v = 0")
    case True
    then have "unat v div 128 = 0" using unat_shift7 [of v] by simp
    then have "unat v < 128" by simp
    with True "1.prems" show ?thesis
      by (simp add: uleb.simps [of v] unat_low7)
  next
    case False
    then have "unat v div 128 \<noteq> 0" using unat_shift7 [of v] by (metis unat_eq_zero)
    then have ge: "128 \<le> unat v" by simp
    have "7 < N"
    proof (rule ccontr)
      assume "\<not> 7 < N"
      then have "(2 :: nat) ^ N \<le> 2 ^ 7" by (intro power_increasing) auto
      with "1.prems" ge show False by simp
    qed
    then have N: "(2 :: nat) ^ N = 128 * 2 ^ (N - 7)"
      using power_add [of "2 :: nat" 7 "N - 7"] by simp
    with "1.prems" have "unat (drop_bit 7 v) < 2 ^ (N - 7)"
      by (simp add: unat_shift7 less_mult_imp_div_less mult.commute)
    from "1.IH" [OF False this] \<open>7 < N\<close> False show ?thesis
      by (simp add: uleb.simps [of v] low7_high unat_shift7)
  qed
qed

lemma sint_low7: "uint (low7 v) = sint v mod 128"
proof -
  have "take_bit 7 (sint v) = take_bit 7 (uint v)"
    by (simp add: sint_uint take_bit_signed_take_bit)
  then show ?thesis by (simp add: uint_low7 take_bit_eq_mod)
qed

lemma bit6: "unat (b :: byte) < 128 \<Longrightarrow> b AND 0x40 = 0 \<longleftrightarrow> unat b < 64"
proof -
  assume lt: "unat b < 128"
  have "b AND 2 ^ 6 = 0 \<longleftrightarrow> \<not> bit b 6"
    by (rule and_exp_eq_0_iff_not_bit)
  also have "bit b 6 \<longleftrightarrow> odd (unat b div 2 ^ 6)"
    using bit_unsigned_iff [of b 6, where ?'a = nat] bit_iff_odd [of "unat b" 6] by simp
  also have "\<not> odd (unat b div 2 ^ 6) \<longleftrightarrow> unat b < 64"
    by (cases "unat b < 64") (use lt in \<open>auto simp: div_nat_eqI [of 64 1 "unat b"]\<close>)
  finally show ?thesis by simp
qed

lemma byte_window:
  fixes s q r :: int
  assumes "s = 128 * q + r" and "0 \<le> r" and "r < 128"
  shows "(q = 0 \<and> r < 64) \<or> (q = -1 \<and> \<not> r < 64) \<longleftrightarrow> -64 \<le> s \<and> s < 64"
  using assms by auto

text \<open>Whether a byte is the last one, in terms of the signed value.\<close>

lemma sleb_last_iff:
  "sleb_last (signed_drop_bit 7 v) (low7 v) \<longleftrightarrow> -64 \<le> sint v \<and> sint v < 64"
proof -
  have small: "unat (low7 v) < 128" by (simp add: unat_low7)
  have b: "low7 v AND 0x40 = 0 \<longleftrightarrow> sint v mod 128 < 64"
    unfolding sint_low7 [symmetric] bit6 [OF small]
    using of_nat_less_iff [of "unat (low7 v)" 64, where ?'a = int] by simp
  have z: "signed_drop_bit 7 v = 0 \<longleftrightarrow> sint v div 128 = 0"
    unfolding sint_shift7 [symmetric] by (rule sint_eq_zero)
  have m: "signed_drop_bit 7 v = -1 \<longleftrightarrow> sint v div 128 = -1"
    unfolding sint_shift7 [symmetric] by (rule sint_eq_minus1)
  show ?thesis
    unfolding sleb_last_def b z m
    by (rule byte_window) (rule mult_div_mod_eq [symmetric], rule pos_mod_sign, simp, rule pos_mod_bound, simp)
qed

lemma div_128_bounds:
  fixes s p :: int
  assumes "- (128 * p) \<le> s" and "s < 128 * p"
  shows "- p \<le> s div 128" and "s div 128 < p"
proof -
  have "s = 128 * (s div 128) + s mod 128" "0 \<le> s mod 128" "s mod 128 < 128" by simp_all
  with assms show "- p \<le> s div 128" "s div 128 < p" by linarith+
qed

lemma sleb_roundtrip:
  "0 < N \<Longrightarrow> - (2 ^ (N - 1)) \<le> sint v \<Longrightarrow> sint v < 2 ^ (N - 1) \<Longrightarrow>
    decode_s N (sleb v @ rest) = Some (sint v, rest)"
proof (induction v arbitrary: N rule: sleb.induct)
  case (1 v)
  show ?case
  proof (cases "sleb_last (signed_drop_bit 7 v) (low7 v)")
    case True
    then have r: "-64 \<le> sint v" "sint v < 64" by (simp_all add: sleb_last_iff)
    show ?thesis
    proof (cases "0 \<le> sint v")
      case True
      with r have "uint (low7 v) = sint v" by (simp add: sint_low7)
      with True r \<open>sleb_last _ _\<close> "1.prems" show ?thesis by (simp add: sleb.simps [of v])
    next
      case False
      with r have "uint (low7 v) = sint v + 128"
        unfolding sint_low7 by presburger
      with False r \<open>sleb_last _ _\<close> "1.prems" show ?thesis by (simp add: sleb.simps [of v])
    qed
  next
    case False
    then have big: "sint v < -64 \<or> 64 \<le> sint v" by (auto simp: sleb_last_iff)
    have "7 < N"
    proof (rule ccontr)
      assume "\<not> 7 < N"
      then have "(2 :: int) ^ (N - 1) \<le> 2 ^ 6" by (intro power_increasing) auto
      with "1.prems" big show False by simp
    qed
    then have N: "(2 :: int) ^ (N - 1) = 128 * 2 ^ (N - 7 - 1)"
      using power_add [of "2 :: int" 7 "N - 7 - 1"] by simp
    let ?w = "signed_drop_bit 7 v"
    have "- (2 ^ (N - 7 - 1)) \<le> sint ?w" "sint ?w < 2 ^ (N - 7 - 1)"
      using div_128_bounds "1.prems"(2,3) unfolding sint_shift7 N by blast+
    from "1.IH" [OF False _ this] \<open>7 < N\<close>
    have ih: "decode_s (N - 7) (sleb ?w @ rest) = Some (sint ?w, rest)" by simp
    have "uint (low7 v OR 0x80) = sint v mod 128 + 128"
      using arg_cong [OF low7_high [of v], of int] sint_low7 [of v] uint_low7 [of v]
      by (simp add: zmod_int)
    moreover have "128 * (sint v div 128) + sint v mod 128 = sint v" by simp
    ultimately show ?thesis
      using ih False \<open>7 < N\<close> pos_mod_sign [of 128 "sint v"]
      by (simp add: sleb.simps [of v] sint_shift7 Let_def del: pos_mod_sign)
  qed
qed

lemma length_uleb: "unat v < 2 ^ (7 * n) \<Longrightarrow> 0 < n \<Longrightarrow> length (uleb v) \<le> n"
proof (induction v arbitrary: n rule: uleb.induct)
  case (1 v)
  show ?case
  proof (cases "drop_bit 7 v = 0")
    case True
    with "1.prems" show ?thesis by (simp add: uleb.simps [of v])
  next
    case False
    then have "unat v div 128 \<noteq> 0" using unat_shift7 [of v] by (metis unat_eq_zero)
    then have "128 \<le> unat v" by simp
    with "1.prems" obtain m where n: "n = Suc m" "0 < m"
      by (cases n; cases "n - 1") auto
    from "1.prems"(1) have "unat (drop_bit 7 v) < 2 ^ (7 * m)"
      by (simp add: n unat_shift7 power_add less_mult_imp_div_less mult.commute)
    from "1.IH" [OF False this n(2)] False n show ?thesis by (simp add: uleb.simps [of v])
  qed
qed

lemma length_uleb_10: "length (uleb v) \<le> 10"
  by (rule length_uleb) (use unsigned_less [of v, where ?'a = nat] in simp_all)

lemma uleb_nonempty [simp]: "uleb v \<noteq> []"
  by (subst uleb.simps) simp

lemma sleb_nonempty [simp]: "sleb v \<noteq> []"
  by (subst sleb.simps) simp

section \<open>Floats, little endian\<close>

text \<open>
  A \<open>float\<close> or \<open>double\<close> is its bit pattern: the C code copies it into an integer and writes
  that, low byte first.
\<close>

definition le_bytes :: "nat \<Rightarrow> 'a::len word \<Rightarrow> byte list" where
  "le_bytes n bits = map (\<lambda>i. ucast (drop_bit (8 * i) bits)) [0..<n]"

text \<open>\<open>for (int i = 0; i < n; i++) buf_byte(b, bits >> (8 * i))\<close>\<close>

fun buf_each :: "Buf \<Rightarrow> byte list \<Rightarrow> Buf option" where
  "buf_each b [] = Some b"
| "buf_each b (x # xs) = (case buf_byte b x of None \<Rightarrow> None | Some b \<Rightarrow> buf_each b xs)"

definition buf_f32 :: "Buf \<Rightarrow> u32 \<Rightarrow> Buf option" where
  "buf_f32 b bits = buf_each b (le_bytes 4 bits)"

definition buf_f64 :: "Buf \<Rightarrow> u64 \<Rightarrow> Buf option" where
  "buf_f64 b bits = buf_each b (le_bytes 8 bits)"

lemma buf_each_contents:
  "buf_ok b \<Longrightarrow> \<exists>b'. buf_each b xs = Some b' \<and> buf_ok b' \<and> contents b' = contents b @ xs"
proof (induction xs arbitrary: b)
  case Nil
  then show ?case by simp
next
  case (Cons x xs)
  from buf_bytes_ok [OF Cons.prems, of "[x]"] buf_byte_is_bytes [OF Cons.prems, of x]
  obtain c where "buf_byte b x = Some c" "buf_ok c" "contents c = contents b @ [x]" by auto
  with Cons.IH [of c] show ?case by auto
qed

fun le_value :: "byte list \<Rightarrow> nat" where
  "le_value [] = 0"
| "le_value (b # bs) = unat b + 256 * le_value bs"

lemma le_bytes_Suc: "le_bytes (Suc n) w = ucast w # le_bytes n (drop_bit 8 w)"
  unfolding le_bytes_def
  by (simp add: upt_rec [of 0 "Suc n"] map_Suc_upt [symmetric] comp_def add.commute del: upt_Suc)

lemma le_bytes_value:
  fixes w :: "'a::len word"
  assumes "8 \<le> LENGTH('a)"
  shows "le_value (le_bytes n w) = unat w mod 256 ^ n"
proof (induction n arbitrary: w)
  case 0
  then show ?case by (simp add: le_bytes_def)
next
  case (Suc n)
  have u: "unat (ucast w :: byte) = unat w mod 256"
    by (simp add: unsigned_ucast_eq take_bit_eq_mod)
  have d: "unat (drop_bit 8 w) = unat w div 256"
    by (simp only: unat_drop_bit_eq drop_bit_nat_def) simp
  show ?case
    by (simp add: le_bytes_Suc Suc u d mod_mult2_eq)
qed

lemma buf_f64_contents:
  "buf_ok b \<Longrightarrow> \<exists>b'. buf_f64 b d = Some b' \<and> buf_ok b' \<and> contents b' = contents b @ le_bytes 8 d
     \<and> le_value (le_bytes 8 d) = unat d"
  using buf_each_contents [of b "le_bytes 8 d"] le_bytes_value [of 8 d] unsigned_less [of d, where ?'a = nat]
  by (simp add: buf_f64_def)

lemma buf_f32_contents:
  "buf_ok b \<Longrightarrow> \<exists>b'. buf_f32 b d = Some b' \<and> buf_ok b' \<and> contents b' = contents b @ le_bytes 4 d
     \<and> le_value (le_bytes 4 d) = unat d"
  using buf_each_contents [of b "le_bytes 4 d"] le_bytes_value [of 4 d] unsigned_less [of d, where ?'a = nat]
  by (simp add: buf_f32_def)

section \<open>Properties\<close>


text \<open>C24: Any sequence of \<open>wat_append\<close> and \<open>wat_appendf\<close> calls on a fresh builder succeeds, the text always
  has its terminator inside the block, the bytes are those of the texts in order, and \<open>wat_cstr\<close> is their
  concatenation up to the first NUL that a format printed, if any did.\<close>

theorem wat_appends_concat:
  "\<exists>w. put_chunks emit_chunk wat_init cs = Some w \<and> used w < length (wbuf w) \<and> wbuf w ! used w = NUL
     \<and> take (used w) (wbuf w) = concat (map chunk_text cs) \<and> wat_cstr w = cstr (concat (map chunk_text cs))"
proof -
  have "wat_closed wat_init" "wat_bytes wat_init = []" by (simp_all add: wat_closed_def wat_bytes_def wat_init_def)
  with wat.chunks_ok [of wat_init cs] show ?thesis
    by (auto simp: wat_cstr_bytes) (auto simp: wat_closed_def wat_bytes_def)
qed

text \<open>C25: \<open>buf_uleb\<close> returns on every 64-bit value and every well-formed buffer, appends at most
  ten bytes, and the decoder of the WebAssembly specification reads the value back from them,
  whatever follows.\<close>

theorem buf_uleb_decodes:
  assumes "buf_ok b"
  shows "\<exists>b' bs. buf_uleb b v = Some b' \<and> buf_ok b' \<and> contents b' = contents b @ bs
    \<and> length bs \<le> 10 \<and> decode_u 64 (bs @ rest) = Some (unat v, rest)"
  using buf_uleb_contents [OF assms, of v] length_uleb_10 [of v]
    uleb_roundtrip [of v 64 rest] unsigned_less [of v, where ?'a = nat] by auto

theorem buf_uleb_decodes_witness:
  "\<exists>b' bs. buf_uleb buf_init 300 = Some b' \<and> buf_ok b' \<and> contents b' = contents buf_init @ bs
    \<and> length bs \<le> 10 \<and> decode_u 64 (bs @ [7]) = Some (unat (300 :: u64), [7])"
  by (rule buf_uleb_decodes) (rule buf_ok_init)

text \<open>C26: \<open>buf_sleb\<close> returns on every 64-bit value, and the bytes it appends are the signed LEB128
  form: the decoder of the specification, at every width that holds the value, reads back
  exactly its two's complement reading.\<close>

theorem buf_sleb_decodes:
  assumes "buf_ok b" and "0 < N" and "- (2 ^ (N - 1)) \<le> sint v" and "sint v < 2 ^ (N - 1)"
  shows "\<exists>b' bs. buf_sleb b v = Some b' \<and> buf_ok b' \<and> contents b' = contents b @ bs
    \<and> decode_s N (bs @ rest) = Some (sint v, rest)"
  using buf_sleb_contents [OF assms(1), of v] sleb_roundtrip [OF assms(2-4), of rest] by auto

theorem buf_sleb_decodes_witness:
  "\<exists>b' bs. buf_sleb buf_init (- 129) = Some b' \<and> buf_ok b' \<and> contents b' = contents buf_init @ bs
    \<and> decode_s 33 (bs @ []) = Some (sint (- 129 :: u64), [])"
  by (rule buf_sleb_decodes) (simp_all add: buf_ok_init)

end
