(* ===== verification/Wat_Reader.thy ===== *)
theory Wat_Reader
  imports Wat_Buf
begin

text \<open>
  The reader of the assembler (\<open>src/src/wat2wasm.c\<close>, sections "lexer + reader", "small helpers
  over the tree" and "numeric literal parsing"): from WebAssembly text to a tree of atoms and
  lists. The cursor \<open>c->src + c->pos\<close> is the rest of the source, so \<open>c->pos < c->len\<close> says
  that the rest is not empty. \<open>fail\<close> is \<open>Inl\<close>; \<open>OutOfBounds\<close> marks a read or write
  outside an array, which the C code does not detect.
\<close>

datatype wat_err = Fail string | OutOfBounds

section \<open>The tree\<close>

text \<open>
  \<open>SExpr\<close>: an atom has its text (of a string, the decoded bytes), whether it was a string, and
  its byte offset in the source; a list has its children in order, and its offset.
\<close>

datatype sexpr =
    Atom (is_string: bool) (atom: string) (src_pos: nat)
  | SList (kids: "sexpr list") (src_pos: nat)

fun is_list :: "sexpr \<Rightarrow> bool" where
  "is_list (SList _ _) = True"
| "is_list (Atom _ _ _) = False"

text \<open>A \<open>SExpr *\<close> that may be NULL is an \<open>option\<close>; the next sibling is the head of a tail.\<close>

definition first :: "sexpr list \<Rightarrow> sexpr option" where
  "first ks = (case ks of [] \<Rightarrow> None | k # _ \<Rightarrow> Some k)"

fun is_atom :: "sexpr option \<Rightarrow> bool" where
  "is_atom (Some (Atom _ _ _)) = True"
| "is_atom _ = False"

fun atom_eq :: "sexpr option \<Rightarrow> string \<Rightarrow> bool" where
  "atom_eq (Some (Atom str a _)) s \<longleftrightarrow> \<not> str \<and> cstr a = s"
| "atom_eq _ s \<longleftrightarrow> False"

text \<open>The head keyword of a list, NULL (\<open>None\<close>) if it has none.\<close>

fun head :: "sexpr option \<Rightarrow> string option" where
  "head (Some (SList (Atom False a _ # _) _)) = Some (cstr a)"
| "head _ = None"

text \<open>\<open>n && is_atom(n) && n->atom[0] == '$'\<close>: an identifier.\<close>

fun is_id :: "sexpr option \<Rightarrow> bool" where
  "is_id (Some (Atom _ a _)) \<longleftrightarrow> at (cstr a) = CHR ''$''"
| "is_id _ \<longleftrightarrow> False"

section \<open>Characters\<close>

definition wat_space :: "char \<Rightarrow> bool" where
  "wat_space ch \<longleftrightarrow> ch = CHR '' '' \<or> ch = TAB \<or> ch = LF \<or> ch = CR"

definition is_atom_char :: "char \<Rightarrow> bool" where
  "is_atom_char ch \<longleftrightarrow> ch \<noteq> NUL \<and> \<not> wat_space ch \<and> ch \<noteq> CHR ''('' \<and> ch \<noteq> CHR '')'' \<and> ch \<noteq> DQUOTE
     \<and> ch \<noteq> CHR '';''"

definition hexval :: "char \<Rightarrow> nat option" where
  "hexval ch =
     (if 48 \<le> code ch \<and> code ch \<le> 57 then Some (code ch - 48)
      else if 97 \<le> code ch \<and> code ch \<le> 102 then Some (code ch - 97 + 10)
      else if 65 \<le> code ch \<and> code ch \<le> 70 then Some (code ch - 65 + 10)
      else None)"

text \<open>The 1-based line of a byte offset.\<close>

definition line_of :: "string \<Rightarrow> nat \<Rightarrow> nat" where
  "line_of src pos = 1 + length (filter (\<lambda>c. c = LF) (take pos src))"

section \<open>Whitespace and comments\<close>

text \<open>The body of a nestable block comment, from behind its opener, at depth \<open>d\<close>.\<close>

fun skip_block :: "nat \<Rightarrow> string \<Rightarrow> string" where
  "skip_block 0 s = s"
| "skip_block (Suc d) [] = []"
| "skip_block (Suc d) [a] = []"
| "skip_block (Suc d) (a # b # s) =
     (if a = CHR ''('' \<and> b = CHR '';'' then skip_block (Suc (Suc d)) s
      else if a = CHR '';'' \<and> b = CHR '')'' then skip_block d s
      else skip_block (Suc d) (b # s))"

lemma length_skip_block: "length (skip_block d s) \<le> length s"
  by (induction d s rule: skip_block.induct) auto

function skip_trivia :: "string \<Rightarrow> string" where
  "skip_trivia s0 =
     (let s = dropWhile wat_space s0 in
      case s of
        a # b # t \<Rightarrow>
          if a = CHR '';'' \<and> b = CHR '';'' then skip_trivia (dropWhile (\<lambda>c. c \<noteq> LF) t)
          else if a = CHR ''('' \<and> b = CHR '';'' then skip_trivia (skip_block 1 t)
          else s
      | _ \<Rightarrow> s)"
  by pat_completeness auto
termination
proof (relation "measure length", goal_cases)
  case (2 s0 s a w b t)
  then have "length (a # b # t) \<le> length s0" by (metis length_dropWhile_le)
  moreover have "length (dropWhile (\<lambda>c. c \<noteq> LF) t) \<le> length t" by (rule length_dropWhile_le)
  ultimately show ?case by simp
next
  case (3 s0 s a w b t)
  then have "length (a # b # t) \<le> length s0" by (metis length_dropWhile_le)
  with length_skip_block [of 1 t] show ?case by simp
qed simp

declare skip_trivia.simps [simp del]

lemma length_skip_trivia: "length (skip_trivia s) \<le> length s"
proof (induction s rule: skip_trivia.induct)
  case (1 s0)
  have le: "length (dropWhile wat_space s0) \<le> length s0" by (rule length_dropWhile_le)
  show ?case
  proof (cases "\<exists>a b t. dropWhile wat_space s0 = a # b # t")
    case False
    then show ?thesis
      using le by (subst skip_trivia.simps) (auto simp: Let_def split: list.splits)
  next
    case True
    then obtain a b t where s: "dropWhile wat_space s0 = a # b # t" by blast
    have "length (dropWhile (\<lambda>c. c \<noteq> LF) t) \<le> length t" by (rule length_dropWhile_le)
    with s le "1.IH" [OF refl s refl] length_skip_block [of 1 t] show ?thesis
      by (subst skip_trivia.simps) (force simp: Let_def)
  qed
qed

section \<open>Strings\<close>

text \<open>\<open>utf8_encode\<close>: the code point is a \<open>uint32_t\<close>, and each byte is cut to 8 bits.\<close>

definition utf8_encode :: "u32 \<Rightarrow> byte list" where
  "utf8_encode cp =
     (if cp < 0x80 then [ucast cp]
      else if cp < 0x800 then
        [ucast (0xC0 OR drop_bit 6 cp), ucast (0x80 OR (cp AND 0x3F))]
      else if cp < 0x10000 then
        [ucast (0xE0 OR drop_bit 12 cp), ucast (0x80 OR (drop_bit 6 cp AND 0x3F)),
         ucast (0x80 OR (cp AND 0x3F))]
      else
        [ucast (0xF0 OR drop_bit 18 cp), ucast (0x80 OR (drop_bit 12 cp AND 0x3F)),
         ucast (0x80 OR (drop_bit 6 cp AND 0x3F)), ucast (0x80 OR (cp AND 0x3F))])"

definition byte_chr :: "byte \<Rightarrow> char" where
  "byte_chr b = chr (unat b)"

definition chr_byte :: "char \<Rightarrow> byte" where
  "chr_byte c = of_nat (code c)"

lemma byte_chr_inverse [simp]: "chr_byte (byte_chr b) = b"
  using unsigned_less [of b, where ?'a = nat] by (simp add: chr_byte_def byte_chr_def)

lemma chr_byte_inverse [simp]: "byte_chr (chr_byte c) = c"
  by (simp add: chr_byte_def byte_chr_def unat_of_nat)

text \<open>The digits of \<open>\u{...}\<close> up to the closing brace; \<open>cp = cp * 16 + hv\<close> wraps.\<close>

fun u_digits :: "u32 \<Rightarrow> bool \<Rightarrow> string \<Rightarrow> wat_err + u32 \<times> string" where
  "u_digits cp any [] = Inl (Fail (''unterminated '' @ [BSLASH] @ ''u{} escape''))"
| "u_digits cp any (c # s) =
     (if c = CHR ''}'' then
        (if any then Inr (cp, s) else Inl (Fail (''unterminated '' @ [BSLASH] @ ''u{} escape'')))
      else case hexval c of
             None \<Rightarrow> Inl (Fail (''bad hex in '' @ [BSLASH] @ ''u{} escape''))
           | Some hv \<Rightarrow> u_digits (cp * 16 + of_nat hv) True s)"

text \<open>
  The escape behind a backslash: the characters it stands for, and the rest. At the end of the
  source the C loop breaks and the string is reported unterminated.
\<close>

definition wat_escape :: "string \<Rightarrow> wat_err + string \<times> string" where
  "wat_escape s =
     (case s of
        [] \<Rightarrow> Inl (Fail ''unterminated string'')
      | e # s \<Rightarrow>
          if e = CHR ''t'' then Inr ([TAB], s)
          else if e = CHR ''n'' then Inr ([LF], s)
          else if e = CHR ''r'' then Inr ([CR], s)
          else if e = DQUOTE then Inr ([DQUOTE], s)
          else if e = SQUOTE then Inr ([SQUOTE], s)
          else if e = BSLASH then Inr ([BSLASH], s)
          else if e = CHR ''u'' then
            (case s of
               [] \<Rightarrow> Inl (Fail (''bad '' @ [BSLASH] @ ''u escape in string''))
             | b # s \<Rightarrow>
                 if b \<noteq> CHR ''{'' then Inl (Fail (''bad '' @ [BSLASH] @ ''u escape in string''))
                 else bindE (u_digits 0 False s) (\<lambda>(cp, r). Inr (map byte_chr (utf8_encode cp), r)))
          else case hexval e of
                 None \<Rightarrow> Inl (Fail (''bad escape '' @ [SQUOTE, BSLASH, e, SQUOTE] @ '' in string''))
               | Some hi \<Rightarrow>
                   (case s of
                      [] \<Rightarrow> Inl (Fail ''truncated hex escape'')
                    | l # s \<Rightarrow>
                        (case hexval l of
                           None \<Rightarrow> Inl (Fail ''bad hex escape in string'')
                         | Some lo \<Rightarrow> Inr ([chr (hi * 16 + lo)], s))))"

lemma u_digits_length: "u_digits cp any s = Inr (cp', r) \<Longrightarrow> length r < length s"
  by (induction cp any s rule: u_digits.induct)
    (auto split: if_splits option.splits intro: less_SucI)

lemma wat_escape_length: "wat_escape s = Inr (bs, r) \<Longrightarrow> length r < length s"
  unfolding wat_escape_def
  by (auto split: list.splits if_splits option.splits dest: u_digits_length intro: less_SucI)

text \<open>The loop of \<open>read_string\<close>, from behind the opening quote; \<open>tmp\<close> is the decoded part.\<close>

function read_string :: "string \<Rightarrow> string \<Rightarrow> wat_err + string \<times> string" where
  "read_string tmp s =
     (case s of
        [] \<Rightarrow> Inl (Fail ''unterminated string'')
      | ch # s \<Rightarrow>
          if ch = DQUOTE then Inr (tmp, s)
          else if ch \<noteq> BSLASH then read_string (tmp @ [ch]) s
          else bindE (wat_escape s) (\<lambda>(bs, r). read_string (tmp @ bs) r))"
  by pat_completeness auto
termination
  by (relation "measure (\<lambda>(tmp, s). length s)") (auto dest: wat_escape_length)

declare read_string.simps [simp del]

lemma read_string_length: "read_string tmp s = Inr (a, r) \<Longrightarrow> length r < length s"
proof (induction tmp s rule: read_string.induct)
  case (1 tmp s)
  then show ?case
    by (subst (asm) (3) read_string.simps)
      (fastforce split: list.splits if_splits prod.splits dest: wat_escape_length)
qed

section \<open>The reader\<close>

text \<open>
  \<open>read_sexpr n s\<close> reads one tree from \<open>s\<close>, the rest of a source of \<open>n\<close> bytes (so a position is
  \<open>n\<close> less the length of the rest); \<open>None\<close> is the NULL of the end of input. \<open>read_kids\<close> is its
  loop over the children of a list, with \<open>acc\<close> the children so far.
\<close>

function (sequential)
  read_sexpr :: "nat \<Rightarrow> string \<Rightarrow> wat_err + sexpr option \<times> string" and
  read_kids :: "nat \<Rightarrow> nat \<Rightarrow> sexpr list \<Rightarrow> string \<Rightarrow> wat_err + sexpr \<times> string"
where
  "read_sexpr n s0 =
     (let s = skip_trivia s0; tok_pos = n - length s in
      case s of
        [] \<Rightarrow> Inr (None, [])
      | ch # t \<Rightarrow>
          if ch = CHR '')'' then Inl (Fail (''unexpected '' @ [SQUOTE, CHR '')'', SQUOTE]))
          else if ch = CHR ''('' then
            bindE (read_kids n tok_pos [] t) (\<lambda>(l, r). Inr (Some l, r))
          else if ch = DQUOTE then
            bindE (read_string [] t) (\<lambda>(a, r). Inr (Some (Atom True a tok_pos), r))
          else if \<not> is_atom_char ch then
            Inl (Fail (''unexpected character '' @ [SQUOTE, ch, SQUOTE]))
          else Inr (Some (Atom False (takeWhile is_atom_char s) tok_pos), dropWhile is_atom_char s))"
| "read_kids n pos acc s0 =
     (let s = skip_trivia s0 in
      case s of
        [] \<Rightarrow> Inl (Fail ''unterminated list'')
      | ch # t \<Rightarrow>
          if ch = CHR '')'' then Inr (SList acc pos, t)
          else bindE (read_sexpr n s) (\<lambda>(kid, r).
                 case kid of
                   None \<Rightarrow> Inl (Fail ''unterminated list'')
                 | Some kid \<Rightarrow> read_kids n pos (acc @ [kid]) r))"
  by pat_completeness auto

lemma read_dom_length:
  "read_sexpr_read_kids_dom (Inl (n, s)) \<Longrightarrow>
     (\<And>k r. read_sexpr n s = Inr (Some k, r) \<Longrightarrow> length r < length s)"
  "read_sexpr_read_kids_dom (Inr (n, pos, acc, s)) \<Longrightarrow>
     (\<And>l r. read_kids n pos acc s = Inr (l, r) \<Longrightarrow> length r < length s)"
proof (induction n s and n pos acc s rule: read_sexpr_read_kids.pinduct)
  case (1 n s0)
  have le: "length (skip_trivia s0) \<le> length s0" by (rule length_skip_trivia)
  show ?case
  proof (cases "skip_trivia s0")
    case Nil
    with 1 show ?thesis by (simp add: read_sexpr.psimps)
  next
    case (Cons ch t)
    have dw: "is_atom_char ch \<Longrightarrow> length (dropWhile is_atom_char (ch # t)) < length (ch # t)"
      by (rule length_dropWhile_less) simp_all
    show ?thesis
      using 1 le Cons dw
      by (auto simp: read_sexpr.psimps Let_def split: if_splits dest: read_string_length) force+
  qed
next
  case (2 n pos acc s0)
  have le: "length (skip_trivia s0) \<le> length s0" by (rule length_skip_trivia)
  show ?case
  proof (cases "skip_trivia s0")
    case Nil
    with 2 show ?thesis by (simp add: read_kids.psimps)
  next
    case (Cons ch t)
    show ?thesis
    proof (cases "ch = CHR '')''")
      case True
      with 2 Cons le show ?thesis by (auto simp: read_kids.psimps Let_def)
    next
      case False
      with 2 Cons le show ?thesis
        by (fastforce simp: read_kids.psimps Let_def split: option.splits)
    qed
  qed
qed

termination read_sexpr
proof (relation "measure (\<lambda>x. case x of Inl (n, s) \<Rightarrow> 2 * length s
                                | Inr (n, pos, acc, s) \<Rightarrow> 2 * length s + 1)", goal_cases)
  case 1
  then show ?case by simp
next
  case (2 n s0 s tok_pos ch t)
  then have "length (ch # t) \<le> length s0" by (metis length_skip_trivia)
  then show ?case by simp
next
  case (3 n pos acc s0 s ch t)
  then have "length s \<le> length s0" by (metis length_skip_trivia)
  then show ?case by simp
next
  case (4 n pos acc s0 s ch t x kid r k)
  then have "length s \<le> length s0" by (metis length_skip_trivia)
  moreover have "length r < length s" using 4 read_dom_length(1) by blast
  ultimately show ?case by simp
qed

declare read_sexpr.simps [simp del] read_kids.simps [simp del]

section \<open>Numeric literals\<close>

text \<open>
  The digit loops of \<open>parse_uint\<close> on a C string: an underscore is skipped, the value is a
  \<open>uint64_t\<close> and wraps. The error quotes the rest of the string from the bad digit.
\<close>

fun hex_digits :: "u64 \<Rightarrow> string \<Rightarrow> wat_err + u64" where
  "hex_digits v [] = Inr v"
| "hex_digits v (c # s) =
     (if c = CHR ''_'' then hex_digits v s
      else case hexval c of
             None \<Rightarrow> Inl (Fail (''bad hex digit in '' @ [SQUOTE] @ (c # s) @ [SQUOTE]))
           | Some h \<Rightarrow> hex_digits (v * 16 + of_nat h) s)"

fun dec_digits :: "u64 \<Rightarrow> string \<Rightarrow> wat_err + u64" where
  "dec_digits v [] = Inr v"
| "dec_digits v (c # s) =
     (if c = CHR ''_'' then dec_digits v s
      else if code c < 48 \<or> 57 < code c then
        Inl (Fail (''bad digit in integer '' @ [SQUOTE] @ (c # s) @ [SQUOTE]))
      else dec_digits (v * 10 + of_nat (code c - 48)) s)"

text \<open>
  \<open>-(int64_t)v\<close> is two's complement negation (the one value where the C expression overflows,
  \<open>2^63\<close>, maps to itself here, as on the supported compilers).
\<close>

definition parse_uint :: "string \<Rightarrow> wat_err + u64" where
  "parse_uint s0 =
     (let s0 = cstr s0;
          (neg, s) = (if at s0 = CHR ''+'' then (False, drop 1 s0)
                      else if at s0 = CHR ''-'' then (True, drop 1 s0)
                      else (False, s0));
          v = (if at s = CHR ''0'' \<and> (at (drop 1 s) = CHR ''x'' \<or> at (drop 1 s) = CHR ''X'')
               then (let s = drop 2 s in
                     if s = [] then Inl (Fail ''bad hex integer'') else hex_digits 0 s)
               else if s = [] then Inl (Fail ''empty integer'') else dec_digits 0 s)
      in bindE v (\<lambda>v. Inr (if neg then - v else v)))"

definition prefix_of :: "string \<Rightarrow> string \<Rightarrow> bool" where
  "prefix_of p s \<longleftrightarrow> take (length p) s = p"

definition parse_double :: "fp_env \<Rightarrow> string \<Rightarrow> wat_err + u64" where
  "parse_double fe s0 =
     (let s = cstr s0;
          (neg, p) = (if at s = CHR ''+'' then (False, drop 1 s)
                      else if at s = CHR ''-'' then (True, drop 1 s)
                      else (False, s))
      in if prefix_of ''inf'' p then Inr (if neg then 0xfff0000000000000 else 0x7ff0000000000000)
         else if prefix_of ''nan'' p then
           Inr (if neg then 0x7ff8000000000000 OR 0x8000000000000000 else 0x7ff8000000000000)
         else
           (let s = (if CHR ''_'' \<in> set s then take 127 (filter (\<lambda>c. c \<noteq> CHR ''_'') s) else s);
                (d, used) = strtod fe s
            in if used = 0 then Inl (Fail (''bad float literal '' @ [SQUOTE] @ s @ [SQUOTE]))
               else Inr d))"

section \<open>A whole source\<close>

text \<open>The reading part of \<open>wat_assemble\<close>: one tree, then nothing but trivia.\<close>

definition read_module :: "string \<Rightarrow> wat_err + sexpr option" where
  "read_module src =
     bindE (read_sexpr (length src) src) (\<lambda>(m, r).
       if skip_trivia r \<noteq> [] then Inl (Fail ''unexpected content after top-level form'')
       else Inr m)"

section \<open>Printing and reading back\<close>

text \<open>
  A printer for trees, in the syntax the reader takes: every byte of a string as two hex digits.
  Reading what it prints gives the tree back, whatever follows; only the source offsets differ,
  and \<open>forget_pos\<close> drops them.
\<close>

fun forget_pos :: "sexpr \<Rightarrow> sexpr" where
  "forget_pos (Atom str a _) = Atom str a 0"
| "forget_pos (SList ks _) = SList (map forget_pos ks) 0"

definition hex_char :: "nat \<Rightarrow> char" where
  "hex_char n = (if n < 10 then chr (48 + n) else chr (87 + n))"

definition esc_byte :: "char \<Rightarrow> string" where
  "esc_byte c = [BSLASH, hex_char (code c div 16), hex_char (code c mod 16)]"

fun print_sexpr :: "sexpr \<Rightarrow> string" where
  "print_sexpr (Atom str a _) =
     (if str then [DQUOTE] @ concat (map esc_byte a) @ [DQUOTE] else a)"
| "print_sexpr (SList ks _) =
     CHR ''('' # concat (map (\<lambda>k. print_sexpr k @ '' '') ks) @ '')''"

fun printable :: "sexpr \<Rightarrow> bool" where
  "printable (Atom str a _) \<longleftrightarrow> str \<or> (a \<noteq> [] \<and> list_all is_atom_char a)"
| "printable (SList ks _) \<longleftrightarrow> list_all printable ks"

lemma code_hex_char: "n < 16 \<Longrightarrow> code (hex_char n) = (if n < 10 then 48 + n else 87 + n)"
  by (simp add: hex_char_def)

lemma hexval_hex_char [simp]: "n < 16 \<Longrightarrow> hexval (hex_char n) = Some n"
  by (simp add: hexval_def code_hex_char)

lemma hex_char_plain:
  assumes "n < 16"
  shows "hex_char n \<notin> {CHR ''t'', CHR ''n'', CHR ''r'', DQUOTE, SQUOTE, BSLASH, CHR ''u''}"
  using assms by (auto dest!: arg_cong [where f = code] simp: code_hex_char split: if_splits)

lemma wat_escape_esc_byte: "wat_escape (drop 1 (esc_byte c) @ r) = Inr ([c], r)"
proof -
  have hi: "code c div 16 < 16" and lo: "code c mod 16 < 16"
    using code_less [of c] by (simp_all add: less_mult_imp_div_less)
  have "chr (code c div 16 * 16 + code c mod 16) = c"
    by (metis chr_code div_mult_mod_eq)
  with hex_char_plain [OF hi] hi lo show ?thesis
    by (simp add: wat_escape_def esc_byte_def)
qed

lemma read_string_printed:
  "read_string tmp (concat (map esc_byte a) @ DQUOTE # r) = Inr (tmp @ a, r)"
proof (induction a arbitrary: tmp)
  case Nil
  then show ?case by (subst read_string.simps) simp
next
  case (Cons c a)
  have e: "esc_byte c = BSLASH # drop 1 (esc_byte c)" by (simp add: esc_byte_def)
  have "wat_escape (drop 1 (esc_byte c) @ concat (map esc_byte a) @ DQUOTE # r)
          = Inr ([c], concat (map esc_byte a) @ DQUOTE # r)"
    by (rule wat_escape_esc_byte)
  with Cons.IH [of "tmp @ [c]"] show ?case
    by (subst read_string.simps, subst list.map, subst concat.simps, subst e) simp
qed

text \<open>A text that starts a tree: \<open>skip_trivia\<close> leaves it alone.\<close>

definition starts_tree :: "string \<Rightarrow> bool" where
  "starts_tree s \<longleftrightarrow> s \<noteq> [] \<and> \<not> wat_space (hd s) \<and> hd s \<noteq> CHR '';'' \<and> hd s \<noteq> CHR '')''
     \<and> (hd s = CHR ''('' \<longrightarrow> tl s \<noteq> [] \<and> hd (tl s) \<noteq> CHR '';'')"

lemma skip_trivia_tree: "starts_tree s \<Longrightarrow> skip_trivia s = s"
  by (subst skip_trivia.simps, cases s) (auto simp: starts_tree_def Let_def split: list.splits)

lemma skip_trivia_close [simp]: "skip_trivia (CHR '')'' # s) = CHR '')'' # s"
  by (subst skip_trivia.simps) (auto simp: Let_def wat_space_def split: list.splits)

lemma skip_trivia_blank [simp]: "skip_trivia (CHR '' '' # s) = skip_trivia s"
  by (subst (1 2) skip_trivia.simps) (simp add: wat_space_def)

lemma printed_starts: "printable e \<Longrightarrow> starts_tree (print_sexpr e @ r)"
proof (induction e arbitrary: r)
  case (Atom str a p)
  then show ?case
    by (cases a) (auto simp: starts_tree_def is_atom_char_def wat_space_def)
next
  case (SList ks p)
  show ?case
  proof (cases ks)
    case Nil
    then show ?thesis by (simp add: starts_tree_def wat_space_def)
  next
    case (Cons k ks')
    with SList have "starts_tree (print_sexpr k @ CHR '' '' # r')" for r' by simp
    from this [of "concat (map (\<lambda>k. print_sexpr k @ '' '') ks') @ CHR '')'' # r"] Cons
    show ?thesis
      by (auto simp: starts_tree_def wat_space_def)
  qed
qed

definition atom_ends :: "string \<Rightarrow> bool" where
  "atom_ends r \<longleftrightarrow> \<not> is_atom_char (at r)"

lemma atom_ends_simps [simp]: "atom_ends []" "atom_ends (CHR '' '' # r)" "atom_ends (CHR '')'' # r)"
  by (simp_all add: atom_ends_def is_atom_char_def wat_space_def)

lemma takeWhile_atom:
  assumes "list_all is_atom_char a" and "atom_ends r"
  shows "takeWhile is_atom_char (a @ r) = a" and "dropWhile is_atom_char (a @ r) = r"
proof -
  have P: "\<And>c. c \<in> set a \<Longrightarrow> is_atom_char c" using assms(1) by (simp add: list_all_iff)
  have "takeWhile is_atom_char r = []" "dropWhile is_atom_char r = r"
    using assms(2) by (cases r; simp add: atom_ends_def)+
  with P show "takeWhile is_atom_char (a @ r) = a" "dropWhile is_atom_char (a @ r) = r"
    by (simp_all add: takeWhile_append2 dropWhile_append2)
qed

lemma read_print_sexpr:
  assumes "printable e" and "atom_ends r"
  shows "\<exists>e'. read_sexpr n (print_sexpr e @ r) = Inr (Some e', r) \<and> forget_pos e' = forget_pos e"
  using assms
proof (induction e arbitrary: r)
  case (Atom str a p)
  have st: "skip_trivia (print_sexpr (Atom str a p) @ r) = print_sexpr (Atom str a p) @ r"
    by (intro skip_trivia_tree printed_starts) (rule Atom.prems)
  show ?case
  proof (cases str)
    case True
    with st show ?thesis
      by (subst read_sexpr.simps) (simp add: Let_def read_string_printed)
  next
    case False
    with Atom.prems obtain c b where a: "a = c # b" "is_atom_char c" "list_all is_atom_char a"
      by (cases a) auto
    then have "c \<noteq> CHR '')''" "c \<noteq> CHR ''(''" "c \<noteq> DQUOTE" by (auto simp: is_atom_char_def)
    with False st a takeWhile_atom [OF a(3) Atom.prems(2)] show ?thesis
      by (subst read_sexpr.simps) (simp add: Let_def)
  qed
next
  case (SList ks p)
  have kids: "\<exists>ks'. read_kids n pos acc (concat (map (\<lambda>k. print_sexpr k @ '' '') ls) @ CHR '')'' # r)
      = Inr (SList (acc @ ks') pos, r) \<and> map forget_pos ks' = map forget_pos ls"
    if "set ls \<subseteq> set ks" for ls acc pos
    using that
  proof (induction ls arbitrary: acc)
    case Nil
    then show ?case by (subst read_kids.simps) (simp add: Let_def)
  next
    case (Cons k ls)
    let ?rest = "concat (map (\<lambda>k. print_sexpr k @ '' '') ls) @ CHR '')'' # r"
    let ?s = "print_sexpr k @ CHR '' '' # ?rest"
    from Cons.prems SList.prems have k: "k \<in> set ks" "printable k" by (auto simp: list_all_iff)
    from SList.IH [OF k, of "CHR '' '' # ?rest"] obtain k' where
      k': "read_sexpr n ?s = Inr (Some k', CHR '' '' # ?rest)" "forget_pos k' = forget_pos k" by auto
    from Cons.IH [of "acc @ [k']"] Cons.prems obtain ls' where
      ls': "read_kids n pos (acc @ [k']) ?rest = Inr (SList (acc @ k' # ls') pos, r)"
        "map forget_pos ls' = map forget_pos ls" by auto
    have blank: "read_kids n pos (acc @ [k']) (CHR '' '' # ?rest) = read_kids n pos (acc @ [k']) ?rest"
      by (subst (1 2) read_kids.simps) simp
    have st: "starts_tree ?s" using printed_starts [OF k(2)] by blast
    then obtain ch t where s: "?s = ch # t" "ch \<noteq> CHR '')''"
      unfolding starts_tree_def by (cases ?s) auto
    have "read_kids n pos acc ?s = Inr (SList (acc @ k' # ls') pos, r)"
      unfolding read_kids.simps [of n pos acc] skip_trivia_tree [OF st]
      using s k' ls' blank by (simp add: Let_def)
    with k' ls' show ?case by (intro exI [of _ "k' # ls'"]) simp
  qed
  let ?s = "print_sexpr (SList ks p) @ r"
  have st: "skip_trivia ?s = ?s"
    by (intro skip_trivia_tree printed_starts) (rule SList.prems)
  from kids [of ks "n - length ?s" "[]"] obtain ks' where
    "read_kids n (n - length ?s) [] (concat (map (\<lambda>k. print_sexpr k @ '' '') ks) @ CHR '')'' # r)
      = Inr (SList ks' (n - length ?s), r)" "map forget_pos ks' = map forget_pos ks" by auto
  with st show ?case
    by (subst read_sexpr.simps) (simp add: Let_def)
qed

section \<open>Numbers read back\<close>

lemma code_digit: "n < 10 \<Longrightarrow> code (chr (48 + n)) = 48 + n"
  by simp

lemma dec_digits_append:
  "dec_digits v (s @ t) = bindE (dec_digits v s) (\<lambda>w. dec_digits w t)" if "list_all is_digit s"
  using that by (induction v s rule: dec_digits.induct) (auto simp: is_digit_def)

lemma dec_digits_dec_str: "dec_digits 0 (dec_str n) = Inr (of_nat n)"
proof (induction n rule: dec_str.induct)
  case (1 n)
  have us: "chr (48 + m) \<noteq> CHR ''_''" if "m < 10" for m
    using that by (auto dest: arg_cong [where f = code])
  show ?case
  proof (cases "n < 10")
    case True
    then show ?thesis by (subst dec_str.simps) (simp add: us)
  next
    case False
    have "list_all is_digit (dec_str (n div 10))"
      using dec_str_digits by (auto simp: list_all_iff)
    note app = dec_digits_append [OF this]
    have "(of_nat (n div 10) * 10 + of_nat (n mod 10) :: u64) = of_nat (n div 10 * 10 + n mod 10)"
      by (simp only: of_nat_add of_nat_mult of_nat_numeral)
    also have "n div 10 * 10 + n mod 10 = n" by simp
    finally show ?thesis
      using False 1 by (subst dec_str.simps) (simp add: app us)
  qed
qed

lemma dec_str_no_NUL: "NUL \<notin> set (dec_str n)"
  using dec_str_digits [of NUL n] by auto

lemma dec_str_head: "\<exists>c s. dec_str n = c # s \<and> is_digit c"
  using dec_str_nonempty [of n] dec_str_digits [of _ n] by (cases "dec_str n") auto

lemma dec_str_second: "at (drop 1 (dec_str n)) \<noteq> CHR ''x'' \<and> at (drop 1 (dec_str n)) \<noteq> CHR ''X''"
proof -
  have "at (drop 1 (dec_str n)) = NUL \<or> is_digit (at (drop 1 (dec_str n)))"
    using dec_str_digits [of _ n] by (cases "dec_str n"; cases "tl (dec_str n)") auto
  then show ?thesis by (auto simp: is_digit_def)
qed

section \<open>Properties\<close>

text \<open>C10: The reader takes back what the printer writes: for every tree whose atoms are made of
  atom characters (string atoms may hold any bytes), reading the printed module succeeds, uses
  the whole source, and gives the same tree up to source offsets.\<close>

theorem read_module_print:
  assumes "printable e"
  shows "\<exists>e'. read_module (print_sexpr e) = Inr (Some e') \<and> forget_pos e' = forget_pos e"
proof -
  from read_print_sexpr [OF assms, of "[]"] obtain e' where
    "read_sexpr (length (print_sexpr e)) (print_sexpr e) = Inr (Some e', [])"
    "forget_pos e' = forget_pos e" by fastforce
  then show ?thesis by (simp add: read_module_def skip_trivia.simps [of "[]"])
qed

theorem read_module_print_witness:
  "\<exists>e'. read_module (print_sexpr (SList [Atom False ''module'' 0, SList [Atom False ''data'' 0,
            Atom True [LF, DQUOTE, CHR ''a''] 0] 0] 0)) = Inr (Some e')
     \<and> forget_pos e' = SList [Atom False ''module'' 0, SList [Atom False ''data'' 0,
            Atom True [LF, DQUOTE, CHR ''a''] 0] 0] 0"
  using read_module_print [of "SList [Atom False ''module'' 0, SList [Atom False ''data'' 0,
            Atom True [LF, DQUOTE, CHR ''a''] 0] 0] 0"]
  by (simp add: is_atom_char_def wat_space_def)

text \<open>C27: The integer parser reads a decimal numeral, with or without a minus sign, as its value
  modulo \<open>2^64\<close>; no numeral is rejected.\<close>

theorem parse_uint_decimal:
  "parse_uint (dec_str n) = Inr (of_nat n) \<and> parse_uint (CHR ''-'' # dec_str n) = Inr (- of_nat n)"
proof -
  obtain c s where c: "dec_str n = c # s" "is_digit c" using dec_str_head by blast
  then have ne: "c \<noteq> CHR ''+''" "c \<noteq> CHR ''-''" by (auto simp: is_digit_def)
  have cs: "cstr (dec_str n) = dec_str n" "cstr (CHR ''-'' # dec_str n) = CHR ''-'' # dec_str n"
    using dec_str_no_NUL by (auto intro!: cstr_id)
  show ?thesis
    using c ne dec_str_second [of n] dec_digits_dec_str [of n]
    unfolding parse_uint_def cs by (simp add: Let_def)
qed

end
