(* ===== verification/Wat_Types.thy ===== *)
theory Wat_Types
  imports Wat_Reader
begin

text \<open>
  Names, types and signatures of the assembler (\<open>src/src/wat2wasm.c\<close>, sections "declared types",
  "assembler context", "value, heap, and storage types", "function signatures", "per-function
  state" and "block types"): the context the encoder reads, how a \<open>$name\<close> or a number becomes an
  index, the bytes of a value type, and the table in which signatures are interned.
\<close>

section \<open>The assembler context\<close>

text \<open>A declared type: a name, the composite type, and what \<open>(sub ...)\<close> adds.\<close>

record DeclType =
  dname :: "string option"
  comptype :: sexpr
  has_sub :: bool
  is_final :: bool
  supers :: "sexpr list"
  field_names :: "string option list"

text \<open>
  \<open>Ctx\<close> once the module's names are known. A remap array, active under dead-code elimination,
  holds an entity's new index, or \<open>DEAD\<close>; an index past its end is an out-of-bounds read in C.
\<close>

record Ctx =
  csrc :: string
  cfe :: fp_env
  func_names :: "string option list"
  global_names :: "string option list"
  tag_names :: "string option list"
  data_names :: "string option list"
  decls :: "DeclType list"
  func_remap :: "nat list option"
  global_remap :: "nat list option"
  sig_remap :: "nat list option"

definition DEAD :: nat where "DEAD = 0xffffffff"

definition n_decl_types :: "Ctx \<Rightarrow> nat" where
  "n_decl_types c = length (decls c)"

definition remap_get :: "nat list \<Rightarrow> nat \<Rightarrow> wat_err + nat" where
  "remap_get r i = (if i < length r then Inr (r ! i) else Inl OutOfBounds)"

definition map_func :: "Ctx \<Rightarrow> nat \<Rightarrow> wat_err + nat" where
  "map_func c old = (case func_remap c of None \<Rightarrow> Inr old | Some r \<Rightarrow> remap_get r old)"

definition map_global :: "Ctx \<Rightarrow> nat \<Rightarrow> wat_err + nat" where
  "map_global c old = (case global_remap c of None \<Rightarrow> Inr old | Some r \<Rightarrow> remap_get r old)"

definition map_typeidx :: "Ctx \<Rightarrow> nat \<Rightarrow> wat_err + nat" where
  "map_typeidx c t =
     (case sig_remap c of
        None \<Rightarrow> Inr t
      | Some r \<Rightarrow>
          if t < n_decl_types c then Inr t
          else bindE (remap_get r (t - n_decl_types c))
                 (\<lambda>i. Inr ((n_decl_types c + i) mod 2 ^ 32)))"

section \<open>Names and indices\<close>

definition quoted :: "string \<Rightarrow> string" where
  "quoted s = SQUOTE # s @ [SQUOTE]"

text \<open>The search loop over a name table: the first entry with this name.\<close>

fun name_index :: "string option list \<Rightarrow> string \<Rightarrow> nat option" where
  "name_index [] a = None"
| "name_index (x # xs) a = (if x = Some a then Some 0 else map_option Suc (name_index xs a))"

lemma name_index_Some:
  "name_index xs a = Some i \<Longrightarrow> i < length xs \<and> xs ! i = Some a \<and> (\<forall>j < i. xs ! j \<noteq> Some a)"
proof (induction xs a arbitrary: i rule: name_index.induct)
  case (2 x xs a)
  then show ?case
    by (cases i) (auto split: if_splits simp: less_Suc_eq_0_disj)
qed simp

lemma name_index_None: "name_index xs a = None \<longleftrightarrow> Some a \<notin> set xs"
  by (induction xs) auto

text \<open>\<open>(uint32_t)parse_uint(...)\<close>.\<close>

definition parse_u32 :: "string \<Rightarrow> wat_err + nat" where
  "parse_u32 s = bindE (parse_uint s) (\<lambda>v. Inr (unat (ucast v :: u32)))"

text \<open>
  \<open>resolve_index\<close>: a node that must be an atom; a \<open>$name\<close> is looked up, anything else is a
  number. \<open>resolve_type\<close> and \<open>resolve_local\<close> have the same body over their own tables.
\<close>

definition resolve_index :: "string option list \<Rightarrow> sexpr option \<Rightarrow> string \<Rightarrow> wat_err + nat" where
  "resolve_index names n what =
     (case n of
        Some (Atom _ a _) \<Rightarrow>
          if at (cstr a) = CHR ''$'' then
            (case name_index names (cstr a) of
               Some i \<Rightarrow> Inr i
             | None \<Rightarrow> Inl (Fail (''unknown '' @ what @ '' '' @ quoted (cstr a))))
          else parse_u32 a
      | _ \<Rightarrow> Inl (Fail (''expected '' @ what @ '' index'')))"

definition resolve_type :: "Ctx \<Rightarrow> sexpr option \<Rightarrow> wat_err + nat" where
  "resolve_type c n =
     (case n of
        Some (Atom _ a _) \<Rightarrow>
          if at (cstr a) = CHR ''$'' then
            (case name_index (map dname (decls c)) (cstr a) of
               Some i \<Rightarrow> Inr i
             | None \<Rightarrow> Inl (Fail (''unknown type '' @ quoted (cstr a))))
          else parse_u32 a
      | _ \<Rightarrow> Inl (Fail ''expected a type''))"

section \<open>Value, heap and storage types\<close>

definition heap_names :: "(string \<times> byte) list" where
  "heap_names =
     [(''func'', 0x70), (''extern'', 0x6f), (''any'', 0x6e), (''eq'', 0x6d), (''i31'', 0x6c),
      (''struct'', 0x6b), (''array'', 0x6a), (''none'', 0x71), (''nofunc'', 0x73),
      (''noextern'', 0x72), (''exn'', 0x69), (''noexn'', 0x74)]"

definition abstract_heaptype :: "string \<Rightarrow> byte option" where
  "abstract_heaptype s = map_of heap_names s"

text \<open>An index as the signed LEB128 of an \<open>int64_t\<close>, or as the unsigned one of a \<open>uint32_t\<close>.\<close>

definition sleb_idx :: "nat \<Rightarrow> byte list" where
  "sleb_idx i = sleb (of_nat i)"

definition uleb_n :: "nat \<Rightarrow> byte list" where
  "uleb_n i = uleb (of_nat i)"

definition emit_heaptype :: "Ctx \<Rightarrow> sexpr option \<Rightarrow> wat_err + byte list" where
  "emit_heaptype c n =
     (case n of
        Some (Atom _ a _) \<Rightarrow>
          (case (if at (cstr a) \<noteq> CHR ''$'' then abstract_heaptype (cstr a) else None) of
             Some b \<Rightarrow> Inr [b]
           | None \<Rightarrow> bindE (resolve_type c n) (\<lambda>i. Inr (sleb_idx i)))
      | _ \<Rightarrow> Inl (Fail ''expected a heap type''))"

definition ref_names :: "(string \<times> byte) list" where
  "ref_names =
     [(''funcref'', 0x70), (''externref'', 0x6f), (''anyref'', 0x6e), (''eqref'', 0x6d),
      (''i31ref'', 0x6c), (''structref'', 0x6b), (''arrayref'', 0x6a), (''nullref'', 0x71),
      (''nullfuncref'', 0x73), (''nullexternref'', 0x72), (''exnref'', 0x69), (''nullexnref'', 0x74)]"

definition abstract_reftype :: "string \<Rightarrow> byte option" where
  "abstract_reftype s = map_of ref_names s"

definition emit_valtype :: "Ctx \<Rightarrow> sexpr option \<Rightarrow> wat_err + byte list" where
  "emit_valtype c n =
     (case n of
        Some (Atom _ a _) \<Rightarrow>
          (let s = cstr a in
           if s = ''i32'' then Inr [0x7f]
           else if s = ''i64'' then Inr [0x7e]
           else if s = ''f32'' then Inr [0x7d]
           else if s = ''f64'' then Inr [0x7c]
           else case abstract_reftype s of
                  Some r \<Rightarrow> Inr [r]
                | None \<Rightarrow> Inl (Fail (''unsupported value type '' @ quoted s)))
      | Some (SList ks _) \<Rightarrow>
          if head n = Some ''ref'' then
            (let ks = tl ks;
                 nullable = atom_eq (first ks) ''null'';
                 ks = (if nullable then tl ks else ks)
             in case first ks of
                  None \<Rightarrow> Inl (Fail ''(ref ...) needs a heap type'')
                | Some k \<Rightarrow> bindE (emit_heaptype c (Some k))
                             (\<lambda>bs. Inr ((if nullable then 0x63 else 0x64) # bs)))
          else Inl (Fail ''expected a value type'')
      | None \<Rightarrow> Inl (Fail ''expected a value type''))"

definition emit_storagetype :: "Ctx \<Rightarrow> sexpr option \<Rightarrow> wat_err + byte list" where
  "emit_storagetype c n =
     (case n of
        Some (Atom _ a _) \<Rightarrow>
          if cstr a = ''i8'' then Inr [0x78]
          else if cstr a = ''i16'' then Inr [0x77]
          else emit_valtype c n
      | _ \<Rightarrow> emit_valtype c n)"

section \<open>Function signatures\<close>

record FuncSig =
  sparams :: "byte list"
  n_params :: nat
  sresults :: "byte list"
  n_results :: nat

text \<open>
  \<open>sig_intern\<close>: the index of the signature in the table, appended when it is not there. The
  comparison is on counts, lengths and bytes, so on the whole record.
\<close>

fun sig_find :: "FuncSig list \<Rightarrow> FuncSig \<Rightarrow> nat option" where
  "sig_find [] s = None"
| "sig_find (t # ts) s =
     (if n_params t = n_params s \<and> n_results t = n_results s
         \<and> length (sparams t) = length (sparams s) \<and> length (sresults t) = length (sresults s)
         \<and> sparams t = sparams s \<and> sresults t = sresults s
      then Some 0 else map_option Suc (sig_find ts s))"

definition sig_intern :: "FuncSig list \<Rightarrow> FuncSig \<Rightarrow> nat \<times> FuncSig list" where
  "sig_intern t s =
     (case sig_find t s of
        Some i \<Rightarrow> (i, t)
      | None \<Rightarrow> (length t, t @ [s]))"

lemma sig_find_Some: "sig_find t s = Some i \<Longrightarrow> i < length t \<and> t ! i = s"
  by (induction t s arbitrary: i rule: sig_find.induct) (auto split: if_splits)

lemma sig_find_None: "sig_find t s = None \<longleftrightarrow> s \<notin> set t"
  by (induction t s rule: sig_find.induct) auto

lemma sig_intern_index:
  assumes "sig_intern t s = (i, t')"
  shows "i < length t'" "t' ! i = s" "\<exists>u. t' = t @ u" "distinct t \<Longrightarrow> distinct t'"
    "set t' = insert s (set t)"
proof -
  have "i < length t' \<and> t' ! i = s \<and> (\<exists>u. t' = t @ u) \<and> (distinct t \<longrightarrow> distinct t')
      \<and> set t' = insert s (set t)"
  proof (cases "sig_find t s")
    case None
    with assms sig_find_None [of t s] show ?thesis by (auto simp: sig_intern_def)
  next
    case (Some j)
    with assms sig_find_Some [OF Some] show ?thesis
      by (auto simp: sig_intern_def in_set_conv_nth)
  qed
  then show "i < length t'" "t' ! i = s" "\<exists>u. t' = t @ u" "distinct t \<Longrightarrow> distinct t'"
    "set t' = insert s (set t)" by blast+
qed

lemma sig_intern_again:
  "s \<in> set t \<Longrightarrow> \<exists>i. sig_intern t s = (i, t)"
  using sig_find_None [of t s] by (auto simp: sig_intern_def split: option.splits)

section \<open>Per-function state\<close>

record Local =
  lname :: "string option"
  ltype :: "byte list"

text \<open>\<open>labels\<close>: the control-frame stack, index 0 the outermost frame.\<close>

record FuncCtx =
  locals :: "Local list"
  fn_params :: nat
  labels :: "string option list"

definition fc_push_label :: "FuncCtx \<Rightarrow> string option \<Rightarrow> FuncCtx" where
  "fc_push_label f name = f\<lparr>labels := labels f @ [name]\<rparr>"

definition fc_pop_label :: "FuncCtx \<Rightarrow> FuncCtx" where
  "fc_pop_label f = f\<lparr>labels := butlast (labels f)\<rparr>"

definition fc_add_local :: "FuncCtx \<Rightarrow> string option \<Rightarrow> byte list \<Rightarrow> FuncCtx" where
  "fc_add_local f name type = f\<lparr>locals := locals f @ [\<lparr>lname = name, ltype = type\<rparr>]\<rparr>"

lemma pop_push_label [simp]: "fc_pop_label (fc_push_label f l) = f"
  by (simp add: fc_pop_label_def fc_push_label_def)

definition resolve_local :: "FuncCtx \<Rightarrow> sexpr option \<Rightarrow> wat_err + nat" where
  "resolve_local f n =
     (case n of
        Some (Atom _ a _) \<Rightarrow>
          if at (cstr a) = CHR ''$'' then
            (case name_index (map lname (locals f)) (cstr a) of
               Some i \<Rightarrow> Inr i
             | None \<Rightarrow> Inl (Fail (''unknown local '' @ quoted (cstr a))))
          else parse_u32 a
      | _ \<Rightarrow> Inl (Fail ''expected local index''))"

text \<open>A label is searched from the innermost frame outwards; its depth counts from there.\<close>

definition resolve_label :: "FuncCtx \<Rightarrow> sexpr option \<Rightarrow> wat_err + nat" where
  "resolve_label f n =
     (case n of
        Some (Atom _ a _) \<Rightarrow>
          if at (cstr a) = CHR ''$'' then
            (case name_index (rev (labels f)) (cstr a) of
               Some d \<Rightarrow> Inr d
             | None \<Rightarrow> Inl (Fail (''unknown label '' @ quoted (cstr a))))
          else parse_u32 a
      | _ \<Rightarrow> Inl (Fail ''expected branch label''))"

section \<open>Block types\<close>

definition MAX_BLOCKTYPE :: nat where "MAX_BLOCKTYPE = 128"

record BlockType =
  has_type :: bool
  type_index :: nat
  bparams :: "byte list"
  np :: nat
  bresults :: "byte list"
  nr :: nat

definition bt_add :: "Ctx \<Rightarrow> sexpr option \<Rightarrow> byte list \<times> nat \<Rightarrow> wat_err + byte list \<times> nat" where
  "bt_add c tn arr =
     bindE (emit_valtype c tn) (\<lambda>t.
       if length (fst arr) + length t > MAX_BLOCKTYPE then Inl (Fail ''block type too large'')
       else Inr (fst arr @ t, snd arr + 1))"

fun bt_add_all :: "Ctx \<Rightarrow> sexpr list \<Rightarrow> byte list \<times> nat \<Rightarrow> wat_err + byte list \<times> nat" where
  "bt_add_all c [] arr = Inr arr"
| "bt_add_all c (k # ks) arr = bindE (bt_add c (Some k) arr) (bt_add_all c ks)"

text \<open>\<open>grp\<close> is the list of the group's children; its first is the keyword.\<close>

definition collect_valtypes :: "Ctx \<Rightarrow> sexpr list \<Rightarrow> byte list \<times> nat \<Rightarrow> wat_err + byte list \<times> nat" where
  "collect_valtypes c grp arr =
     (let ks = tl grp in
      if is_id (first ks) then bt_add c (first (tl ks)) arr
      else bt_add_all c ks arr)"

definition empty_bt :: BlockType where
  "empty_bt = \<lparr>has_type = False, type_index = 0, bparams = [], np = 0, bresults = [], nr = 0\<rparr>"

fun parse_blocktype :: "Ctx \<Rightarrow> sexpr list \<Rightarrow> BlockType \<Rightarrow> wat_err + BlockType \<times> sexpr list" where
  "parse_blocktype c [] bt = Inr (bt, [])"
| "parse_blocktype c (k # ks) bt =
     (let h = head (Some k) in
      if h = Some ''param'' then
        bindE (collect_valtypes c (kids k) (bparams bt, np bt))
          (\<lambda>(p, n). parse_blocktype c ks (bt\<lparr>bparams := p, np := n\<rparr>))
      else if h = Some ''result'' then
        bindE (collect_valtypes c (kids k) (bresults bt, nr bt))
          (\<lambda>(r, n). parse_blocktype c ks (bt\<lparr>bresults := r, nr := n\<rparr>))
      else if h = Some ''type'' then
        bindE (resolve_type c (first (tl (kids k))))
          (\<lambda>i. parse_blocktype c ks (bt\<lparr>has_type := True, type_index := i\<rparr>))
      else Inr (bt, k # ks))"

definition bt_sig :: "BlockType \<Rightarrow> FuncSig" where
  "bt_sig bt = \<lparr>sparams = bparams bt, n_params = np bt, sresults = bresults bt, n_results = nr bt\<rparr>"

definition emit_blocktype ::
  "Ctx \<Rightarrow> FuncSig list \<Rightarrow> BlockType \<Rightarrow> wat_err + byte list \<times> FuncSig list" where
  "emit_blocktype c sigs bt =
     (if has_type bt then Inr (sleb_idx (type_index bt), sigs)
      else if np bt = 0 \<and> nr bt = 0 then Inr ([0x40], sigs)
      else if np bt = 0 \<and> nr bt = 1 then Inr (bresults bt, sigs)
      else let (idx, sigs) = sig_intern sigs (bt_sig bt)
           in bindE (map_typeidx c (n_decl_types c + idx)) (\<lambda>t. Inr (sleb_idx t, sigs)))"

text \<open>Whether a block type goes through the signature table (the test of the pre-walk).\<close>

definition bt_interned :: "BlockType \<Rightarrow> bool" where
  "bt_interned bt \<longleftrightarrow> \<not> has_type bt \<and> (np bt > 0 \<or> nr bt > 1)"

definition resolve_field :: "Ctx \<Rightarrow> nat \<Rightarrow> sexpr option \<Rightarrow> wat_err + nat" where
  "resolve_field c tidx n =
     (case n of
        Some (Atom _ a _) \<Rightarrow>
          if at (cstr a) = CHR ''$'' then
            (if tidx \<ge> n_decl_types c then Inl (Fail ''field name on a non-struct type'')
             else case name_index (field_names (decls c ! tidx)) (cstr a) of
                    Some i \<Rightarrow> Inr i
                  | None \<Rightarrow> Inl (Fail (''unknown field '' @ quoted (cstr a))))
          else parse_u32 a
      | _ \<Rightarrow> Inl (Fail ''expected a field index''))"

definition reftype_parts :: "sexpr option \<Rightarrow> wat_err + bool \<times> sexpr" where
  "reftype_parts n =
     (if head n \<noteq> Some ''ref'' then Inl (Fail ''expected a (ref ...) type'')
      else let ks = tl (kids (the n));
               nullable = atom_eq (first ks) ''null'';
               ks = (if nullable then tl ks else ks)
           in case first ks of
                None \<Rightarrow> Inl (Fail ''(ref ...) needs a heap type'')
              | Some k \<Rightarrow> Inr (nullable, k))"

section \<open>Interning a sequence of signatures\<close>

fun intern_all :: "FuncSig list \<Rightarrow> FuncSig list \<Rightarrow> nat list \<times> FuncSig list" where
  "intern_all t [] = ([], t)"
| "intern_all t (s # ss) =
     (let (i, t) = sig_intern t s; (js, t) = intern_all t ss in (i # js, t))"

lemma intern_all_index:
  "intern_all t ss = (js, t') \<Longrightarrow> distinct t \<Longrightarrow>
    distinct t' \<and> (\<exists>u. t' = t @ u) \<and> length js = length ss \<and> set t' = set t \<union> set ss
    \<and> (\<forall>k < length ss. js ! k < length t' \<and> t' ! (js ! k) = ss ! k)"
proof (induction t ss arbitrary: js t' rule: intern_all.induct)
  case (1 t)
  then show ?case by simp
next
  case (2 t s ss)
  obtain i t1 where i: "sig_intern t s = (i, t1)" by fastforce
  obtain ks where ks: "intern_all t1 ss = (ks, t')" "js = i # ks"
    using "2.prems"(1) i by (auto split: prod.splits)
  note I = sig_intern_index [OF i]
  from "2.IH" [OF i [symmetric] refl ks(1)] I(4) [OF "2.prems"(2)]
  obtain u where u: "distinct t'" "t' = t1 @ u" "length ks = length ss" "set t' = set t1 \<union> set ss"
    "\<forall>k < length ss. ks ! k < length t' \<and> t' ! (ks ! k) = ss ! k" by blast
  have "js ! k < length t' \<and> t' ! (js ! k) = (s # ss) ! k" if "k < length (s # ss)" for k
    using that u I(1,2) ks(2) by (cases k) (auto simp: nth_append)
  moreover obtain w where "t1 = t @ w" using I(3) by blast
  ultimately show ?case using u ks(2) I(5) by auto
qed

section \<open>Properties\<close>

text \<open>C28: Interning a sequence of signatures from the empty table gives a table without
  duplicates that holds exactly those signatures; every index handed out is in range and denotes
  the signature it was asked for, so two uses get the same index exactly when their signatures
  are equal.\<close>

theorem sig_intern_canonical:
  assumes "intern_all [] ss = (js, t)"
  shows "distinct t \<and> set t = set ss \<and> length js = length ss
    \<and> (\<forall>k < length ss. js ! k < length t \<and> t ! (js ! k) = ss ! k)
    \<and> (\<forall>k < length ss. \<forall>l < length ss. js ! k = js ! l \<longleftrightarrow> ss ! k = ss ! l)"
proof -
  note A = intern_all_index [OF assms distinct.simps(1) [THEN iffD2, OF TrueI]]
  then have "js ! k = js ! l \<longleftrightarrow> ss ! k = ss ! l" if "k < length ss" "l < length ss" for k l
    using that by (metis nth_eq_iff_index_eq)
  with A show ?thesis by auto
qed

theorem sig_intern_canonical_witness:
  "let s = \<lparr>sparams = [0x7f], n_params = 1, sresults = [], n_results = 0\<rparr>;
       r = \<lparr>sparams = [], n_params = 0, sresults = [0x7f], n_results = 1\<rparr>
   in intern_all [] [s, r, s] = ([0, 1, 0], [s, r]) \<and> distinct [s, r]"
  using sig_intern_canonical [of "[\<lparr>sparams = [0x7f], n_params = 1, sresults = [], n_results = 0\<rparr>,
      \<lparr>sparams = [], n_params = 0, sresults = [0x7f], n_results = 1\<rparr>,
      \<lparr>sparams = [0x7f], n_params = 1, sresults = [], n_results = 0\<rparr>]" "[0, 1, 0]"]
  by (simp add: sig_intern_def)

text \<open>C29: A label name resolves to the depth of the innermost enclosing block with that name,
  counted from the innermost frame, and is rejected when no enclosing block has it.\<close>

theorem resolve_label_innermost:
  assumes "at (cstr a) = CHR ''$''"
  shows "(\<exists>d. resolve_label f (Some (Atom str a p)) = Inr d \<and> d < length (labels f)
            \<and> labels f ! (length (labels f) - 1 - d) = Some (cstr a)
            \<and> (\<forall>j < length (labels f). length (labels f) - 1 - d < j \<longrightarrow> labels f ! j \<noteq> Some (cstr a)))
         \<or> (resolve_label f (Some (Atom str a p)) = Inl (Fail (''unknown label '' @ quoted (cstr a)))
            \<and> Some (cstr a) \<notin> set (labels f))"
proof (cases "name_index (rev (labels f)) (cstr a)")
  case None
  moreover from None have "Some (cstr a) \<notin> set (labels f)" by (simp add: name_index_None)
  ultimately show ?thesis using assms by (simp add: resolve_label_def)
next
  case (Some d)
  note N = name_index_Some [OF Some]
  have "labels f ! j \<noteq> Some (cstr a)"
    if "j < length (labels f)" "length (labels f) - 1 - d < j" for j
  proof -
    from that have "length (labels f) - Suc j < d" by auto
    with N have "rev (labels f) ! (length (labels f) - Suc j) \<noteq> Some (cstr a)" by blast
    with that show ?thesis by (simp add: rev_nth Suc_diff_Suc)
  qed
  with N Some assms show ?thesis by (auto simp: resolve_label_def rev_nth)
qed

theorem resolve_label_innermost_witness:
  "resolve_label \<lparr>locals = [], fn_params = 0, labels = [Some ''$l'', Some ''$k'', Some ''$l'', None]\<rparr>
     (Some (Atom False ''$l'' 0)) = Inr 1"
  using resolve_label_innermost [of "''$l''"
      "\<lparr>locals = [], fn_params = 0, labels = [Some ''$l'', Some ''$k'', Some ''$l'', None]\<rparr>" False 0]
  by (simp add: resolve_label_def cstr_def)

end
