(* ===== verification/Wat_Instr.thy ===== *)
theory Wat_Instr
  imports Wat_Types
begin

text \<open>
  The instruction encoder of the assembler (\<open>src/src/wat2wasm.c\<close>, sections "instruction table"
  and "instruction encoding"). An instruction that is not structured control resolves its
  immediates (\<open>enc_simple\<close>, one definition per group of the C function), encodes its folded
  operands, and then writes its opcode; the structured ones thread the signature table and push
  a label around their body.
\<close>

section \<open>Opcodes without immediates\<close>

definition OPS :: "(string \<times> byte) list" where
  "OPS =
    [(''unreachable'', 0x00), (''nop'', 0x01), (''drop'', 0x1a), (''select'', 0x1b),
     (''return'', 0x0f), (''i32.eqz'', 0x45), (''i32.eq'', 0x46), (''i32.ne'', 0x47),
     (''i32.lt_s'', 0x48), (''i32.lt_u'', 0x49), (''i32.gt_s'', 0x4a), (''i32.gt_u'', 0x4b),
     (''i32.le_s'', 0x4c), (''i32.le_u'', 0x4d), (''i32.ge_s'', 0x4e), (''i32.ge_u'', 0x4f),
     (''i32.add'', 0x6a), (''i32.sub'', 0x6b), (''i32.mul'', 0x6c), (''i32.div_s'', 0x6d),
     (''i32.div_u'', 0x6e), (''i32.rem_s'', 0x6f), (''i32.rem_u'', 0x70), (''i32.and'', 0x71),
     (''i32.or'', 0x72), (''i32.xor'', 0x73), (''i32.shl'', 0x74), (''i32.shr_s'', 0x75),
     (''i32.shr_u'', 0x76), (''i32.rotl'', 0x77), (''i32.rotr'', 0x78), (''i64.eqz'', 0x50),
     (''i64.eq'', 0x51), (''i64.ne'', 0x52), (''i64.lt_s'', 0x53), (''i64.lt_u'', 0x54),
     (''i64.gt_s'', 0x55), (''i64.gt_u'', 0x56), (''i64.le_s'', 0x57), (''i64.le_u'', 0x58),
     (''i64.ge_s'', 0x59), (''i64.ge_u'', 0x5a), (''i64.add'', 0x7c), (''i64.sub'', 0x7d),
     (''i64.mul'', 0x7e), (''i64.div_s'', 0x7f), (''i64.div_u'', 0x80), (''i64.rem_s'', 0x81),
     (''i64.rem_u'', 0x82), (''i64.and'', 0x83), (''i64.or'', 0x84), (''i64.xor'', 0x85),
     (''i64.shl'', 0x86), (''i64.shr_s'', 0x87), (''i64.shr_u'', 0x88), (''i64.rotl'', 0x89),
     (''i64.rotr'', 0x8a), (''f32.eq'', 0x5b), (''f32.ne'', 0x5c), (''f32.lt'', 0x5d),
     (''f32.gt'', 0x5e), (''f32.le'', 0x5f), (''f32.ge'', 0x60), (''f32.abs'', 0x8b),
     (''f32.neg'', 0x8c), (''f32.ceil'', 0x8d), (''f32.floor'', 0x8e), (''f32.trunc'', 0x8f),
     (''f32.nearest'', 0x90), (''f32.sqrt'', 0x91), (''f32.add'', 0x92), (''f32.sub'', 0x93),
     (''f32.mul'', 0x94), (''f32.div'', 0x95), (''f32.min'', 0x96), (''f32.max'', 0x97),
     (''f32.copysign'', 0x98), (''f64.eq'', 0x61), (''f64.ne'', 0x62), (''f64.lt'', 0x63),
     (''f64.gt'', 0x64), (''f64.le'', 0x65), (''f64.ge'', 0x66), (''f64.abs'', 0x99),
     (''f64.neg'', 0x9a), (''f64.ceil'', 0x9b), (''f64.floor'', 0x9c), (''f64.trunc'', 0x9d),
     (''f64.nearest'', 0x9e), (''f64.sqrt'', 0x9f), (''f64.add'', 0xa0), (''f64.sub'', 0xa1),
     (''f64.mul'', 0xa2), (''f64.div'', 0xa3), (''f64.min'', 0xa4), (''f64.max'', 0xa5),
     (''f64.copysign'', 0xa6), (''i32.wrap_i64'', 0xa7), (''i32.trunc_f64_s'', 0xaa),
     (''i32.trunc_f64_u'', 0xab), (''i64.extend_i32_s'', 0xac), (''i64.extend_i32_u'', 0xad),
     (''i64.trunc_f64_s'', 0xb0), (''i64.trunc_f64_u'', 0xb1), (''f64.convert_i32_s'', 0xb7),
     (''f64.convert_i32_u'', 0xb8), (''f64.convert_i64_s'', 0xb9), (''f64.convert_i64_u'', 0xba),
     (''f64.promote_f32'', 0xbb), (''f32.demote_f64'', 0xb6), (''f32.convert_i32_s'', 0xb2),
     (''f32.convert_i64_s'', 0xb4), (''i32.reinterpret_f32'', 0xbc),
     (''i64.reinterpret_f64'', 0xbd), (''f32.reinterpret_i32'', 0xbe),
     (''f64.reinterpret_i64'', 0xbf)]"

definition find_op :: "string \<Rightarrow> byte option" where
  "find_op name = map_of OPS name"

section \<open>Control that does not fall through\<close>

function flow_unreachable :: "sexpr \<Rightarrow> bool" where
  "flow_unreachable n =
     (let op = (case n of SList _ _ \<Rightarrow> head (Some n)
                        | Atom str a _ \<Rightarrow> if str then None else Some (cstr a))
      in case op of
           None \<Rightarrow> False
         | Some op \<Rightarrow>
             if op \<in> set [''unreachable'', ''br'', ''br_table'', ''return'', ''return_call'',
                          ''return_call_ref'', ''throw'', ''throw_ref'']
             then True
             else case n of
                    Atom _ _ _ \<Rightarrow> False
                  | SList ks _ \<Rightarrow>
                      if op = ''loop'' \<and> ks \<noteq> [] then flow_unreachable (last ks) else False)"
  by pat_completeness auto
termination
proof (relation "measure size", goal_cases)
  case (2 n op x ks p)
  then have "last ks \<in> set ks" by simp
  then have "size (last ks) \<le> size_list size ks" by (rule size_list_estimation') simp
  with 2 show ?case by simp
qed simp

declare flow_unreachable.simps [simp del]

section \<open>Instructions that are not structured control\<close>

text \<open>
  What the C code does for such an instruction once its operator is known: resolve the immediates
  (which may fail), encode the operands that follow them, then write the opcode and the
  immediates. The pair is the list of operands, and the bytes written after them; computing those
  may fail as well. \<open>None\<close> says that the operator belongs to another group.
\<close>

type_synonym parts = "sexpr list \<times> (wat_err + byte list)"

definition with_literal ::
  "string \<Rightarrow> sexpr list \<Rightarrow> (string \<Rightarrow> wat_err + byte list) \<Rightarrow> wat_err + parts" where
  "with_literal op args enc =
     (case first args of
        Some (Atom _ a _) \<Rightarrow> bindE (enc a) (\<lambda>bs. Inr ([], Inr bs))
      | _ \<Rightarrow> Inl (Fail (op @ '' needs a literal'')))"

definition enc_const :: "Ctx \<Rightarrow> string \<Rightarrow> sexpr list \<Rightarrow> (wat_err + parts) option" where
  "enc_const c op args =
     (if op = ''i32.const'' then
        Some (with_literal op args (\<lambda>a. bindE (parse_uint a)
          (\<lambda>v. Inr (0x41 # sleb (scast (ucast v :: u32))))))
      else if op = ''i64.const'' then
        Some (with_literal op args (\<lambda>a. bindE (parse_uint a) (\<lambda>v. Inr (0x42 # sleb v))))
      else if op = ''f32.const'' then
        Some (with_literal op args (\<lambda>a. bindE (parse_double (cfe c) a)
          (\<lambda>d. Inr (0x43 # le_bytes 4 (to_float (cfe c) d)))))
      else if op = ''f64.const'' then
        Some (with_literal op args (\<lambda>a. bindE (parse_double (cfe c) a) (\<lambda>d. Inr (0x44 # le_bytes 8 d))))
      else None)"

definition enc_var :: "Ctx \<Rightarrow> FuncCtx \<Rightarrow> string \<Rightarrow> sexpr list \<Rightarrow> (wat_err + parts) option" where
  "enc_var c f op args =
     (if op \<in> set [''local.get'', ''local.set'', ''local.tee''] then
        Some (bindE (resolve_local f (first args)) (\<lambda>idx.
          Inr (drop 1 args, Inr ((if op ! 6 = CHR ''g'' then 0x20 else if op ! 6 = CHR ''s'' then 0x21
                                  else 0x22) # uleb_n idx))))
      else if op \<in> set [''global.get'', ''global.set''] then
        Some (bindE (resolve_index (global_names c) (first args) ''global'') (\<lambda>idx.
          Inr (drop 1 args, bindE (map_global c idx)
            (\<lambda>i. Inr ((if op ! 7 = CHR ''g'' then 0x23 else 0x24) # uleb_n i)))))
      else None)"

definition enc_call :: "Ctx \<Rightarrow> string \<Rightarrow> sexpr list \<Rightarrow> (wat_err + parts) option" where
  "enc_call c op args =
     (if op \<in> set [''call'', ''return_call''] then
        Some (bindE (resolve_index (func_names c) (first args) ''function'') (\<lambda>idx.
          Inr (drop 1 args, bindE (map_func c idx)
            (\<lambda>i. Inr ((if op ! 0 = CHR ''c'' then 0x10 else 0x12) # uleb_n i)))))
      else if op \<in> set [''call_ref'', ''return_call_ref''] then
        Some (bindE (resolve_type c (first args)) (\<lambda>t.
          Inr (drop 1 args, Inr ((if op ! 0 = CHR ''c'' then 0x14 else 0x15) # uleb_n t))))
      else if op = ''throw'' then
        Some (bindE (resolve_index (tag_names c) (first args) ''tag'') (\<lambda>t.
          Inr (drop 1 args, Inr (0x08 # uleb_n t))))
      else if op = ''throw_ref'' then Some (Inr (args, Inr [0x0a]))
      else None)"

text \<open>The label operands of \<open>br_table\<close>, each resolved when its index is written.\<close>

fun label_bytes :: "FuncCtx \<Rightarrow> sexpr list \<Rightarrow> wat_err + byte list" where
  "label_bytes f [] = Inr []"
| "label_bytes f (l # ls) =
     bindE (resolve_label f (Some l)) (\<lambda>d. bindE (label_bytes f ls) (\<lambda>bs. Inr (uleb_n d @ bs)))"

definition enc_branch :: "FuncCtx \<Rightarrow> string \<Rightarrow> sexpr list \<Rightarrow> (wat_err + parts) option" where
  "enc_branch f op args =
     (if op \<in> set [''br'', ''br_if''] then
        Some (bindE (resolve_label f (first args)) (\<lambda>depth.
          Inr (drop 1 args, Inr ((if op = ''br'' then 0x0c else 0x0d) # uleb_n depth))))
      else if op = ''br_table'' then
        Some (let ls = takeWhile (\<lambda>k. is_atom (Some k)) args in
              if length ls < 1 then Inl (Fail ''br_table needs at least a default label'')
              else Inr (dropWhile (\<lambda>k. is_atom (Some k)) args,
                        bindE (label_bytes f ls) (\<lambda>bs. Inr (0x0e # uleb_n (length ls - 1) @ bs))))
      else None)"

text \<open>References; the sub-opcodes behind the prefix \<open>0xfb\<close> are LEB128 numbers.\<close>

definition enc_ref :: "Ctx \<Rightarrow> string \<Rightarrow> sexpr list \<Rightarrow> (wat_err + parts) option" where
  "enc_ref c op args =
     (if op = ''ref.null'' then
        Some (bindE (emit_heaptype c (first args)) (\<lambda>bs. Inr ([], Inr (0xd0 # bs))))
      else if op = ''ref.func'' then
        Some (bindE (resolve_index (func_names c) (first args) ''function'') (\<lambda>fi.
          Inr ([], bindE (map_func c fi) (\<lambda>i. Inr (0xd2 # uleb_n i)))))
      else if op = ''ref.is_null'' then Some (Inr (args, Inr [0xd1]))
      else if op = ''ref.as_non_null'' then Some (Inr (args, Inr [0xd4]))
      else if op = ''ref.eq'' then Some (Inr (args, Inr [0xd3]))
      else if op \<in> set [''ref.i31'', ''i31.get_s'', ''i31.get_u''] then
        Some (Inr (args, Inr (0xfb # uleb_n (if op ! 0 = CHR ''r'' then 0x1c
                                             else if op ! 8 = CHR ''s'' then 0x1d else 0x1e))))
      else if op \<in> set [''ref.test'', ''ref.cast''] then
        Some (bindE (reftype_parts (first args)) (\<lambda>(nullable, ht).
          Inr (drop 1 args, bindE (emit_heaptype c (Some ht)) (\<lambda>bs.
            Inr (0xfb # uleb_n (if op = ''ref.test'' then (if nullable then 0x15 else 0x14)
                                else (if nullable then 0x17 else 0x16)) @ bs)))))
      else None)"

definition enc_struct :: "Ctx \<Rightarrow> string \<Rightarrow> sexpr list \<Rightarrow> (wat_err + parts) option" where
  "enc_struct c op args =
     (if op \<in> set [''struct.new'', ''struct.new_default''] then
        Some (bindE (resolve_type c (first args)) (\<lambda>t.
          Inr (drop 1 args, Inr (0xfb # uleb_n (if op = ''struct.new'' then 0x00 else 0x01) @ uleb_n t))))
      else if op \<in> set [''struct.get'', ''struct.get_s'', ''struct.get_u''] then
        Some (bindE (resolve_type c (first args)) (\<lambda>t.
          bindE (resolve_field c t (first (drop 1 args))) (\<lambda>fld.
            Inr (drop 2 args, Inr (0xfb # uleb_n (if op = ''struct.get'' then 0x02
                                                  else if op = ''struct.get_s'' then 0x03 else 0x04)
                                   @ uleb_n t @ uleb_n fld)))))
      else if op = ''struct.set'' then
        Some (bindE (resolve_type c (first args)) (\<lambda>t.
          bindE (resolve_field c t (first (drop 1 args))) (\<lambda>fld.
            Inr (drop 2 args, Inr (0xfb # uleb_n 0x05 @ uleb_n t @ uleb_n fld)))))
      else None)"

definition enc_array :: "Ctx \<Rightarrow> string \<Rightarrow> sexpr list \<Rightarrow> (wat_err + parts) option" where
  "enc_array c op args =
     (if op \<in> set [''array.new'', ''array.new_default''] then
        Some (bindE (resolve_type c (first args)) (\<lambda>t.
          Inr (drop 1 args, Inr (0xfb # uleb_n (if op = ''array.new'' then 0x06 else 0x07) @ uleb_n t))))
      else if op = ''array.new_data'' then
        Some (bindE (resolve_type c (first args)) (\<lambda>t.
          bindE (resolve_index (data_names c) (first (drop 1 args)) ''data segment'') (\<lambda>d.
            Inr (drop 2 args, Inr (0xfb # uleb_n 0x09 @ uleb_n t @ uleb_n d)))))
      else if op = ''array.new_fixed'' then
        Some (bindE (resolve_type c (first args)) (\<lambda>t.
          case first (drop 1 args) of
            Some (Atom _ a _) \<Rightarrow>
              bindE (parse_uint a) (\<lambda>count.
                Inr (drop 2 args, Inr (0xfb # uleb_n 0x08 @ uleb_n t @ uleb count)))
          | _ \<Rightarrow> Inl (Fail ''array.new_fixed needs an element count'')))
      else if op \<in> set [''array.get'', ''array.get_s'', ''array.get_u''] then
        Some (bindE (resolve_type c (first args)) (\<lambda>t.
          Inr (drop 1 args, Inr (0xfb # uleb_n (if op = ''array.get'' then 0x0b
                                                else if op = ''array.get_s'' then 0x0c else 0x0d)
                                 @ uleb_n t))))
      else if op \<in> set [''array.set'', ''array.fill''] then
        Some (bindE (resolve_type c (first args)) (\<lambda>t.
          Inr (drop 1 args, Inr (0xfb # uleb_n (if op = ''array.set'' then 0x0e else 0x10) @ uleb_n t))))
      else if op = ''array.len'' then Some (Inr (args, Inr (0xfb # uleb_n 0x0f)))
      else if op = ''array.copy'' then
        Some (bindE (resolve_type c (first args)) (\<lambda>dt.
          bindE (resolve_type c (first (drop 1 args))) (\<lambda>st.
            Inr (drop 2 args, Inr (0xfb # uleb_n 0x11 @ uleb_n dt @ uleb_n st)))))
      else None)"

definition line_msg :: "Ctx \<Rightarrow> nat \<Rightarrow> string \<Rightarrow> wat_err" where
  "line_msg c pos msg = Fail (''line '' @ dec_str (line_of (csrc c) pos) @ '': '' @ msg)"

text \<open>The typed select, and the table of opcodes without immediates.\<close>

definition enc_select :: "Ctx \<Rightarrow> nat \<Rightarrow> string \<Rightarrow> sexpr list \<Rightarrow> (wat_err + parts) option" where
  "enc_select c pos op args =
     (if op = ''select'' \<and> head (first args) = Some ''result'' then
        Some (case tl (kids (the (first args))) of
                [ty] \<Rightarrow> Inr (drop 1 args, bindE (emit_valtype c (Some ty)) (\<lambda>bs. Inr (0x1c # uleb_n 1 @ bs)))
              | _ \<Rightarrow> Inl (line_msg c pos ''select (result ...) takes one value type''))
      else None)"

definition enc_op :: "Ctx \<Rightarrow> nat \<Rightarrow> string \<Rightarrow> sexpr list \<Rightarrow> wat_err + parts" where
  "enc_op c pos op args =
     (case find_op op of
        Some b \<Rightarrow> Inr (args, Inr [b])
      | None \<Rightarrow> Inl (line_msg c pos (''unsupported instruction '' @ quoted op)))"

definition orelse :: "'a option \<Rightarrow> 'a option \<Rightarrow> 'a option" where
  "orelse a b = (case a of None \<Rightarrow> b | Some x \<Rightarrow> Some x)"

text \<open>The chain of tests of \<open>encode_instr\<close>, in its order, less the structured operators.\<close>

definition enc_simple :: "Ctx \<Rightarrow> FuncCtx \<Rightarrow> nat \<Rightarrow> string \<Rightarrow> sexpr list \<Rightarrow> wat_err + parts" where
  "enc_simple c f pos op args =
     (case orelse (enc_const c op args) (orelse (enc_var c f op args) (orelse (enc_call c op args)
             (orelse (enc_branch f op args) (orelse (enc_ref c op args) (orelse (enc_struct c op args)
             (orelse (enc_array c op args) (enc_select c pos op args)))))))
      of Some r \<Rightarrow> r | None \<Rightarrow> enc_op c pos op args)"

lemma orelse_Some: "orelse a b = Some x \<longleftrightarrow> a = Some x \<or> (a = None \<and> b = Some x)"
  by (simp add: orelse_def split: option.split)

text \<open>
  \<open>tail_ops args r\<close>: where \<open>r\<close> succeeds, its operands are a tail of \<open>args\<close>. Its introduction rules
  follow the shape of a definition, so that each group is one step.
\<close>

definition tail_ops :: "sexpr list \<Rightarrow> wat_err + parts \<Rightarrow> bool" where
  "tail_ops args r \<longleftrightarrow> (\<forall>ops post. r = Inr (ops, post) \<longrightarrow> suffix ops args)"

definition tail_opt :: "sexpr list \<Rightarrow> (wat_err + parts) option \<Rightarrow> bool" where
  "tail_opt args r \<longleftrightarrow> (\<forall>x. r = Some x \<longrightarrow> tail_ops args x)"

lemma tail_ops_intros:
  "tail_ops args (Inl e)"
  "suffix ops args \<Longrightarrow> tail_ops args (Inr (ops, post))"
  "(\<And>x. tail_ops args (g x)) \<Longrightarrow> tail_ops args (bindE m g)"
  "tail_ops args r \<Longrightarrow> tail_ops args s \<Longrightarrow> tail_ops args (if b then r else s)"
  "tail_ops args r \<Longrightarrow> (\<And>x. tail_ops args (g x)) \<Longrightarrow> tail_ops args (case z of None \<Rightarrow> r | Some x \<Rightarrow> g x)"
  "(\<And>x y w. tail_ops args (ga x y w)) \<Longrightarrow> (\<And>x y. tail_ops args (gl x y)) \<Longrightarrow>
     tail_ops args (case ex of Atom x y w \<Rightarrow> ga x y w | SList x y \<Rightarrow> gl x y)"
  "(\<And>x y. tail_ops args (h x y)) \<Longrightarrow> tail_ops args (case p of (x, y) \<Rightarrow> h x y)"
  "tail_ops args r \<Longrightarrow> (\<And>x y. tail_ops args (k x y)) \<Longrightarrow>
     tail_ops args (case l of [] \<Rightarrow> r | x # y \<Rightarrow> k x y)"
  by (auto simp: tail_ops_def split: option.split sexpr.split prod.split list.split)

lemma tail_opt_intros:
  "tail_opt args None"
  "tail_ops args r \<Longrightarrow> tail_opt args (Some r)"
  "tail_opt args x \<Longrightarrow> tail_opt args y \<Longrightarrow> tail_opt args (if b then x else y)"
  by (auto simp: tail_opt_def)

lemma suffix_intros: "suffix (drop n xs) xs" "suffix (dropWhile P xs) xs" "suffix [] xs" "suffix xs xs"
  by (simp_all add: suffix_drop suffix_dropWhile)

lemmas tail_intros = tail_ops_intros tail_opt_intros suffix_intros

lemma with_literal_ops: "tail_ops args (with_literal op args enc)"
  unfolding with_literal_def by (intro tail_intros)

lemma enc_const_ops: "tail_opt args (enc_const c op args)"
  unfolding enc_const_def by (intro tail_intros with_literal_ops)

lemma enc_var_ops: "tail_opt args (enc_var c f op args)"
  unfolding enc_var_def by (intro tail_intros)

lemma enc_call_ops: "tail_opt args (enc_call c op args)"
  unfolding enc_call_def by (intro tail_intros)

lemma enc_branch_ops: "tail_opt args (enc_branch f op args)"
  unfolding enc_branch_def Let_def by (intro tail_intros)

lemma enc_ref_ops: "tail_opt args (enc_ref c op args)"
  unfolding enc_ref_def by (intro tail_intros)

lemma enc_struct_ops: "tail_opt args (enc_struct c op args)"
  unfolding enc_struct_def by (intro tail_intros)

lemma enc_array_ops: "tail_opt args (enc_array c op args)"
  unfolding enc_array_def by (intro tail_intros)

lemma enc_select_ops: "tail_opt args (enc_select c pos op args)"
  unfolding enc_select_def by (intro tail_intros)

lemma enc_op_ops: "tail_ops args (enc_op c pos op args)"
  unfolding enc_op_def by (intro tail_intros)

lemma tail_orelse: "tail_opt args a \<Longrightarrow> tail_opt args b \<Longrightarrow> tail_opt args (orelse a b)"
  by (auto simp: tail_opt_def orelse_Some)

lemma enc_simple_ops: "tail_ops args (enc_simple c f pos op args)"
proof -
  have "tail_opt args (orelse (enc_const c op args) (orelse (enc_var c f op args)
      (orelse (enc_call c op args) (orelse (enc_branch f op args) (orelse (enc_ref c op args)
      (orelse (enc_struct c op args) (orelse (enc_array c op args) (enc_select c pos op args))))))))"
    by (intro tail_orelse enc_const_ops enc_var_ops enc_call_ops enc_branch_ops enc_ref_ops
        enc_struct_ops enc_array_ops enc_select_ops)
  then show ?thesis
    unfolding enc_simple_def using enc_op_ops [of args c pos op] by (auto simp: tail_opt_def split: option.split)
qed

section \<open>Plain instructions\<close>

text \<open>
  How many immediates a plain (flat) instruction takes from its siblings, \<open>None\<close> for the
  operators that may not be written plain.
\<close>

definition plain_imm_count :: "string \<Rightarrow> nat option" where
  "plain_imm_count op =
     (if op \<in> set [''block'', ''loop'', ''if'', ''else'', ''end'', ''try_table'', ''ref.test'',
                   ''ref.cast'', ''br_table''] then None
      else if op \<in> set [''struct.get'', ''struct.get_s'', ''struct.get_u'', ''struct.set'',
                        ''array.copy'', ''array.new_fixed'', ''array.new_data''] then Some 2
      else if op \<in> set [''local.get'', ''local.set'', ''local.tee'', ''global.get'', ''global.set'',
                        ''call'', ''return_call'', ''call_ref'', ''return_call_ref'', ''br'', ''br_if'',
                        ''throw'', ''ref.func'', ''ref.null'', ''i32.const'', ''i64.const'',
                        ''f32.const'', ''f64.const'', ''struct.new'', ''struct.new_default'',
                        ''array.new'', ''array.new_default'', ''array.get'', ''array.get_s'',
                        ''array.get_u'', ''array.set'', ''array.fill''] then Some 1
      else Some 0)"

text \<open>The copies of the next \<open>n\<close> siblings, all of which must be atoms, and what follows them.\<close>

fun take_atoms :: "wat_err \<Rightarrow> nat \<Rightarrow> sexpr list \<Rightarrow> wat_err + sexpr list \<times> sexpr list" where
  "take_atoms e 0 ks = Inr ([], ks)"
| "take_atoms e (Suc n) (Atom str a p # ks) =
     bindE (take_atoms e n ks) (\<lambda>(ims, r). Inr (Atom str a p # ims, r))"
| "take_atoms e (Suc n) ks = Inl e"

text \<open>
  \<open>encode_plain\<close> up to its call of \<open>encode_instr\<close>: the folded node it builds (its operator is a
  fresh atom, never a string, at offset 0), and the siblings that are left.
\<close>

definition synth_plain :: "Ctx \<Rightarrow> string \<Rightarrow> nat \<Rightarrow> sexpr list \<Rightarrow> wat_err + sexpr \<times> sexpr list" where
  "synth_plain c a pos ks =
     (case plain_imm_count (cstr a) of
        None \<Rightarrow> Inl (line_msg c pos (''plain (unfolded) '' @ quoted (cstr a) @ '' is not supported''))
      | Some cnt \<Rightarrow>
          bindE (take_atoms (line_msg c pos (''plain '' @ quoted (cstr a) @ '' is missing an immediate'')) cnt ks)
            (\<lambda>(ims, r). Inr (SList (Atom False a 0 # ims) pos, r)))"

section \<open>Instructions\<close>

definition block_ops :: "string list" where
  "block_ops = [''block'', ''loop'', ''if'', ''try_table'']"

definition is_block_op :: "string option \<Rightarrow> bool" where
  "is_block_op h \<longleftrightarrow> (case h of None \<Rightarrow> False | Some op \<Rightarrow> op \<in> set block_ops)"

text \<open>The optional label of a structured instruction, and the children behind it.\<close>

definition take_label :: "sexpr list \<Rightarrow> string option \<times> sexpr list" where
  "take_label args =
     (if is_id (first args) then (Some (cstr (atom (hd args))), tl args) else (None, args))"

text \<open>The last \<open>(then ...)\<close> among the children of an \<open>if\<close>, with what precedes and follows it.\<close>

fun split_last :: "string \<Rightarrow> sexpr list \<Rightarrow> (sexpr list \<times> sexpr \<times> sexpr list) option" where
  "split_last h [] = None"
| "split_last h (k # ks) =
     (case split_last h ks of
        Some (pre, x, post) \<Rightarrow> Some (k # pre, x, post)
      | None \<Rightarrow> if head (Some k) = Some h then Some ([], k, ks) else None)"

definition is_catch :: "sexpr \<Rightarrow> bool" where
  "is_catch k \<longleftrightarrow> (case head (Some k) of
     None \<Rightarrow> False | Some h \<Rightarrow> h \<in> set [''catch'', ''catch_ref'', ''catch_all'', ''catch_all_ref''])"

text \<open>One handler of a \<open>try_table\<close>; its label is resolved outside the \<open>try_table\<close>'s own frame.\<close>

definition catch_bytes :: "Ctx \<Rightarrow> FuncCtx \<Rightarrow> sexpr \<Rightarrow> wat_err + byte list" where
  "catch_bytes c f p =
     (let h = head (Some p); a = tl (kids p) in
      if h = Some ''catch'' \<or> h = Some ''catch_ref'' then
        bindE (resolve_index (tag_names c) (first a) ''tag'') (\<lambda>tag.
          bindE (resolve_label f (first (drop 1 a))) (\<lambda>d.
            Inr ((if h = Some ''catch'' then 0x00 else 0x01) # uleb_n tag @ uleb_n d)))
      else bindE (resolve_label f (first a)) (\<lambda>d.
             Inr ((if h = Some ''catch_all'' then 0x02 else 0x03) # uleb_n d)))"

fun catches_bytes :: "Ctx \<Rightarrow> FuncCtx \<Rightarrow> sexpr list \<Rightarrow> wat_err + byte list" where
  "catches_bytes c f [] = Inr []"
| "catches_bytes c f (p # ps) =
     bindE (catch_bytes c f p) (\<lambda>x. bindE (catches_bytes c f ps) (\<lambda>y. Inr (x @ y)))"

text \<open>What \<open>encode_block_body\<close> adds behind a sequence that ended with the node \<open>last\<close>.\<close>

definition body_tail :: "sexpr option \<Rightarrow> byte list" where
  "body_tail lst = (case lst of None \<Rightarrow> [] | Some n \<Rightarrow> if flow_unreachable n then [0x00] else [])"

subsection \<open>A measure on the tree\<close>

text \<open>
  In a sequence an atom weighs more than the node \<open>encode_plain\<close> makes of it, and only the
  instructions whose children are sequences pay for that.
\<close>

definition nests :: "string option \<Rightarrow> bool" where
  "nests h \<longleftrightarrow> is_block_op h \<or> h = Some ''then'' \<or> h = Some ''else''"

fun weight :: "sexpr \<Rightarrow> nat" where
  "weight (Atom _ _ _) = 0"
| "weight (SList [] p) = 1"
| "weight (SList (k # ks) p) =
     1 + (if nests (head (Some (SList (k # ks) p)))
          then sum_list (map (\<lambda>k. if is_atom (Some k) then 4 else weight k) ks)
          else sum_list (map weight ks))"

definition seq_weight :: "sexpr list \<Rightarrow> nat" where
  "seq_weight ks = sum_list (map (\<lambda>k. if is_atom (Some k) then 4 else weight k) ks)"

definition ops_weight :: "sexpr list \<Rightarrow> nat" where
  "ops_weight ks = sum_list (map weight ks)"

lemma weight_nests:
  "nests (head (Some (SList ks p))) \<Longrightarrow> seq_weight (tl ks) < weight (SList ks p)"
  by (cases ks) (auto simp: seq_weight_def nests_def is_block_op_def)

lemma ops_le_seq: "ops_weight ls \<le> seq_weight ls"
  unfolding ops_weight_def seq_weight_def
  by (rule sum_list_mono) (auto split: sexpr.splits elim: is_atom.elims)

lemma weight_ops: "ops_weight (tl ks) < weight (SList ks p)"
  using ops_le_seq [of "tl ks"] by (cases ks) (auto simp: ops_weight_def seq_weight_def)

lemma sum_list_suffix: "suffix xs ys \<Longrightarrow> sum_list (map g xs) \<le> (sum_list (map g ys) :: nat)"
  by (auto simp: suffix_def)

lemma seq_weight_suffix: "suffix xs ys \<Longrightarrow> seq_weight xs \<le> seq_weight ys"
  unfolding seq_weight_def by (rule sum_list_suffix)

lemma ops_weight_suffix: "suffix xs ys \<Longrightarrow> ops_weight xs \<le> ops_weight ys"
  unfolding ops_weight_def by (rule sum_list_suffix)

lemma seq_weight_append [simp]: "seq_weight (xs @ ys) = seq_weight xs + seq_weight ys"
  by (simp add: seq_weight_def)

lemma seq_weight_Cons: "seq_weight (k # ks) = (if is_atom (Some k) then 4 else weight k) + seq_weight ks"
  by (simp add: seq_weight_def)

lemma take_label_suffix: "suffix (snd (take_label args)) args"
  by (auto simp: take_label_def intro: suffix_tl)

lemma parse_blocktype_suffix: "parse_blocktype c ks bt = Inr (bt', r) \<Longrightarrow> suffix r ks"
  by (induction c ks bt rule: parse_blocktype.induct)
    (auto simp: Let_def split: if_splits prod.splits intro: suffix_ConsI)

lemma blocktype_weight:
  assumes "parse_blocktype c (snd (take_label args)) bt = Inr (bt', r)"
  shows "seq_weight r \<le> seq_weight args"
  using assms by (meson parse_blocktype_suffix take_label_suffix seq_weight_suffix le_trans)

lemma split_last_parts:
  "split_last h ks = Some (pre, x, post) \<Longrightarrow> ks = pre @ x # post \<and> head (Some x) = Some h"
  by (induction ks arbitrary: pre) (auto split: option.splits if_splits)

lemma head_is_list: "head (Some x) = Some h \<Longrightarrow> x = SList (kids x) (src_pos x)"
  by (cases x) auto

lemma split_last_weight:
  assumes "split_last h ks = Some (pre, x, post)" and "h = ''then'' \<or> h = ''else''"
  shows "seq_weight pre \<le> seq_weight ks" and "seq_weight (tl (kids x)) < seq_weight ks"
proof -
  from split_last_parts [OF assms(1)] have ks: "ks = pre @ x # post" and x: "head (Some x) = Some h" by auto
  then show "seq_weight pre \<le> seq_weight ks" by simp
  have "seq_weight (tl (kids x)) < weight x"
    using weight_nests [of "kids x" "src_pos x"] assms(2) x head_is_list [OF x]
    by (auto simp: nests_def)
  moreover have "weight x \<le> seq_weight ks"
    using ks x head_is_list [OF x] by (cases x) (simp_all add: seq_weight_Cons)
  ultimately show "seq_weight (tl (kids x)) < seq_weight ks" by simp
qed

lemma take_atoms_weight:
  "take_atoms e n ks = Inr (ims, r) \<Longrightarrow>
     ops_weight ims = 0 \<and> length ims = n \<and> seq_weight ks = 4 * n + seq_weight r \<and> suffix r ks
     \<and> list_all (\<lambda>k. is_atom (Some k)) ims \<and> ks = ims @ r"
  by (induction e n ks arbitrary: ims rule: take_atoms.induct)
    (auto simp: seq_weight_Cons ops_weight_def intro: suffix_ConsI)

lemma plain_imm_count_blocks: "plain_imm_count op = Some n \<Longrightarrow> \<not> is_block_op (Some op)"
  by (auto simp: plain_imm_count_def is_block_op_def block_ops_def)

lemma atoms_weight: "list_all (\<lambda>k. is_atom (Some k)) ims \<Longrightarrow> seq_weight ims = 4 * length ims"
  by (induction ims) (auto simp: seq_weight_def)

lemma synth_plain_weight:
  assumes "synth_plain c a pos ks = Inr (sy, r)"
  shows "weight sy < 4 + seq_weight ks" and "suffix r ks"
    and "\<exists>ims. sy = SList (Atom False a 0 # ims) pos \<and> ks = ims @ r \<and> list_all (\<lambda>k. is_atom (Some k)) ims"
    and "\<not> is_block_op (head (Some sy))"
proof -
  from assms obtain cnt e ims where
    n: "plain_imm_count (cstr a) = Some cnt" "take_atoms e cnt ks = Inr (ims, r)"
      "sy = SList (Atom False a 0 # ims) pos"
    by (auto simp: synth_plain_def split: option.splits prod.splits)
  from take_atoms_weight [OF n(2)] have T: "ops_weight ims = 0" "length ims = cnt"
    "seq_weight ks = 4 * cnt + seq_weight r" "suffix r ks" "list_all (\<lambda>k. is_atom (Some k)) ims"
    "ks = ims @ r" by blast+
  show "suffix r ks" by (rule T(4))
  show "\<exists>ims. sy = SList (Atom False a 0 # ims) pos \<and> ks = ims @ r
      \<and> list_all (\<lambda>k. is_atom (Some k)) ims"
    using n(3) T(5,6) by blast
  show "\<not> is_block_op (head (Some sy))" using plain_imm_count_blocks [OF n(1)] n(3) by simp
  have "weight sy \<le> 1 + seq_weight ims"
    using n(3) T(1) ops_le_seq [of ims] by (simp add: ops_weight_def seq_weight_def)
  then show "weight sy < 4 + seq_weight ks"
    using atoms_weight [OF T(5)] T(2,3) by simp
qed

subsection \<open>The encoder\<close>

function (sequential)
  encode_instr :: "Ctx \<Rightarrow> FuncCtx \<Rightarrow> FuncSig list \<Rightarrow> sexpr \<Rightarrow> wat_err + byte list \<times> FuncSig list" and
  encode_operands :: "Ctx \<Rightarrow> FuncCtx \<Rightarrow> FuncSig list \<Rightarrow> sexpr list \<Rightarrow> wat_err + byte list \<times> FuncSig list" and
  encode_seq :: "Ctx \<Rightarrow> FuncCtx \<Rightarrow> FuncSig list \<Rightarrow> sexpr option \<Rightarrow> sexpr list
                   \<Rightarrow> wat_err + byte list \<times> sexpr option \<times> FuncSig list" and
  encode_block_body :: "Ctx \<Rightarrow> FuncCtx \<Rightarrow> FuncSig list \<Rightarrow> sexpr list \<Rightarrow> wat_err + byte list \<times> FuncSig list"
where
  "encode_instr c f sigs (Atom str a p) =
     Inl (line_msg c p (''expected an instruction, got atom '' @ quoted (cstr a)))"
| "encode_instr c f sigs (SList ks pos) =
     (case head (Some (SList ks pos)) of
        None \<Rightarrow> Inl (line_msg c pos ''expected an instruction'')
      | Some op \<Rightarrow>
          if op = ''block'' \<or> op = ''loop'' then
            bindE (parse_blocktype c (snd (take_label (tl ks))) empty_bt) (\<lambda>(bt, k).
            bindE (emit_blocktype c sigs bt) (\<lambda>(tb, sigs).
            bindE (encode_block_body c (fc_push_label f (fst (take_label (tl ks)))) sigs k) (\<lambda>(body, sigs).
              Inr ((if op ! 0 = CHR ''b'' then 0x02 else 0x03) # tb @ body @ [0x0b], sigs))))
          else if op = ''if'' then
            bindE (parse_blocktype c (snd (take_label (tl ks))) empty_bt) (\<lambda>(bt, k).
            case split_last ''then'' k of
              None \<Rightarrow> Inl (Fail ''if without a (then ...) branch'')
            | Some (cond, thenN, _) \<Rightarrow>
                bindE (encode_seq c f sigs None cond) (\<lambda>(cb, _, sigs).
                bindE (emit_blocktype c sigs bt) (\<lambda>(tb, sigs).
                bindE (encode_block_body c (fc_push_label f (fst (take_label (tl ks)))) sigs (tl (kids thenN)))
                  (\<lambda>(t, sigs).
                case split_last ''else'' k of
                  None \<Rightarrow> Inr (cb @ 0x04 # tb @ t @ [0x0b], sigs)
                | Some (_, elseN, _) \<Rightarrow>
                    bindE (encode_block_body c (fc_push_label f (fst (take_label (tl ks)))) sigs (tl (kids elseN)))
                      (\<lambda>(e, sigs). Inr (cb @ 0x04 # tb @ t @ 0x05 # e @ [0x0b], sigs))))))
          else if op = ''try_table'' then
            bindE (parse_blocktype c (snd (take_label (tl ks))) empty_bt) (\<lambda>(bt, k).
            bindE (emit_blocktype c sigs bt) (\<lambda>(tb, sigs).
            bindE (catches_bytes c f (takeWhile is_catch k)) (\<lambda>cs.
            bindE (encode_block_body c (fc_push_label f (fst (take_label (tl ks)))) sigs (dropWhile is_catch k))
              (\<lambda>(body, sigs).
              Inr (0x1f # tb @ uleb_n (length (takeWhile is_catch k)) @ cs @ body @ [0x0b], sigs)))))
          else
            bindE (enc_simple c f pos op (tl ks)) (\<lambda>(ops, post).
            bindE (encode_operands c f sigs ops) (\<lambda>(obs, sigs).
            bindE post (\<lambda>pbs. Inr (obs @ pbs, sigs)))))"
| "encode_operands c f sigs [] = Inr ([], sigs)"
| "encode_operands c f sigs (k # ks) =
     bindE (encode_instr c f sigs k) (\<lambda>(b1, sigs).
     bindE (encode_operands c f sigs ks) (\<lambda>(b2, sigs). Inr (b1 @ b2, sigs)))"
| "encode_seq c f sigs lst [] = Inr ([], lst, sigs)"
| "encode_seq c f sigs lst (SList ls pos # ks) =
     bindE (encode_instr c f sigs (SList ls pos)) (\<lambda>(b1, sigs).
     bindE (encode_seq c f sigs (Some (SList ls pos)) ks) (\<lambda>(b2, l, sigs). Inr (b1 @ b2, l, sigs)))"
| "encode_seq c f sigs lst (Atom str a pos # ks) =
     bindE (synth_plain c a pos ks) (\<lambda>(sy, r).
     bindE (encode_instr c f sigs sy) (\<lambda>(b1, sigs).
     bindE (encode_seq c f sigs (Some (Atom str a pos)) r) (\<lambda>(b2, l, sigs). Inr (b1 @ b2, l, sigs))))"
| "encode_block_body c f sigs ks =
     bindE (encode_seq c f sigs None ks) (\<lambda>(bs, lst, sigs). Inr (bs @ body_tail lst, sigs))"
  by pat_completeness auto

definition enc_rank :: "(Ctx \<times> FuncCtx \<times> FuncSig list \<times> sexpr
    + Ctx \<times> FuncCtx \<times> FuncSig list \<times> sexpr list)
    + (Ctx \<times> FuncCtx \<times> FuncSig list \<times> sexpr option \<times> sexpr list
    + Ctx \<times> FuncCtx \<times> FuncSig list \<times> sexpr list) \<Rightarrow> nat \<times> nat" where
  "enc_rank x =
     (case x of
        Inl (Inl (c, f, s, n)) \<Rightarrow> (weight n, 0)
      | Inl (Inr (c, f, s, ks)) \<Rightarrow> (ops_weight ks, 1 + length ks)
      | Inr (Inl (c, f, s, l, ks)) \<Rightarrow> (seq_weight ks, 1 + length ks)
      | Inr (Inr (c, f, s, ks)) \<Rightarrow> (seq_weight ks, 2 + length ks))"

lemma block_weight:
  assumes "head (Some (SList ks pos)) = Some op"
    and "parse_blocktype c (snd (take_label (tl ks))) bt = Inr (bt', k)"
    and "is_block_op (Some op)"
  shows "seq_weight k < weight (SList ks pos)"
  using blocktype_weight [OF assms(2)] weight_nests [of ks pos] assms(1,3)
  by (auto simp: nests_def)

lemma if_weight:
  assumes "head (Some (SList ks pos)) = Some ''if''"
    and "parse_blocktype c (snd (take_label (tl ks))) bt = Inr (bt', k)"
    and "split_last h k = Some (pre, x, post)" and "h = ''then'' \<or> h = ''else''"
  shows "seq_weight pre < weight (SList ks pos)" and "seq_weight (tl (kids x)) < weight (SList ks pos)"
  using block_weight [OF assms(1,2)] split_last_weight [OF assms(3,4)]
  by (auto simp: is_block_op_def block_ops_def)

lemma simple_weight:
  "enc_simple c f pos op (tl ks) = Inr (ops, post) \<Longrightarrow> ops_weight ops < weight (SList ks pos)"
  using enc_simple_ops [of "tl ks" c f pos op] ops_weight_suffix [of ops "tl ks"] weight_ops [of ks pos]
  unfolding tail_ops_def by fastforce

lemma ops_weight_Cons: "ops_weight (k # ks) = weight k + ops_weight ks"
  by (simp add: ops_weight_def)

lemma try_weight:
  assumes "head (Some (SList ks pos)) = Some ''try_table''"
    and "parse_blocktype c (snd (take_label (tl ks))) bt = Inr (bt', k)"
  shows "seq_weight (dropWhile is_catch k) < weight (SList ks pos)"
  using block_weight [OF assms] seq_weight_suffix [OF suffix_dropWhile, of is_catch k]
  by (auto simp: is_block_op_def block_ops_def)

termination encode_instr
proof (relation "inv_image (less_than <*lex*> less_than) enc_rank", goal_cases)
  case 1
  then show ?case by auto
qed (auto simp: enc_rank_def ops_weight_Cons seq_weight_Cons is_block_op_def block_ops_def
    intro: block_weight if_weight simple_weight try_weight
    dest: synth_plain_weight(1) seq_weight_suffix [OF synth_plain_weight(2)])

declare encode_instr.simps [simp del] encode_operands.simps [simp del] encode_seq.simps [simp del]
  encode_block_body.simps [simp del]

section \<open>The signature table during encoding\<close>

text \<open>
  The signatures the block types of a tree put into the table, wherever they are nested: the
  specification of the pre-walk and of \<open>sig_mark_blocks\<close>.
\<close>

definition bt_sigs :: "Ctx \<Rightarrow> sexpr list \<Rightarrow> FuncSig set" where
  "bt_sigs c args =
     (case parse_blocktype c (snd (take_label args)) empty_bt of
        Inl _ \<Rightarrow> {}
      | Inr (bt, _) \<Rightarrow> if bt_interned bt then {bt_sig bt} else {})"

fun block_sigs :: "Ctx \<Rightarrow> sexpr \<Rightarrow> FuncSig set" where
  "block_sigs c (Atom _ _ _) = {}"
| "block_sigs c (SList [] p) = {}"
| "block_sigs c (SList (k # ks) p) =
     (if is_block_op (head (Some (SList (k # ks) p))) then bt_sigs c ks else {})
     \<union> \<Union> (set (map (block_sigs c) ks))"

definition all_block_sigs :: "Ctx \<Rightarrow> sexpr list \<Rightarrow> FuncSig set" where
  "all_block_sigs c ks = \<Union> (block_sigs c ` set ks)"

lemma all_block_sigs_simps [simp]:
  "all_block_sigs c [] = {}"
  "all_block_sigs c (k # ks) = block_sigs c k \<union> all_block_sigs c ks"
  "all_block_sigs c (ks @ ls) = all_block_sigs c ks \<union> all_block_sigs c ls"
  by (auto simp: all_block_sigs_def)

lemma all_block_sigs_suffix: "suffix xs ys \<Longrightarrow> all_block_sigs c xs \<subseteq> all_block_sigs c ys"
  by (auto simp: suffix_def)

lemma block_sigs_list:
  "block_sigs c (SList ks p)
     = (if is_block_op (head (Some (SList ks p))) then bt_sigs c (tl ks) else {})
       \<union> all_block_sigs c (tl ks)"
  by (cases ks) (auto simp: all_block_sigs_def is_block_op_def)

lemma all_block_sigs_kids: "all_block_sigs c (tl (kids x)) \<subseteq> block_sigs c x" if "is_list x"
  using that by (cases x) (auto simp: block_sigs_list)

lemma block_sigs_atoms: "list_all (\<lambda>k. is_atom (Some k)) ims \<Longrightarrow> all_block_sigs c ims = {}"
proof (induction ims)
  case (Cons k ims)
  then show ?case by (cases k) auto
qed simp

lemma synth_plain_sigs:
  assumes "synth_plain c a pos ks = Inr (sy, r)"
  shows "block_sigs d sy = {}" and "all_block_sigs d r \<subseteq> all_block_sigs d ks"
proof -
  from synth_plain_weight(3) [OF assms] obtain ims where
    i: "sy = SList (Atom False a 0 # ims) pos" "list_all (\<lambda>k. is_atom (Some k)) ims" by blast
  with synth_plain_weight(4) [OF assms] block_sigs_atoms [OF i(2)] show "block_sigs d sy = {}"
    by (simp add: block_sigs_list)
  show "all_block_sigs d r \<subseteq> all_block_sigs d ks"
    by (rule all_block_sigs_suffix) (rule synth_plain_weight(2) [OF assms])
qed

lemma split_last_sigs:
  assumes "split_last h ks = Some (pre, x, post)"
  shows "all_block_sigs c pre \<subseteq> all_block_sigs c ks" and "all_block_sigs c (tl (kids x)) \<subseteq> all_block_sigs c ks"
proof -
  from split_last_parts [OF assms] have ks: "ks = pre @ x # post" and x: "head (Some x) = Some h" by auto
  then show "all_block_sigs c pre \<subseteq> all_block_sigs c ks" by simp
  from head_is_list [OF x] have "is_list x" by (cases x) auto
  with all_block_sigs_kids ks show "all_block_sigs c (tl (kids x)) \<subseteq> all_block_sigs c ks" by auto
qed

lemma blocktype_sigs:
  assumes "parse_blocktype c (snd (take_label (tl ks))) empty_bt = Inr (bt, k)"
    and "is_block_op (head (Some (SList ks pos)))"
  shows "all_block_sigs c k \<subseteq> block_sigs c (SList ks pos)"
    and "bt_interned bt \<Longrightarrow> bt_sig bt \<in> block_sigs c (SList ks pos)"
proof -
  have "suffix k (tl ks)"
    using parse_blocktype_suffix [OF assms(1)] take_label_suffix [of "tl ks"]
    by (meson suffix_order.trans)
  from all_block_sigs_suffix [OF this] show "all_block_sigs c k \<subseteq> block_sigs c (SList ks pos)"
    by (auto simp: block_sigs_list)
  show "bt_interned bt \<Longrightarrow> bt_sig bt \<in> block_sigs c (SList ks pos)"
    using assms by (auto simp: block_sigs_list bt_sigs_def)
qed

lemma emit_blocktype_sigs:
  assumes "emit_blocktype c sigs bt = Inr (bs, sigs')" and "bt_interned bt \<Longrightarrow> bt_sig bt \<in> set sigs"
  shows "sigs' = sigs"
proof (cases "bt_interned bt")
  case True
  with assms(2) sig_intern_again [of "bt_sig bt" sigs] assms(1) show ?thesis
    by (auto simp: emit_blocktype_def bt_interned_def split: if_splits)
next
  case False
  with assms(1) show ?thesis by (auto simp: emit_blocktype_def bt_interned_def split: if_splits prod.splits)
qed

text \<open>A table that holds every block signature of the code is not changed by encoding it.\<close>

lemma is_block_op_cases [simp]:
  "is_block_op (Some ''block'')" "is_block_op (Some ''loop'')" "is_block_op (Some ''if'')"
  "is_block_op (Some ''try_table'')"
  by (simp_all add: is_block_op_def block_ops_def)

lemma simple_sigs:
  "enc_simple c f pos op (tl ks) = Inr (ops, post) \<Longrightarrow> all_block_sigs d ops \<subseteq> block_sigs d (SList ks pos)"
  using enc_simple_ops [of "tl ks" c f pos op] all_block_sigs_suffix [of ops "tl ks" d]
  unfolding tail_ops_def by (auto simp: block_sigs_list)

lemma encode_sigs_stable:
  "encode_instr c f sigs n = Inr (bs, s1) \<Longrightarrow> block_sigs c n \<subseteq> set sigs \<Longrightarrow> s1 = sigs"
  "encode_operands c f sigs ks = Inr (bs, s1) \<Longrightarrow> all_block_sigs c ks \<subseteq> set sigs \<Longrightarrow> s1 = sigs"
  "encode_seq c f sigs l ks = Inr (bs, l', s1) \<Longrightarrow> all_block_sigs c ks \<subseteq> set sigs \<Longrightarrow> s1 = sigs"
  "encode_block_body c f sigs ks = Inr (bs, s1) \<Longrightarrow> all_block_sigs c ks \<subseteq> set sigs \<Longrightarrow> s1 = sigs"
proof (induction c f sigs n and c f sigs ks and c f sigs l ks and c f sigs ks arbitrary: bs s1 and bs s1 and bs s1 l' and bs s1
    rule: encode_instr_encode_operands_encode_seq_encode_block_body.induct)
  case (1 c f sigs str a p)
  then show ?case by (simp add: encode_instr.simps)
next
  case (2 c f sigs ks pos)
  obtain op where op: "head (Some (SList ks pos)) = Some op"
    using "2.prems"(1) by (cases "head (Some (SList ks pos))") (simp_all add: encode_instr.simps)
  note B = blocktype_sigs [of c ks _ _ pos]
  consider (blk) "op = ''block'' \<or> op = ''loop''" | (iff) "op = ''if''" | (tr) "op = ''try_table''"
    | (simple) "op \<noteq> ''block''" "op \<noteq> ''loop''" "op \<noteq> ''if''" "op \<noteq> ''try_table''" by blast
  then show ?case
  proof cases
    case blk
    with op "2.prems"(1) obtain bt k tb s2 body where
      k: "parse_blocktype c (snd (take_label (tl ks))) empty_bt = Inr (bt, k)"
      "emit_blocktype c sigs bt = Inr (tb, s2)"
      "encode_block_body c (fc_push_label f (fst (take_label (tl ks)))) s2 k = Inr (body, s1)"
      by (auto simp: encode_instr.simps split: prod.splits)
    have blk': "is_block_op (head (Some (SList ks pos)))" using blk op by auto
    have "s2 = sigs" using emit_blocktype_sigs [OF k(2)] B(2) [OF k(1) blk'] "2.prems"(2) by blast
    with "2.IH"(1) [OF op blk k(1) refl k(2) refl k(3)] B(1) [OF k(1) blk'] "2.prems"(2)
    show ?thesis by blast
  next
    case iff
    with op "2.prems"(1) obtain bt k cond thenN post cb l2 s2 tb s3 tbs s4 where
      k: "parse_blocktype c (snd (take_label (tl ks))) empty_bt = Inr (bt, k)"
      "split_last ''then'' k = Some (cond, thenN, post)"
      "encode_seq c f sigs None cond = Inr (cb, l2, s2)"
      "emit_blocktype c s2 bt = Inr (tb, s3)"
      "encode_block_body c (fc_push_label f (fst (take_label (tl ks)))) s3 (tl (kids thenN)) = Inr (tbs, s4)"
      and e: "case split_last ''else'' k of None \<Rightarrow> s1 = s4
        | Some (pre, elseN, post') \<Rightarrow>
            \<exists>ebs. encode_block_body c (fc_push_label f (fst (take_label (tl ks)))) s4 (tl (kids elseN)) = Inr (ebs, s1)"
      by (auto simp: encode_instr.simps split: prod.splits option.splits)
    have blk': "is_block_op (head (Some (SList ks pos)))" using iff op by auto
    have sub: "all_block_sigs c k \<subseteq> set sigs" using B(1) [OF k(1) blk'] "2.prems"(2) by blast
    have n: "\<not> (op = ''block'' \<or> op = ''loop'')" using iff by simp
    note T = split_last_sigs [OF k(2), of c]
    have s2: "s2 = sigs"
      using "2.IH"(2) [OF op n iff k(1) refl k(2) refl refl k(3)] T(1) sub by blast
    have s3: "s3 = s2" using emit_blocktype_sigs [OF k(4)] B(2) [OF k(1) blk'] "2.prems"(2) s2 by blast
    have s4: "s4 = s3"
      using "2.IH"(3) [OF op n iff k(1) refl k(2) refl refl k(3) refl refl k(4) refl k(5)] T(2) sub s2 s3 by blast
    show ?thesis
    proof (cases "split_last ''else'' k")
      case None
      with e s2 s3 s4 show ?thesis by simp
    next
      case (Some el)
      obtain pre elseN post' where el: "split_last ''else'' k = Some (pre, elseN, post')"
        using Some by (cases el) auto
      from e obtain ebs where
        eb: "encode_block_body c (fc_push_label f (fst (take_label (tl ks)))) s4 (tl (kids elseN)) = Inr (ebs, s1)"
        by (auto simp: el)
      show ?thesis
        using "2.IH"(4) [OF op n iff k(1) refl k(2) refl refl k(3) refl refl k(4) refl k(5) refl el refl refl eb]
          split_last_sigs(2) [OF el, of c] sub s2 s3 s4 by blast
    qed
  next
    case tr
    with op "2.prems"(1) obtain bt k tb s2 cs body where
      k: "parse_blocktype c (snd (take_label (tl ks))) empty_bt = Inr (bt, k)"
      "emit_blocktype c sigs bt = Inr (tb, s2)"
      "catches_bytes c f (takeWhile is_catch k) = Inr cs"
      "encode_block_body c (fc_push_label f (fst (take_label (tl ks)))) s2 (dropWhile is_catch k) = Inr (body, s1)"
      by (auto simp: encode_instr.simps split: prod.splits)
    have blk': "is_block_op (head (Some (SList ks pos)))" using tr op by auto
    have n: "\<not> (op = ''block'' \<or> op = ''loop'')" "op \<noteq> ''if''" using tr by simp_all
    have s2: "s2 = sigs" using emit_blocktype_sigs [OF k(2)] B(2) [OF k(1) blk'] "2.prems"(2) by blast
    show ?thesis
      using "2.IH"(5) [OF op n tr k(1) refl k(2) refl k(3) k(4)] s2 B(1) [OF k(1) blk'] "2.prems"(2)
        all_block_sigs_suffix [OF suffix_dropWhile, of c is_catch k] by blast
  next
    case simple
    with op "2.prems"(1) obtain ops post obs where
      k: "enc_simple c f pos op (tl ks) = Inr (ops, post)" "encode_operands c f sigs ops = Inr (obs, s1)"
      by (auto simp: encode_instr.simps split: prod.splits)
    have n: "\<not> (op = ''block'' \<or> op = ''loop'')" using simple by simp
    show ?thesis
      using "2.IH"(6) [OF op n simple(3,4) k(1) refl k(2)] simple_sigs [OF k(1), of c] "2.prems"(2) by blast
  qed
next
  case (4 c f sigs k ks)
  then show ?case by (fastforce simp: encode_operands.simps)
next
  case (6 c f sigs lst ls pos ks)
  then show ?case by (fastforce simp: encode_seq.simps)
next
  case (7 c f sigs lst str a pos ks)
  then show ?case using synth_plain_sigs by (fastforce simp: encode_seq.simps)
qed (auto simp: encode_operands.simps encode_seq.simps encode_block_body.simps)

end
