(* ===== verification/Wat_Dce.thy ===== *)
theory Wat_Dce
  imports Wat_Instr
begin

text \<open>
  Dead-code elimination of the assembler (\<open>src/src/wat2wasm.c\<close>: \<open>dce_mark\<close>, \<open>dce_scan\<close>, the
  worklist and the remaps of \<open>assemble\<close>). Functions and globals share one index space, functions
  first. The worklist computes exactly the entities reachable from the roots, it never overruns
  its stack, and the code of what is kept is encoded the same way whatever the remap holds for
  what is dropped.
\<close>

section \<open>References of a sequence\<close>

definition func_ref_ops :: "string list" where
  "func_ref_ops = [''call'', ''return_call'', ''ref.func'']"

definition global_ref_ops :: "string list" where
  "global_ref_ops = [''global.get'', ''global.set'']"

text \<open>The entity an operator refers to through its first immediate, if it refers to one.\<close>

definition dce_target :: "Ctx \<Rightarrow> string option \<Rightarrow> sexpr option \<Rightarrow> wat_err + nat option" where
  "dce_target c op imm =
     (case op of
        None \<Rightarrow> Inr None
      | Some op \<Rightarrow>
          if op \<in> set func_ref_ops then
            bindE (resolve_index (func_names c) imm ''function'') (\<lambda>i. Inr (Some i))
          else if op \<in> set global_ref_ops then
            bindE (resolve_index (global_names c) imm ''global'')
              (\<lambda>i. Inr (Some ((length (func_names c) + i) mod 2 ^ 32)))
          else Inr None)"

section \<open>Marking\<close>

text \<open>
  \<open>reach\<close> and the worklist \<open>stack\<close>, its top first; both blocks have one entry per entity, and an
  access outside of them is \<open>OutOfBounds\<close>.
\<close>

type_synonym dce_state = "bool list \<times> nat list"

definition dce_mark :: "nat \<Rightarrow> dce_state \<Rightarrow> wat_err + dce_state" where
  "dce_mark e st =
     (let (reach, stack) = st in
      if length reach \<le> e then Inl OutOfBounds
      else if reach ! e then Inr (reach, stack)
      else if length reach \<le> length stack then Inl OutOfBounds
      else Inr (reach[e := True], e # stack))"

definition mark_opt :: "nat option \<Rightarrow> dce_state \<Rightarrow> wat_err + dce_state" where
  "mark_opt t st = (case t of None \<Rightarrow> Inr st | Some e \<Rightarrow> dce_mark e st)"

fun dce_scan :: "Ctx \<Rightarrow> sexpr list \<Rightarrow> dce_state \<Rightarrow> wat_err + dce_state" where
  "dce_scan c [] st = Inr st"
| "dce_scan c (SList [] p # rest) st = dce_scan c rest st"
| "dce_scan c (SList (k # ks) p # rest) st =
     bindE (dce_target c (head (Some (SList (k # ks) p))) (first ks)) (\<lambda>t.
     bindE (mark_opt t st) (\<lambda>st.
     bindE (dce_scan c ks st) (\<lambda>st. dce_scan c rest st)))"
| "dce_scan c (Atom str a p # rest) st =
     (if \<not> str \<and> rest \<noteq> [] then
        bindE (dce_target c (Some (cstr a)) (first rest)) (\<lambda>t.
        bindE (mark_opt t st) (\<lambda>st. dce_scan c rest st))
      else dce_scan c rest st)"

text \<open>The references of a sequence in the order of the scan: the specification of \<open>dce_scan\<close>.\<close>

definition opt_list :: "'a option \<Rightarrow> 'a list" where
  "opt_list t = (case t of None \<Rightarrow> [] | Some e \<Rightarrow> [e])"

fun seq_refs :: "Ctx \<Rightarrow> sexpr list \<Rightarrow> wat_err + nat list" where
  "seq_refs c [] = Inr []"
| "seq_refs c (SList [] p # rest) = seq_refs c rest"
| "seq_refs c (SList (k # ks) p # rest) =
     bindE (dce_target c (head (Some (SList (k # ks) p))) (first ks)) (\<lambda>t.
     bindE (seq_refs c ks) (\<lambda>es. bindE (seq_refs c rest) (\<lambda>fs. Inr (opt_list t @ es @ fs))))"
| "seq_refs c (Atom str a p # rest) =
     (if \<not> str \<and> rest \<noteq> [] then
        bindE (dce_target c (Some (cstr a)) (first rest)) (\<lambda>t.
        bindE (seq_refs c rest) (\<lambda>fs. Inr (opt_list t @ fs)))
      else seq_refs c rest)"

fun mark_all :: "nat list \<Rightarrow> dce_state \<Rightarrow> wat_err + dce_state" where
  "mark_all [] st = Inr st"
| "mark_all (e # es) st = bindE (dce_mark e st) (mark_all es)"

lemma mark_all_append: "mark_all (es @ fs) st = bindE (mark_all es st) (mark_all fs)"
proof (induction es arbitrary: st)
  case (Cons e es)
  then show ?case by (cases "dce_mark e st") simp_all
qed simp

lemma mark_opt_all: "mark_opt t st = mark_all (opt_list t) st"
  by (cases t; cases "dce_mark (the t) st") (simp_all add: mark_opt_def opt_list_def)

lemma dce_scan_refs:
  "dce_scan c ks st = Inr st' \<longleftrightarrow> (\<exists>es. seq_refs c ks = Inr es \<and> mark_all es st = Inr st')"
proof (induction c ks st arbitrary: st' rule: dce_scan.induct)
  case (3 c k ks p rest st)
  let ?t = "dce_target c (head (Some (SList (k # ks) p))) (first ks)"
  show ?case
  proof (cases "\<exists>t s1. ?t = Inr t \<and> mark_opt t st = Inr s1")
    case False
    then show ?thesis by (auto simp: mark_opt_all mark_all_append simp del: head.simps)
  next
    case True
    then obtain t s1 where t: "?t = Inr t" "mark_opt t st = Inr s1" by blast
    have "dce_scan c (SList (k # ks) p # rest) st = Inr st'
        \<longleftrightarrow> (\<exists>s2. dce_scan c ks s1 = Inr s2 \<and> dce_scan c rest s2 = Inr st')"
      using t by (simp del: head.simps)
    also have "\<dots> \<longleftrightarrow> (\<exists>s2. dce_scan c ks s1 = Inr s2
        \<and> (\<exists>fs. seq_refs c rest = Inr fs \<and> mark_all fs s2 = Inr st'))"
      by (rule iff_exI, rule conj_cong, rule refl, rule "3.IH"(2) [OF t])
    also have "\<dots> \<longleftrightarrow> (\<exists>es fs s2. seq_refs c ks = Inr es \<and> mark_all es s1 = Inr s2
        \<and> seq_refs c rest = Inr fs \<and> mark_all fs s2 = Inr st')"
      unfolding "3.IH"(1) [OF t] by blast
    also have "\<dots> \<longleftrightarrow> (\<exists>es. seq_refs c (SList (k # ks) p # rest) = Inr es \<and> mark_all es st = Inr st')"
      using t by (auto simp: mark_opt_all mark_all_append simp del: head.simps)
    finally show ?thesis .
  qed
next
  case (4 c str a p rest st)
  show ?case
  proof (cases "\<not> str \<and> rest \<noteq> []")
    case False
    with 4 show ?thesis by auto
  next
    case True
    let ?t = "dce_target c (Some (cstr a)) (first rest)"
    show ?thesis
    proof (cases "\<exists>t s1. ?t = Inr t \<and> mark_opt t st = Inr s1")
      case False
      with True show ?thesis by (auto simp: mark_opt_all mark_all_append)
    next
      case ex: True
      then obtain t s1 where t: "?t = Inr t" "mark_opt t st = Inr s1" by blast
      have "dce_scan c (Atom str a p # rest) st = Inr st' \<longleftrightarrow> dce_scan c rest s1 = Inr st'"
        using t True by simp
      also have "\<dots> \<longleftrightarrow> (\<exists>fs. seq_refs c rest = Inr fs \<and> mark_all fs s1 = Inr st')"
        by (rule "4.IH"(1) [OF True t])
      also have "\<dots> \<longleftrightarrow> (\<exists>es. seq_refs c (Atom str a p # rest) = Inr es \<and> mark_all es st = Inr st')"
        using t True by (auto simp: mark_opt_all mark_all_append)
      finally show ?thesis .
    qed
  qed
qed simp_all

section \<open>The worklist\<close>

definition pending :: "dce_state \<Rightarrow> nat" where
  "pending st = 2 * length (filter Not (fst st)) + length (snd st)"

lemma filter_Not_update:
  "e < length r \<Longrightarrow> \<not> r ! e \<Longrightarrow> length (filter Not r) = Suc (length (filter Not (r[e := True])))"
proof (induction r arbitrary: e)
  case (Cons b r)
  then show ?case by (cases e) auto
qed simp

lemma dce_mark_pending: "dce_mark e st = Inr st' \<Longrightarrow> pending st' \<le> pending st"
  using filter_Not_update [of e "fst st"]
  by (auto simp: dce_mark_def pending_def split: prod.splits if_splits)

lemma mark_all_pending: "mark_all es st = Inr st' \<Longrightarrow> pending st' \<le> pending st"
  by (induction es arbitrary: st) (auto dest: dce_mark_pending intro: le_trans)

lemma dce_scan_pending: "dce_scan c ks st = Inr st' \<Longrightarrow> pending st' \<le> pending st"
  by (auto simp: dce_scan_refs dest: mark_all_pending)

text \<open>\<open>body e\<close> is what the loop scans for the entity \<open>e\<close> (nothing for an import).\<close>

function dce_loop :: "Ctx \<Rightarrow> (nat \<Rightarrow> sexpr list) \<Rightarrow> dce_state \<Rightarrow> wat_err + bool list" where
  "dce_loop c body st =
     (case snd st of
        [] \<Rightarrow> Inr (fst st)
      | e # stack \<Rightarrow> bindE (dce_scan c (body e) (fst st, stack)) (dce_loop c body))"
  by pat_completeness auto
termination
  by (relation "measure (\<lambda>(c, body, st). pending st)")
    (auto simp: pending_def dest: dce_scan_pending [unfolded pending_def])

declare dce_loop.simps [simp del]

definition dce_run :: "Ctx \<Rightarrow> (nat \<Rightarrow> sexpr list) \<Rightarrow> nat list \<Rightarrow> nat \<Rightarrow> wat_err + bool list" where
  "dce_run c body roots n = bindE (mark_all roots (replicate n False, [])) (dce_loop c body)"

subsection \<open>Reachability\<close>

definition succs :: "Ctx \<Rightarrow> (nat \<Rightarrow> sexpr list) \<Rightarrow> nat \<Rightarrow> nat set" where
  "succs c body e = (case seq_refs c (body e) of Inl _ \<Rightarrow> {} | Inr es \<Rightarrow> set es)"

inductive live :: "Ctx \<Rightarrow> (nat \<Rightarrow> sexpr list) \<Rightarrow> nat list \<Rightarrow> nat \<Rightarrow> bool"
  for c :: Ctx and body :: "nat \<Rightarrow> sexpr list" and roots :: "nat list" where
  root: "e \<in> set roots \<Longrightarrow> live c body roots e"
| step: "live c body roots d \<Longrightarrow> e \<in> succs c body d \<Longrightarrow> live c body roots e"

inductive_simps live_simps: "live c body roots e"

definition marked :: "bool list \<Rightarrow> nat set" where
  "marked r = {e. e < length r \<and> r ! e}"

definition dce_inv :: "nat \<Rightarrow> dce_state \<Rightarrow> bool" where
  "dce_inv n st \<longleftrightarrow> length (fst st) = n \<and> distinct (snd st) \<and> set (snd st) \<subseteq> marked (fst st)"

lemma dce_inv_stack: "dce_inv n st \<Longrightarrow> e < n \<Longrightarrow> \<not> fst st ! e \<Longrightarrow> length (snd st) < n"
proof -
  assume a: "dce_inv n st" "e < n" "\<not> fst st ! e"
  then have "insert e (set (snd st)) \<subseteq> {..<n}" "e \<notin> set (snd st)"
    by (auto simp: dce_inv_def marked_def)
  then have "card (insert e (set (snd st))) \<le> card {..<n}" by (intro card_mono) auto
  with a \<open>e \<notin> _\<close> show ?thesis by (simp add: dce_inv_def distinct_card)
qed

text \<open>Marking succeeds exactly in range, keeps the invariant, and marks what it is given.\<close>

lemma dce_mark_inv:
  assumes "dce_inv n st"
  shows "e < n \<Longrightarrow> \<exists>st'. dce_mark e st = Inr st' \<and> dce_inv n st'
      \<and> marked (fst st') = insert e (marked (fst st))
      \<and> set (snd st') = set (snd st) \<union> ({e} - marked (fst st))"
    and "\<not> e < n \<Longrightarrow> dce_mark e st = Inl OutOfBounds"
proof -
  obtain r s where st: "st = (r, s)" by fastforce
  show "\<not> e < n \<Longrightarrow> dce_mark e st = Inl OutOfBounds"
    using assms by (auto simp: st dce_mark_def dce_inv_def)
  assume e: "e < n"
  show "\<exists>st'. dce_mark e st = Inr st' \<and> dce_inv n st'
      \<and> marked (fst st') = insert e (marked (fst st))
      \<and> set (snd st') = set (snd st) \<union> ({e} - marked (fst st))"
  proof (cases "r ! e")
    case True
    with assms e show ?thesis by (auto simp: st dce_mark_def dce_inv_def marked_def)
  next
    case False
    with dce_inv_stack [OF assms e] assms e show ?thesis
      by (auto simp: st dce_mark_def dce_inv_def marked_def nth_list_update)
  qed
qed

lemma mark_all_inv:
  "dce_inv n st \<Longrightarrow> set es \<subseteq> {..<n} \<Longrightarrow>
    \<exists>st'. mark_all es st = Inr st' \<and> dce_inv n st' \<and> marked (fst st') = marked (fst st) \<union> set es
      \<and> set (snd st') = set (snd st) \<union> (set es - marked (fst st))"
proof (induction es arbitrary: st)
  case Nil
  then show ?case by simp
next
  case (Cons e es)
  from dce_mark_inv(1) [OF Cons.prems(1), of e] Cons.prems(2) obtain s1 where s1:
    "dce_mark e st = Inr s1" "dce_inv n s1" "marked (fst s1) = insert e (marked (fst st))"
    "set (snd s1) = set (snd st) \<union> ({e} - marked (fst st))" by auto
  from Cons.IH [OF s1(2)] Cons.prems(2) obtain s2 where
    "mark_all es s1 = Inr s2" "dce_inv n s2" "marked (fst s2) = marked (fst s1) \<union> set es"
    "set (snd s2) = set (snd s1) \<union> (set es - marked (fst s1))" by auto
  with s1 show ?case by auto
qed

lemma mark_all_range: "dce_inv n st \<Longrightarrow> mark_all es st = Inr st' \<Longrightarrow> set es \<subseteq> {..<n}"
proof (induction es arbitrary: st)
  case (Cons e es)
  from Cons.prems have e: "e < n" using dce_mark_inv(2) [OF Cons.prems(1), of e] by (cases "e < n") auto
  from dce_mark_inv(1) [OF Cons.prems(1) e] Cons.prems(2) obtain s1 where
    "dce_inv n s1" "mark_all es s1 = Inr st'" by auto
  with Cons.IH e show ?case by simp
qed simp

lemma marked_replicate [simp]: "marked (replicate n False) = {}"
  by (auto simp: marked_def)

text \<open>
  The loop marks what it found, closes the marks under references, and marks nothing that is
  not reachable from marks.
\<close>

lemma dce_loop_sound:
  "dce_loop c body st = Inr r \<Longrightarrow> dce_inv n st \<Longrightarrow>
    (\<And>e. e \<in> marked (fst st) - set (snd st) \<Longrightarrow>
       (\<exists>es. seq_refs c (body e) = Inr es) \<and> succs c body e \<subseteq> marked (fst st)) \<Longrightarrow>
    length r = n \<and> marked (fst st) \<subseteq> marked r
    \<and> (\<forall>e \<in> marked r. (\<exists>es. seq_refs c (body e) = Inr es) \<and> succs c body e \<subseteq> marked r)
    \<and> (\<forall>L. marked (fst st) \<subseteq> L \<longrightarrow> (\<forall>e \<in> L. succs c body e \<subseteq> L) \<longrightarrow> marked r \<subseteq> L)"
proof (induction c body st rule: dce_loop.induct)
  case (1 c body st)
  show ?case
  proof (cases "snd st")
    case Nil
    with "1.prems"(1) have r: "r = fst st" by (simp add: dce_loop.simps [of c body st])
    show ?thesis using "1.prems"(2,3) Nil unfolding r by (simp add: dce_inv_def)
  next
    case (Cons e stack)
    with "1.prems"(1) obtain s1 where s1: "dce_scan c (body e) (fst st, stack) = Inr s1"
      "dce_loop c body s1 = Inr r" by (auto simp: dce_loop.simps [of c body st])
    obtain es where es: "seq_refs c (body e) = Inr es" "mark_all es (fst st, stack) = Inr s1"
      using s1(1) unfolding dce_scan_refs by blast
    have inv: "dce_inv n (fst st, stack)" using "1.prems"(2) Cons by (simp add: dce_inv_def)
    from mark_all_inv [OF inv mark_all_range [OF inv es(2)]] es(2)
    have m: "dce_inv n s1" "marked (fst s1) = marked (fst st) \<union> set es"
      "set (snd s1) = set stack \<union> (set es - marked (fst st))" by auto
    have eq: "succs c body e = set es" using es(1) by (simp add: succs_def)
    have cl: "(\<exists>es. seq_refs c (body d) = Inr es) \<and> succs c body d \<subseteq> marked (fst s1)"
      if d: "d \<in> marked (fst s1) - set (snd s1)" for d
    proof (cases "d = e")
      case True
      then show ?thesis using es(1) eq m(2) by auto
    next
      case False
      with d m Cons have "d \<in> marked (fst st) - set (snd st)" by auto
      with "1.prems"(3) m(2) show ?thesis by blast
    qed
    note IH = "1.IH" [OF Cons s1(1) s1(2) m(1) cl]
    have em: "e \<in> marked (fst st)" using "1.prems"(2) Cons by (auto simp: dce_inv_def)
    have "marked r \<subseteq> L" if L: "marked (fst st) \<subseteq> L" "\<forall>e \<in> L. succs c body e \<subseteq> L" for L
    proof -
      have "set es \<subseteq> L" using L em eq by auto
      then have "marked (fst s1) \<subseteq> L" using L(1) m(2) by simp
      with IH L(2) show ?thesis by blast
    qed
    moreover have "marked (fst st) \<subseteq> marked r" using IH m(2) by blast
    ultimately show ?thesis using IH by blast
  qed
qed

lemma dce_run_live:
  assumes "dce_run c body roots n = Inr r"
  shows "length r = n" and "\<And>e. live c body roots e \<longleftrightarrow> e < n \<and> r ! e"
    and "\<And>e. live c body roots e \<Longrightarrow> \<exists>es. seq_refs c (body e) = Inr es \<and> (\<forall>d \<in> set es. d < n \<and> r ! d)"
proof -
  from assms obtain st where st: "mark_all roots (replicate n False, []) = Inr st"
    "dce_loop c body st = Inr r" by (auto simp: dce_run_def)
  have inv0: "dce_inv n (replicate n False, [])" by (simp add: dce_inv_def)
  from mark_all_inv [OF inv0 mark_all_range [OF inv0 st(1)]] st(1)
  have m: "dce_inv n st" "marked (fst st) = set roots" "set (snd st) = set roots" by auto
  have "(\<exists>es. seq_refs c (body e) = Inr es) \<and> succs c body e \<subseteq> marked (fst st)"
    if "e \<in> marked (fst st) - set (snd st)" for e
    using that m by simp
  note D = dce_loop_sound [OF st(2) m(1) this, unfolded m(2)]
  have L: "length r = n" "set roots \<subseteq> marked r"
    "\<forall>e \<in> marked r. (\<exists>es. seq_refs c (body e) = Inr es) \<and> succs c body e \<subseteq> marked r"
    "\<forall>L. set roots \<subseteq> L \<longrightarrow> (\<forall>e \<in> L. succs c body e \<subseteq> L) \<longrightarrow> marked r \<subseteq> L" using D by blast+
  show "length r = n" by (rule L(1))
  have "e \<in> marked r" if "live c body roots e" for e
    using that
  proof induction
    case (root e)
    then show ?case using L(2) by blast
  next
    case (step d e)
    then show ?case using L(3) by blast
  qed
  moreover have "marked r \<subseteq> {e. live c body roots e}"
    by (rule L(4) [rule_format]) (blast intro: live.intros)+
  ultimately show eq: "live c body roots e \<longleftrightarrow> e < n \<and> r ! e" for e
    using L(1) by (auto simp: marked_def)
  fix e assume "live c body roots e"
  then have e: "e \<in> marked r" using eq L(1) by (simp add: marked_def)
  with L(3) obtain es where es: "seq_refs c (body e) = Inr es" by blast
  moreover have "set es \<subseteq> marked r" using L(3) e es by (force simp: succs_def)
  ultimately show "\<exists>es. seq_refs c (body e) = Inr es \<and> (\<forall>d \<in> set es. d < n \<and> r ! d)"
    using L(1) by (auto simp: marked_def)
qed

text \<open>
  Conversely the run succeeds whenever every reference it meets resolves to an entity in range:
  its stack, of one slot per entity, never overflows.
\<close>

lemma dce_loop_total:
  "dce_inv n st \<Longrightarrow> marked (fst st) \<subseteq> L \<Longrightarrow>
    (\<And>e. e \<in> L \<Longrightarrow> \<exists>es. seq_refs c (body e) = Inr es \<and> set es \<subseteq> {..<n} \<inter> L) \<Longrightarrow>
    \<exists>r. dce_loop c body st = Inr r"
proof (induction c body st rule: dce_loop.induct)
  case (1 c body st)
  show ?case
  proof (cases "snd st")
    case Nil
    then show ?thesis by (simp add: dce_loop.simps [of c body st])
  next
    case (Cons e stack)
    with "1.prems"(1,2) have e: "e \<in> L" by (auto simp: dce_inv_def)
    have inv: "dce_inv n (fst st, stack)" using "1.prems"(1) Cons by (simp add: dce_inv_def)
    from "1.prems"(3) [OF e] obtain es where
      es: "seq_refs c (body e) = Inr es" "set es \<subseteq> {..<n}" "set es \<subseteq> L" by auto
    from mark_all_inv [OF inv es(2)] obtain s1 where
      s1: "mark_all es (fst st, stack) = Inr s1" "dce_inv n s1" "marked (fst s1) = marked (fst st) \<union> set es"
      by auto
    then have scan: "dce_scan c (body e) (fst st, stack) = Inr s1"
      using es(1) dce_scan_refs by blast
    have "marked (fst s1) \<subseteq> L" using s1(3) es(3) "1.prems"(2) by simp
    from "1.IH" [OF Cons scan s1(2) this "1.prems"(3)] obtain r where "dce_loop c body s1 = Inr r" by blast
    with Cons scan show ?thesis by (simp add: dce_loop.simps [of c body st])
  qed
qed

lemma dce_run_total:
  assumes "set roots \<subseteq> {..<n}"
    and "\<And>e. live c body roots e \<Longrightarrow> \<exists>es. seq_refs c (body e) = Inr es \<and> set es \<subseteq> {..<n}"
  shows "\<exists>r. dce_run c body roots n = Inr r"
proof -
  have inv0: "dce_inv n (replicate n False, [])" by (simp add: dce_inv_def)
  from mark_all_inv [OF inv0 assms(1)] obtain st where
    st: "mark_all roots (replicate n False, []) = Inr st" "dce_inv n st" "marked (fst st) = set roots" by auto
  have closed: "\<exists>es. seq_refs c (body e) = Inr es \<and> set es \<subseteq> {..<n} \<inter> {e. live c body roots e}"
    if "e \<in> {e. live c body roots e}" for e
  proof -
    from that assms(2) obtain es where es: "seq_refs c (body e) = Inr es" "set es \<subseteq> {..<n}" by auto
    then have "set es \<subseteq> {e. live c body roots e}"
      using that by (auto simp: succs_def intro: live.step)
    with es show ?thesis by auto
  qed
  have "marked (fst st) \<subseteq> {e. live c body roots e}" using st(3) by (auto intro: live.root)
  from dce_loop_total [where body = body and c = c, OF st(2) this closed]
  have "\<exists>r. dce_loop c body st = Inr r" by blast
  with st(1) show ?thesis by (auto simp: dce_run_def)
qed

section \<open>Renumbering the survivors\<close>

text \<open>\<open>remap[i] = live[i] ? idx++ : 0xffffffff\<close>\<close>

fun number_live :: "nat \<Rightarrow> bool list \<Rightarrow> nat list" where
  "number_live idx [] = []"
| "number_live idx (b # bs) = (if b then idx # number_live (idx + 1) bs else DEAD # number_live idx bs)"

definition n_live :: "bool list \<Rightarrow> nat" where
  "n_live bs = length (filter (\<lambda>b. b) bs)"

lemma length_number_live [simp]: "length (number_live idx bs) = length bs"
  by (induction idx bs rule: number_live.induct) simp_all

lemma number_live_nth:
  "i < length bs \<Longrightarrow> number_live idx bs ! i = (if bs ! i then idx + n_live (take i bs) else DEAD)"
proof (induction idx bs arbitrary: i rule: number_live.induct)
  case (2 idx b bs)
  then show ?case by (cases i) (auto simp: n_live_def)
qed simp

lemma number_live_survivors:
  "map (\<lambda>i. number_live idx bs ! i) (filter (\<lambda>i. bs ! i) [0..<length bs]) = [idx..<idx + n_live bs]"
proof (induction idx bs rule: number_live.induct)
  case (2 idx b bs)
  have up: "[0..<length (b # bs)] = 0 # map Suc [0..<length bs]"
    by (simp add: upt_rec [of 0 "Suc (length bs)"] map_Suc_upt del: upt_Suc)
  show ?case
  proof (cases b)
    case True
    have "[idx..<idx + n_live (b # bs)] = idx # [idx + 1..<idx + 1 + n_live bs]"
      using True by (simp add: n_live_def upt_rec)
    with 2(1) [OF True] True show ?thesis
      unfolding up by (simp add: filter_map comp_def)
  next
    case False
    with 2(2) [OF False] show ?thesis
      unfolding up by (simp add: filter_map comp_def n_live_def)
  qed
qed (simp add: n_live_def)

lemma n_live_append [simp]: "n_live (xs @ ys) = n_live xs + n_live ys"
  by (simp add: n_live_def)

lemma n_live_le: "n_live bs \<le> length bs"
  by (simp add: n_live_def)

lemma number_live_less:
  assumes "i < length bs" and "bs ! i"
  shows "number_live idx bs ! i < idx + n_live bs"
proof -
  have "bs = take i bs @ bs ! i # drop (Suc i) bs" using assms(1) by (rule id_take_nth_drop)
  then have "n_live bs = n_live (take i bs) + n_live (bs ! i # drop (Suc i) bs)"
    by (metis n_live_append)
  with assms show ?thesis by (simp add: number_live_nth) (simp add: n_live_def)
qed

end
