(* ===== verification/Wat_Remap.thy ===== *)
theory Wat_Remap
  imports Wat_Dce
begin

text \<open>
  Encoding looks a remap up only at the entities the reachability scan found and at the signatures
  of the block types in the code (\<open>src/src/wat2wasm.c\<close>: \<open>encode_instr\<close> against \<open>dce_scan\<close> and
  \<open>sig_mark_blocks\<close>). So the entries of dropped functions, globals and signatures never reach the
  output. The one exception is a string literal in the place of a plain instruction, which the
  encoder takes for its operator and the scan skips; \<open>quiet\<close> excludes it.
\<close>

section \<open>Contexts that differ in their remaps\<close>

definition remap_ctx :: "Ctx \<Rightarrow> nat list option \<Rightarrow> nat list option \<Rightarrow> nat list option \<Rightarrow> Ctx" where
  "remap_ctx c fr gr sr = c\<lparr>func_remap := fr, global_remap := gr, sig_remap := sr\<rparr>"

lemma remap_ctx_fields [simp]:
  "csrc (remap_ctx c fr gr sr) = csrc c" "cfe (remap_ctx c fr gr sr) = cfe c"
  "func_names (remap_ctx c fr gr sr) = func_names c" "global_names (remap_ctx c fr gr sr) = global_names c"
  "tag_names (remap_ctx c fr gr sr) = tag_names c" "data_names (remap_ctx c fr gr sr) = data_names c"
  "decls (remap_ctx c fr gr sr) = decls c" "n_decl_types (remap_ctx c fr gr sr) = n_decl_types c"
  by (simp_all add: remap_ctx_def n_decl_types_def)

lemma remap_ctx_remaps [simp]:
  "func_remap (remap_ctx c fr gr sr) = fr" "global_remap (remap_ctx c fr gr sr) = gr"
  "sig_remap (remap_ctx c fr gr sr) = sr"
  by (simp_all add: remap_ctx_def)

text \<open>What does not look at a remap is the same in both contexts.\<close>

lemma remap_ctx_types [simp]:
  "resolve_type (remap_ctx c fr gr sr) = resolve_type c"
  "resolve_field (remap_ctx c fr gr sr) = resolve_field c"
  "line_msg (remap_ctx c fr gr sr) = line_msg c"
  unfolding fun_eq_iff resolve_type_def resolve_field_def line_msg_def remap_ctx_fields by blast+

lemma remap_ctx_heaptype [simp]: "emit_heaptype (remap_ctx c fr gr sr) = emit_heaptype c"
  unfolding fun_eq_iff emit_heaptype_def remap_ctx_types by blast

lemma remap_ctx_valtype [simp]: "emit_valtype (remap_ctx c fr gr sr) = emit_valtype c"
  unfolding fun_eq_iff emit_valtype_def remap_ctx_heaptype by blast

lemma remap_ctx_bt_add [simp]: "bt_add (remap_ctx c fr gr sr) = bt_add c"
  unfolding fun_eq_iff bt_add_def remap_ctx_valtype by blast

lemma remap_ctx_bt_add_all [simp]: "bt_add_all (remap_ctx c fr gr sr) ks = bt_add_all c ks"
proof (induction ks)
  case (Cons k ks)
  show ?case unfolding fun_eq_iff bt_add_all.simps remap_ctx_bt_add Cons.IH by blast
qed (simp add: fun_eq_iff)

lemma remap_ctx_collect [simp]: "collect_valtypes (remap_ctx c fr gr sr) = collect_valtypes c"
  unfolding fun_eq_iff collect_valtypes_def remap_ctx_bt_add remap_ctx_bt_add_all by blast

lemma remap_ctx_blocktype [simp]: "parse_blocktype (remap_ctx c fr gr sr) ks = parse_blocktype c ks"
proof (induction ks)
  case (Cons k ks)
  show ?case
    unfolding fun_eq_iff parse_blocktype.simps remap_ctx_collect remap_ctx_types Cons.IH by blast
qed (simp add: fun_eq_iff)

lemma remap_ctx_simple [simp]:
  "enc_const (remap_ctx c fr gr sr) = enc_const c"
  "enc_struct (remap_ctx c fr gr sr) = enc_struct c"
  "enc_array (remap_ctx c fr gr sr) = enc_array c"
  "enc_select (remap_ctx c fr gr sr) = enc_select c"
  "enc_op (remap_ctx c fr gr sr) = enc_op c"
  unfolding fun_eq_iff enc_const_def enc_struct_def enc_array_def enc_select_def enc_op_def
    remap_ctx_types remap_ctx_fields remap_ctx_valtype by blast+

lemma remap_ctx_catch [simp]: "catch_bytes (remap_ctx c fr gr sr) = catch_bytes c"
  unfolding fun_eq_iff catch_bytes_def remap_ctx_fields by blast

lemma remap_ctx_catches [simp]: "catches_bytes (remap_ctx c fr gr sr) f ps = catches_bytes c f ps"
  by (induction ps) simp_all

lemma remap_ctx_synth [simp]: "synth_plain (remap_ctx c fr gr sr) = synth_plain c"
  unfolding fun_eq_iff synth_plain_def remap_ctx_types by blast

lemma remap_ctx_target [simp]: "dce_target (remap_ctx c fr gr sr) = dce_target c"
  unfolding fun_eq_iff dce_target_def remap_ctx_fields by blast

lemma remap_ctx_refs [simp]: "seq_refs (remap_ctx c fr gr sr) ks = seq_refs c ks"
  by (induction c ks rule: seq_refs.induct) (auto intro!: bindE_cong)

lemma remap_ctx_block_sigs [simp]: "block_sigs (remap_ctx c fr gr sr) n = block_sigs c n"
  by (induction c n rule: block_sigs.induct) (auto simp: bt_sigs_def)

section \<open>Agreement on the entities found\<close>

definition agree_on :: "Ctx \<Rightarrow> Ctx \<Rightarrow> nat set \<Rightarrow> bool" where
  "agree_on c c' E \<longleftrightarrow> (\<forall>i \<in> E. map_func c' i = map_func c i)
     \<and> (\<forall>i. (length (func_names c) + i) mod 2 ^ 32 \<in> E \<longrightarrow> map_global c' i = map_global c i)"

lemma agree_on_subset: "agree_on c c' E \<Longrightarrow> F \<subseteq> E \<Longrightarrow> agree_on c c' F"
  by (auto simp: agree_on_def)

definition target_ok :: "Ctx \<Rightarrow> Ctx \<Rightarrow> string option \<Rightarrow> sexpr option \<Rightarrow> bool" where
  "target_ok c c' op imm \<longleftrightarrow> (\<exists>t. dce_target c op imm = Inr t \<and> agree_on c c' (set (opt_list t)))"

definition refs_ok :: "Ctx \<Rightarrow> Ctx \<Rightarrow> sexpr list \<Rightarrow> bool" where
  "refs_ok c c' ks \<longleftrightarrow> (\<exists>es. seq_refs c ks = Inr es \<and> agree_on c c' (set es))"

lemma agree_on_Un [simp]: "agree_on c c' (E \<union> F) \<longleftrightarrow> agree_on c c' E \<and> agree_on c c' F"
  by (auto simp: agree_on_def)

lemma agree_on_empty [simp]: "agree_on c c' {}"
  by (simp add: agree_on_def)

lemma refs_ok_simps:
  "refs_ok c c' []"
  "refs_ok c c' (SList [] p # rest) \<longleftrightarrow> refs_ok c c' rest"
  "refs_ok c c' (SList (k # ks) p # rest) \<longleftrightarrow>
     target_ok c c' (head (Some (SList (k # ks) p))) (first ks) \<and> refs_ok c c' ks \<and> refs_ok c c' rest"
  "refs_ok c c' (Atom str a p # rest) \<longleftrightarrow>
     (\<not> str \<and> rest \<noteq> [] \<longrightarrow> target_ok c c' (Some (cstr a)) (first rest)) \<and> refs_ok c c' rest"
  by (auto simp: refs_ok_def target_ok_def simp del: head.simps)

lemma target_ok_other:
  "op \<notin> set func_ref_ops \<Longrightarrow> op \<notin> set global_ref_ops \<Longrightarrow> target_ok c c' (Some op) imm"
  by (simp add: target_ok_def dce_target_def opt_list_def)

lemma refs_ok_tl: "refs_ok c c' (k # ks) \<Longrightarrow> refs_ok c c' ks"
  by (cases k; cases "kids k") (auto simp: refs_ok_simps)

lemma refs_ok_suffix: "suffix xs ys \<Longrightarrow> refs_ok c c' ys \<Longrightarrow> refs_ok c c' xs"
  by (induction ys) (auto simp: suffix_Cons dest: refs_ok_tl)

lemma refs_ok_prefix: "refs_ok c c' (xs @ ys) \<Longrightarrow> refs_ok c c' xs"
proof (induction xs)
  case (Cons x xs)
  then show ?case
  proof (cases x)
    case (Atom str a p)
    with Cons show ?thesis by (cases xs) (auto simp: refs_ok_simps first_def)
  next
    case (SList ks p)
    with Cons show ?thesis by (cases ks) (auto simp: refs_ok_simps simp del: head.simps)
  qed
qed (simp add: refs_ok_simps)

lemma refs_ok_list:
  "refs_ok c c' (SList ks p # rest) \<Longrightarrow> refs_ok c c' (tl ks) \<and> refs_ok c c' [SList ks p] \<and> refs_ok c c' rest
     \<and> (\<forall>op. head (Some (SList ks p)) = Some op \<longrightarrow> target_ok c c' (Some op) (first (tl ks)))"
proof (cases ks)
  case (Cons k ls)
  then show "refs_ok c c' (SList ks p # rest) \<Longrightarrow> ?thesis"
    by (auto simp: refs_ok_simps simp del: head.simps)
qed (simp add: refs_ok_simps)

lemma refs_ok_kids: "refs_ok c c' ks \<Longrightarrow> x \<in> set ks \<Longrightarrow> is_list x \<Longrightarrow> refs_ok c c' (tl (kids x))"
proof (induction ks)
  case (Cons k ks)
  show ?case
  proof (cases "x = k")
    case True
    with Cons.prems show ?thesis by (cases x) (auto dest: refs_ok_list)
  next
    case False
    with Cons refs_ok_tl show ?thesis by auto
  qed
qed simp

section \<open>Quiet strings\<close>

fun quiet :: "sexpr \<Rightarrow> bool" where
  "quiet (Atom str a p) \<longleftrightarrow> (str \<longrightarrow> cstr a \<notin> set func_ref_ops \<and> cstr a \<notin> set global_ref_ops)"
| "quiet (SList ks p) \<longleftrightarrow> list_all quiet ks"

lemma quiet_suffix: "suffix xs ys \<Longrightarrow> list_all quiet ys \<Longrightarrow> list_all quiet xs"
  by (auto simp: suffix_def)

lemma quiet_kids: "list_all quiet ks \<Longrightarrow> x \<in> set ks \<Longrightarrow> is_list x \<Longrightarrow> list_all quiet (tl (kids x))"
  by (cases x; cases "kids x") (auto simp: list_all_iff)

lemma ref_ops_plain:
  "op \<in> set func_ref_ops \<union> set global_ref_ops \<Longrightarrow> plain_imm_count op = Some 1"
  by (auto simp: func_ref_ops_def global_ref_ops_def plain_imm_count_def)

lemma synth_refs:
  assumes "synth_plain c a pos ks = Inr (sy, r)" and "refs_ok c c' (Atom str a p # ks)"
    and "list_all quiet (Atom str a p # ks)"
  shows "refs_ok c c' [sy]" and "refs_ok c c' r" and "quiet sy" and "list_all quiet r"
proof -
  from synth_plain_weight(3) [OF assms(1)] obtain ims where
    i: "sy = SList (Atom False a 0 # ims) pos" "ks = ims @ r" by blast
  show "refs_ok c c' r" "list_all quiet r"
    using refs_ok_tl [OF assms(2)] refs_ok_suffix [of r ks] assms(3) i by (auto simp: suffix_def)
  show "quiet sy" using assms(3) i by simp
  have ims: "refs_ok c c' ims" using refs_ok_tl [OF assms(2)] refs_ok_prefix i(2) by simp
  have "target_ok c c' (Some (cstr a)) (first ims)"
  proof (cases "cstr a \<in> set func_ref_ops \<union> set global_ref_ops")
    case False
    then show ?thesis by (intro target_ok_other) auto
  next
    case True
    from assms(1) ref_ops_plain [OF True] have "length ims = 1"
      using i by (auto simp: synth_plain_def split: prod.splits dest: take_atoms_weight)
    moreover have "\<not> str" using True assms(3) by auto
    ultimately show ?thesis using assms(2) i by (cases ims) (auto simp: refs_ok_simps first_def)
  qed
  with ims i show "refs_ok c c' [sy]" by (simp add: refs_ok_simps)
qed

section \<open>One instruction\<close>

lemma target_ok_func:
  assumes "target_ok c c' (Some op) imm" and "op \<in> set func_ref_ops"
    and "resolve_index (func_names c) imm ''function'' = Inr i"
  shows "map_func c' i = map_func c i"
  using assms by (auto simp: target_ok_def dce_target_def opt_list_def agree_on_def)

lemma target_ok_global:
  assumes "target_ok c c' (Some op) imm" and "op \<in> set global_ref_ops"
    and "resolve_index (global_names c) imm ''global'' = Inr i"
  shows "map_global c' i = map_global c i"
proof -
  have "op \<notin> set func_ref_ops" using assms(2) by (auto simp: func_ref_ops_def global_ref_ops_def)
  with assms show ?thesis by (auto simp: target_ok_def dce_target_def opt_list_def agree_on_def)
qed

lemma enc_var_agree:
  assumes "c' = remap_ctx c fr gr sr" and "target_ok c c' (Some op) (first args)"
  shows "enc_var c' f op args = enc_var c f op args"
proof (cases "op \<in> set global_ref_ops")
  case True
  have "bindE (resolve_index (global_names c') (first args) ''global'')
          (\<lambda>idx. Inr (drop 1 args, bindE (map_global c' idx) (h :: nat \<Rightarrow> wat_err + byte list)))
      = bindE (resolve_index (global_names c) (first args) ''global'')
          (\<lambda>idx. Inr (drop 1 args, bindE (map_global c idx) h))" for h
    using target_ok_global [OF assms(2) True]
    by (cases "resolve_index (global_names c) (first args) ''global''") (simp_all add: assms(1))
  then show ?thesis unfolding enc_var_def by presburger
next
  case False
  then show ?thesis unfolding enc_var_def global_ref_ops_def by auto
qed

lemma enc_call_agree:
  assumes "c' = remap_ctx c fr gr sr" and "target_ok c c' (Some op) (first args)"
  shows "enc_call c' op args = enc_call c op args"
proof -
  have same: "resolve_type c' = resolve_type c" "tag_names c' = tag_names c" by (simp_all add: assms(1))
  have "bindE (resolve_index (func_names c') (first args) ''function'')
          (\<lambda>idx. Inr (drop 1 args, bindE (map_func c' idx) (h :: nat \<Rightarrow> wat_err + byte list)))
      = bindE (resolve_index (func_names c) (first args) ''function'')
          (\<lambda>idx. Inr (drop 1 args, bindE (map_func c idx) h))" if "op \<in> set [''call'', ''return_call'']" for h
    using target_ok_func [OF assms(2)] that
    by (cases "resolve_index (func_names c) (first args) ''function''")
      (auto simp: assms(1) func_ref_ops_def)
  then show ?thesis unfolding enc_call_def same by presburger
qed

lemma enc_ref_agree:
  assumes "c' = remap_ctx c fr gr sr" and "target_ok c c' (Some op) (first args)"
  shows "enc_ref c' op args = enc_ref c op args"
proof -
  have same: "emit_heaptype c' = emit_heaptype c" by (simp add: assms(1))
  have "bindE (resolve_index (func_names c') (first args) ''function'')
          (\<lambda>fi. Inr ([] :: sexpr list, bindE (map_func c' fi) (h :: nat \<Rightarrow> wat_err + byte list)))
      = bindE (resolve_index (func_names c) (first args) ''function'')
          (\<lambda>fi. Inr ([], bindE (map_func c fi) h))" if "op = ''ref.func''" for h
    using target_ok_func [OF assms(2)] that
    by (cases "resolve_index (func_names c) (first args) ''function''")
      (auto simp: assms(1) func_ref_ops_def)
  then show ?thesis unfolding enc_ref_def same by presburger
qed

lemma enc_simple_agree:
  assumes "c' = remap_ctx c fr gr sr" and "target_ok c c' (Some op) (first args)"
  shows "enc_simple c' f pos op args = enc_simple c f pos op args"
  unfolding enc_simple_def enc_var_agree [OF assms] enc_call_agree [OF assms] enc_ref_agree [OF assms]
  unfolding assms(1) remap_ctx_simple by (rule refl)

section \<open>Block types\<close>

text \<open>The table holds the block signatures \<open>S\<close>, and the remaps agree on their indices.\<close>

definition sigs_ok :: "Ctx \<Rightarrow> Ctx \<Rightarrow> FuncSig list \<Rightarrow> FuncSig set \<Rightarrow> bool" where
  "sigs_ok c c' sigs S \<longleftrightarrow> S \<subseteq> set sigs
     \<and> (\<forall>s \<in> S. \<forall>i. sig_find sigs s = Some i \<longrightarrow>
          map_typeidx c' (n_decl_types c + i) = map_typeidx c (n_decl_types c + i))"

lemma sigs_ok_subset: "sigs_ok c c' sigs S \<Longrightarrow> T \<subseteq> S \<Longrightarrow> sigs_ok c c' sigs T"
  by (auto simp: sigs_ok_def)

lemma emit_blocktype_agree:
  assumes "c' = remap_ctx c fr gr sr" and "sigs_ok c c' sigs S" and "bt_interned bt \<Longrightarrow> bt_sig bt \<in> S"
  shows "emit_blocktype c' sigs bt = emit_blocktype c sigs bt"
proof (cases "bt_interned bt")
  case True
  with assms sig_find_None [of sigs "bt_sig bt"] obtain i where "sig_find sigs (bt_sig bt) = Some i"
    by (cases "sig_find sigs (bt_sig bt)") (auto simp: sigs_ok_def)
  with assms True show ?thesis
    by (auto simp: emit_blocktype_def sig_intern_def sigs_ok_def)
next
  case False
  then show ?thesis by (auto simp: emit_blocktype_def bt_interned_def)
qed

section \<open>Code\<close>

lemma emit_then:
  assumes "emit_blocktype c sigs bt = Inr (tb, s2)" and "sigs_ok c c' sigs S"
    and "bt_interned bt \<Longrightarrow> bt_sig bt \<in> S"
  shows "s2 = sigs"
  using assms by (intro emit_blocktype_sigs) (auto simp: sigs_ok_def)

lemma block_agree:
  assumes "c' = remap_ctx c fr gr sr" and "parse_blocktype c (snd (take_label (tl ks))) empty_bt = Inr (bt, k)"
    and "is_block_op (head (Some (SList ks pos)))" and "refs_ok c c' (tl ks)" and "list_all quiet (tl ks)"
    and "sigs_ok c c' sigs (block_sigs c (SList ks pos))"
  shows "refs_ok c c' k" and "list_all quiet k" and "sigs_ok c c' sigs (all_block_sigs c k)"
    and "emit_blocktype c' sigs bt = emit_blocktype c sigs bt"
    and "\<And>tb s2. emit_blocktype c sigs bt = Inr (tb, s2) \<Longrightarrow> s2 = sigs"
proof -
  have sk: "suffix k (tl ks)"
    using parse_blocktype_suffix [OF assms(2)] take_label_suffix [of "tl ks"] by (meson suffix_order.trans)
  note B = blocktype_sigs [OF assms(2,3)]
  show "refs_ok c c' k" by (rule refs_ok_suffix [OF sk assms(4)])
  show "list_all quiet k" by (rule quiet_suffix [OF sk assms(5)])
  show "sigs_ok c c' sigs (all_block_sigs c k)" by (rule sigs_ok_subset [OF assms(6) B(1)])
  show "emit_blocktype c' sigs bt = emit_blocktype c sigs bt"
    by (rule emit_blocktype_agree [OF assms(1,6) B(2)])
  show "\<And>tb s2. emit_blocktype c sigs bt = Inr (tb, s2) \<Longrightarrow> s2 = sigs"
    by (rule emit_then [OF _ assms(6) B(2)])
qed

lemma split_agree:
  assumes "split_last h k = Some (pre, x, post)" and "refs_ok c c' k" and "list_all quiet k"
    and "sigs_ok c c' sigs (all_block_sigs c k)"
  shows "refs_ok c c' pre" and "list_all quiet pre" and "sigs_ok c c' sigs (all_block_sigs c pre)"
    and "refs_ok c c' (tl (kids x))" and "list_all quiet (tl (kids x))"
    and "sigs_ok c c' sigs (all_block_sigs c (tl (kids x)))"
proof -
  from split_last_parts [OF assms(1)] have k: "k = pre @ x # post" and x: "head (Some x) = Some h" by auto
  from head_is_list [OF x] have l: "is_list x" by (cases x) auto
  show "refs_ok c c' pre" using assms(2) k refs_ok_prefix by blast
  show "list_all quiet pre" using assms(3) k by simp
  show "refs_ok c c' (tl (kids x))" using refs_ok_kids [OF assms(2)] k l by simp
  show "list_all quiet (tl (kids x))" using quiet_kids [OF assms(3)] k l by simp
  show "sigs_ok c c' sigs (all_block_sigs c pre)" "sigs_ok c c' sigs (all_block_sigs c (tl (kids x)))"
    using sigs_ok_subset [OF assms(4)] split_last_sigs [OF assms(1), of c] by blast+
qed

lemma sigs_ok_set: "sigs_ok c c' sigs S \<Longrightarrow> S \<subseteq> set sigs"
  by (simp add: sigs_ok_def)

lemma encode_agree:
  assumes "c' = remap_ctx c fr gr sr"
  shows
  "refs_ok c c' [n] \<Longrightarrow> quiet n \<Longrightarrow> sigs_ok c c' sigs (block_sigs c n) \<Longrightarrow>
     encode_instr c' f sigs n = encode_instr c f sigs n"
  "refs_ok c c' ks \<Longrightarrow> list_all quiet ks \<Longrightarrow> sigs_ok c c' sigs (all_block_sigs c ks) \<Longrightarrow>
     encode_operands c' f sigs ks = encode_operands c f sigs ks"
  "refs_ok c c' ks \<Longrightarrow> list_all quiet ks \<Longrightarrow> sigs_ok c c' sigs (all_block_sigs c ks) \<Longrightarrow>
     encode_seq c' f sigs l ks = encode_seq c f sigs l ks"
  "refs_ok c c' ks \<Longrightarrow> list_all quiet ks \<Longrightarrow> sigs_ok c c' sigs (all_block_sigs c ks) \<Longrightarrow>
     encode_block_body c' f sigs ks = encode_block_body c f sigs ks"
  using assms
proof (induction c f sigs n and c f sigs ks and c f sigs l ks and c f sigs ks
    rule: encode_instr_encode_operands_encode_seq_encode_block_body.induct)
  case (1 c f sigs str a p)
  then show ?case by (simp add: encode_instr.simps)
next
  case (2 c f sigs ks pos)
  let ?n = "SList ks pos"
  note R = refs_ok_list [OF "2.prems"(1)]
  have R1: "refs_ok c c' (tl ks)" using R by blast
  have Q: "list_all quiet (tl ks)" using "2.prems"(2) by (cases ks) auto
  note S = "2.prems"(3) and c' = "2.prems"(4)
  let ?parse = "parse_blocktype c (snd (take_label (tl ks))) empty_bt"
  let ?f = "fc_push_label f (fst (take_label (tl ks)))"
  have same: "parse_blocktype c' = parse_blocktype c" "catches_bytes c' = catches_bytes c"
    "line_msg c' = line_msg c" using c' by (simp_all add: fun_eq_iff)
  have sd: "suffix (dropWhile is_catch k) k" for k by (rule suffix_dropWhile)
  show ?case
  proof (cases "head (Some ?n)")
    case None
    with c' show ?thesis by (simp add: encode_instr.simps)
  next
    case op: (Some op)
    consider (blk) "op = ''block'' \<or> op = ''loop''" | (iff) "op = ''if''" | (tr) "op = ''try_table''"
      | (simple) "op \<noteq> ''block''" "op \<noteq> ''loop''" "op \<noteq> ''if''" "op \<noteq> ''try_table''" by blast
    then show ?thesis
    proof cases
      case simple
      have eq: "enc_simple c' f pos op (tl ks) = enc_simple c f pos op (tl ks)"
        using R op by (intro enc_simple_agree [OF c']) blast
      have n: "\<not> (op = ''block'' \<or> op = ''loop'')" using simple by simp
      show ?thesis
      proof (cases "enc_simple c f pos op (tl ks)")
        case (Inl e)
        with eq op simple show ?thesis by (simp add: encode_instr.simps)
      next
        case (Inr r)
        then obtain ops post where k: "enc_simple c f pos op (tl ks) = Inr (ops, post)" by (cases r) auto
        then have so: "suffix ops (tl ks)" using enc_simple_ops [of "tl ks" c f pos op] by (simp add: tail_ops_def)
        have "encode_operands c' f sigs ops = encode_operands c f sigs ops"
          using refs_ok_suffix [OF so R1] quiet_suffix [OF so Q] sigs_ok_subset [OF S simple_sigs [OF k]]
          by (rule "2.IH"(6) [OF op n simple(3,4) k refl]) (rule c')
        with eq op simple k show ?thesis by (simp add: encode_instr.simps)
      qed
    next
      case blk
      have blk': "is_block_op (head (Some ?n))" using blk op by auto
      note K = block_agree [OF c' _ blk' R1 Q S]
      have body: "encode_block_body c' ?f s2 k = encode_block_body c ?f s2 k"
        if "?parse = Inr (bt, k)" "emit_blocktype c sigs bt = Inr (tb, s2)" for bt k tb s2
        using "2.IH"(1) [OF op blk that(1) refl that(2) refl] K(1-3,5) [OF that(1)] that(2) c' by blast
      show ?thesis
        unfolding encode_instr.simps op same using blk
        by (auto simp: K(4) body intro!: bindE_cong)
    next
      case iff
      have blk': "is_block_op (head (Some ?n))" using iff op by auto
      have n: "\<not> (op = ''block'' \<or> op = ''loop'')" using iff by simp
      note K = block_agree [OF c' _ blk' R1 Q S]
      have T: "refs_ok c c' pre" "list_all quiet pre" "sigs_ok c c' sigs (all_block_sigs c pre)"
        "refs_ok c c' (tl (kids x))" "list_all quiet (tl (kids x))"
        "sigs_ok c c' sigs (all_block_sigs c (tl (kids x)))"
        if "?parse = Inr (bt, k)" "split_last h k = Some (pre, x, post)" for bt k h pre x post
        using split_agree [OF that(2) K(1-3) [OF that(1)]] by blast+
      have cond: "encode_seq c' f sigs None cond = encode_seq c f sigs None cond"
        if "?parse = Inr (bt, k)" "split_last ''then'' k = Some (cond, thenN, post)" for bt k cond thenN post
        using "2.IH"(2) [OF op n iff that(1) refl that(2) refl refl T(1-3) [OF that] c'] by blast
      have sigs: "s2 = sigs" "s3 = sigs"
        if "?parse = Inr (bt, k)" "split_last ''then'' k = Some (cond, thenN, post)"
          "encode_seq c f sigs None cond = Inr (cb, l2, s2)" "emit_blocktype c s2 bt = Inr (tb, s3)"
        for bt k cond thenN post cb l2 s2 tb s3
        using encode_sigs_stable(3) [OF that(3) sigs_ok_set [OF T(3) [OF that(1,2)]]] K(5) [OF that(1)] that(4)
        by blast+
      have body: "encode_block_body c' ?f s3 (tl (kids thenN)) = encode_block_body c ?f s3 (tl (kids thenN))"
        if "?parse = Inr (bt, k)" "split_last ''then'' k = Some (cond, thenN, post)"
          "encode_seq c f sigs None cond = Inr (cb, l2, s2)" "emit_blocktype c s2 bt = Inr (tb, s3)"
        for bt k cond thenN post cb l2 s2 tb s3
        using "2.IH"(3) [OF op n iff that(1) refl that(2) refl refl that(3) refl refl that(4) refl]
          T(4-6) [OF that(1,2)] c' sigs(2) [OF that] by blast
      have other: "encode_block_body c' ?f s4 (tl (kids elseN)) = encode_block_body c ?f s4 (tl (kids elseN))"
        if "?parse = Inr (bt, k)" "split_last ''then'' k = Some (cond, thenN, post)"
          "encode_seq c f sigs None cond = Inr (cb, l2, s2)" "emit_blocktype c s2 bt = Inr (tb, s3)"
          "encode_block_body c ?f s3 (tl (kids thenN)) = Inr (t, s4)"
          "split_last ''else'' k = Some (pre, elseN, post')"
        for bt k cond thenN post cb l2 s2 tb s3 t s4 pre elseN post'
      proof -
        have "s4 = sigs"
          using encode_sigs_stable(4) [OF that(5)] sigs(2) [OF that(1-4)] sigs_ok_set [OF T(6) [OF that(1,2)]] by blast
        then show ?thesis
          using "2.IH"(4) [OF op n iff that(1) refl that(2) refl refl that(3) refl refl that(4) refl that(5) refl
              that(6) refl refl] T(4-6) [OF that(1,6)] c' by blast
      qed
      have emit: "emit_blocktype c' s2 bt = emit_blocktype c s2 bt"
        if "?parse = Inr (bt, k)" "split_last ''then'' k = Some (cond, thenN, post)"
          "encode_seq c f sigs None cond = Inr (cb, l2, s2)" for bt k cond thenN post cb l2 s2
        using encode_sigs_stable(3) [OF that(3) sigs_ok_set [OF T(3) [OF that(1,2)]]] K(4) [OF that(1)] by blast
      show ?thesis
        unfolding encode_instr.simps op same using iff
        by (auto simp: emit cond body other intro!: bindE_cong split: option.split)
    next
      case tr
      have blk': "is_block_op (head (Some ?n))" using tr op by auto
      have n: "\<not> (op = ''block'' \<or> op = ''loop'')" "op \<noteq> ''if''" using tr by simp_all
      note K = block_agree [OF c' _ blk' R1 Q S]
      have body: "encode_block_body c' ?f s2 (dropWhile is_catch k) = encode_block_body c ?f s2 (dropWhile is_catch k)"
        if "?parse = Inr (bt, k)" "emit_blocktype c sigs bt = Inr (tb, s2)"
          "catches_bytes c f (takeWhile is_catch k) = Inr cs" for bt k tb s2 cs
        using "2.IH"(5) [OF op n tr that(1) refl that(2) refl that(3)] K(1-3,5) [OF that(1)] that(2) c'
          refs_ok_suffix [OF sd] quiet_suffix [OF sd] sigs_ok_subset [OF _ all_block_sigs_suffix [OF sd]] by blast
      show ?thesis
        unfolding encode_instr.simps op same using tr
        by (auto simp: K(4) body intro!: bindE_cong)
    qed
  qed
next
  case (3 c f sigs)
  then show ?case by (simp add: encode_operands.simps)
next
  case (4 c f sigs k ks)
  have r: "refs_ok c c' [k]" "refs_ok c c' ks"
    using refs_ok_prefix [of c c' "[k]" ks] refs_ok_tl "4.prems"(1) by auto
  have s: "sigs_ok c c' sigs (block_sigs c k)" "sigs_ok c c' sigs (all_block_sigs c ks)"
    using sigs_ok_subset [OF "4.prems"(3)] by auto
  have eq: "encode_instr c' f sigs k = encode_instr c f sigs k"
    using "4.IH"(1) [OF r(1) _ s(1) "4.prems"(4)] "4.prems"(2) by simp
  show ?case
  proof (cases "encode_instr c f sigs k")
    case (Inl e)
    with eq show ?thesis by (simp add: encode_operands.simps)
  next
    case (Inr z)
    then obtain b1 s1 where "encode_instr c f sigs k = Inr (b1, s1)" by (cases z) auto
    with encode_sigs_stable(1) sigs_ok_set [OF s(1)] have e: "encode_instr c f sigs k = Inr (b1, sigs)" by blast
    from "4.IH"(2) [OF e refl r(2) _ s(2) "4.prems"(4)] "4.prems"(2) e eq
    show ?thesis by (simp add: encode_operands.simps)
  qed
next
  case (5 c f sigs lst)
  then show ?case by (simp add: encode_seq.simps)
next
  case (6 c f sigs lst ls pos ks)
  have r: "refs_ok c c' [SList ls pos]" "refs_ok c c' ks" using refs_ok_list [OF "6.prems"(1)] by auto
  have s: "sigs_ok c c' sigs (block_sigs c (SList ls pos))" "sigs_ok c c' sigs (all_block_sigs c ks)"
    using sigs_ok_subset [OF "6.prems"(3)] by auto
  have eq: "encode_instr c' f sigs (SList ls pos) = encode_instr c f sigs (SList ls pos)"
    using "6.IH"(1) [OF r(1) _ s(1) "6.prems"(4)] "6.prems"(2) by simp
  show ?case
  proof (cases "encode_instr c f sigs (SList ls pos)")
    case (Inl e)
    with eq show ?thesis by (simp add: encode_seq.simps)
  next
    case (Inr z)
    then obtain b1 s1 where "encode_instr c f sigs (SList ls pos) = Inr (b1, s1)" by (cases z) auto
    with encode_sigs_stable(1) sigs_ok_set [OF s(1)]
    have e: "encode_instr c f sigs (SList ls pos) = Inr (b1, sigs)" by blast
    from "6.IH"(2) [OF e refl r(2) _ s(2) "6.prems"(4)] "6.prems"(2) e eq
    show ?thesis by (simp add: encode_seq.simps)
  qed
next
  case (7 c f sigs lst str a pos ks)
  have same: "synth_plain c' = synth_plain c" using "7.prems"(4) by simp
  show ?case
  proof (cases "synth_plain c a pos ks")
    case (Inl e)
    with same show ?thesis by (simp add: encode_seq.simps)
  next
    case (Inr z)
    then obtain sy r where k: "synth_plain c a pos ks = Inr (sy, r)" by (cases z) auto
    note Y = synth_refs [OF k "7.prems"(1,2)]
    have s: "sigs_ok c c' sigs (block_sigs c sy)" "sigs_ok c c' sigs (all_block_sigs c r)"
      using sigs_ok_subset [OF "7.prems"(3)] synth_plain_sigs [OF k] by auto
    have eq: "encode_instr c' f sigs sy = encode_instr c f sigs sy"
      by (rule "7.IH"(1) [OF k refl Y(1,3) s(1) "7.prems"(4)])
    show ?thesis
    proof (cases "encode_instr c f sigs sy")
      case (Inl e)
      with eq k same show ?thesis by (simp add: encode_seq.simps)
    next
      case (Inr z)
      then obtain b1 s1 where "encode_instr c f sigs sy = Inr (b1, s1)" by (cases z) auto
      with encode_sigs_stable(1) sigs_ok_set [OF s(1)] have e: "encode_instr c f sigs sy = Inr (b1, sigs)" by blast
      from "7.IH"(2) [OF k refl e refl Y(2,4) s(2) "7.prems"(4)] e eq k same
      show ?thesis by (simp add: encode_seq.simps)
    qed
  qed
next
  case (8 c f sigs ks)
  then show ?case by (simp add: encode_block_body.simps)
qed

end
