(* ===== verification/Wat_Module.thy ===== *)
theory Wat_Module
  imports Wat_Remap
begin

text \<open>
  Module fields, sections and whole modules of the assembler (\<open>src/src/wat2wasm.c\<close>, from "function
  parsing" to the entry points). \<open>collect_module\<close> is the two passes over the fields,
  \<open>assemble\<close> the sections in the order of the specification; the tables that C keeps in growing
  arrays are lists, and a \<open>char *\<close> that may be NULL is an option.
\<close>

section \<open>Fields\<close>

record Func =
  fname :: "string option"
  fexport :: "string option"
  ftype_ref :: "nat option"
  ftype_index :: nat
  fsig :: FuncSig
  fctx :: FuncCtx
  fbody :: "sexpr list"

definition no_locals :: FuncCtx where
  "no_locals = \<lparr>locals = [], fn_params = 0, labels = []\<rparr>"

definition empty_sig :: FuncSig where
  "empty_sig = \<lparr>sparams = [], n_params = 0, sresults = [], n_results = 0\<rparr>"

definition empty_func :: Func where
  "empty_func = \<lparr>fname = None, fexport = None, ftype_ref = None, ftype_index = 0, fsig = empty_sig,
     fctx = no_locals, fbody = []\<rparr>"

text \<open>
  One entry of a \<open>(param ...)\<close>, \<open>(result ...)\<close> or \<open>(local ...)\<close> group: its type is appended to the
  signature buffer with its count, and it becomes a local, where these are given.
\<close>

type_synonym sigbuf = "byte list \<times> nat"

definition group_entry ::
  "Ctx \<Rightarrow> string option \<Rightarrow> sexpr option \<Rightarrow> bool \<Rightarrow> sigbuf option \<times> FuncCtx option
     \<Rightarrow> wat_err + sigbuf option \<times> FuncCtx option" where
  "group_entry c name tn is_param st =
     (let (sg, f) = st in
      bindE (case sg of None \<Rightarrow> Inr None
                      | Some (b, n) \<Rightarrow> bindE (emit_valtype c tn) (\<lambda>t. Inr (Some (b @ t, n + 1)))) (\<lambda>sg.
      bindE (case f of None \<Rightarrow> Inr None
                     | Some f \<Rightarrow> bindE (emit_valtype c tn) (\<lambda>t.
                         let f = fc_add_local f name t
                         in Inr (Some (if is_param then f\<lparr>fn_params := fn_params f + 1\<rparr> else f)))) (\<lambda>f.
      Inr (sg, f))))"

fun group_entries ::
  "Ctx \<Rightarrow> bool \<Rightarrow> sexpr list \<Rightarrow> sigbuf option \<times> FuncCtx option \<Rightarrow> wat_err + sigbuf option \<times> FuncCtx option" where
  "group_entries c is_param [] st = Inr st"
| "group_entries c is_param (k # ks) st =
     bindE (group_entry c None (Some k) is_param st) (group_entries c is_param ks)"

definition collect_group ::
  "Ctx \<Rightarrow> sexpr \<Rightarrow> sigbuf option \<Rightarrow> FuncCtx option \<Rightarrow> bool \<Rightarrow> wat_err + sigbuf option \<times> FuncCtx option" where
  "collect_group c grp sg f is_param =
     (let ks = tl (kids grp) in
      if is_id (first ks) then
        group_entry c (Some (cstr (atom (hd ks)))) (first (tl ks)) is_param (sg, f)
      else group_entries c is_param ks (sg, f))"

definition collect_sig :: "Ctx \<Rightarrow> sexpr \<Rightarrow> sigbuf \<Rightarrow> wat_err + sigbuf" where
  "collect_sig c grp sg = bindE (collect_group c grp (Some sg) None False) (\<lambda>(sg, _). Inr (the sg))"

text \<open>The number of parameters (or of fields, with \<open>key\<close>) a list of groups declares.\<close>

definition group_count :: "sexpr \<Rightarrow> nat" where
  "group_count k = (let p = tl (kids k) in if is_id (first p) then 1 else length p)"

definition count_comptype_params :: "sexpr \<Rightarrow> nat" where
  "count_comptype_params func =
     sum_list (map group_count (filter (\<lambda>k. head (Some k) = Some ''param'') (tl (kids func))))"

definition string_arg :: "sexpr option \<Rightarrow> string option" where
  "string_arg s = (case s of Some (Atom str a _) \<Rightarrow> if str then Some a else None | _ \<Rightarrow> None)"

definition export_arg :: "sexpr \<Rightarrow> wat_err + string" where
  "export_arg k =
     (case string_arg (first (tl (kids k))) of
        Some a \<Rightarrow> Inr a | None \<Rightarrow> Inl (Fail ''(export ...) needs a name string''))"

text \<open>
  The loop of \<open>parse_func\<close>: header fields until the first node that is none of them; that node and
  its siblings are the body.
\<close>

fun func_items :: "Ctx \<Rightarrow> sexpr list \<Rightarrow> Func \<times> sigbuf \<times> sigbuf \<Rightarrow> wat_err + Func \<times> sigbuf \<times> sigbuf" where
  "func_items c [] st = Inr st"
| "func_items c (k # ks) (out, ps, rs) =
     (let h = head (Some k) in
      if is_id (Some k) then func_items c ks (out\<lparr>fname := Some (cstr (atom k))\<rparr>, ps, rs)
      else if h = Some ''export'' then
        bindE (export_arg k) (\<lambda>a. func_items c ks (out\<lparr>fexport := Some a\<rparr>, ps, rs))
      else if h = Some ''type'' then
        bindE (resolve_type c (first (tl (kids k)))) (\<lambda>t. func_items c ks (out\<lparr>ftype_ref := Some t\<rparr>, ps, rs))
      else if h = Some ''param'' then
        bindE (collect_group c k (Some ps) (Some (fctx out)) True) (\<lambda>(ps, f).
          func_items c ks (out\<lparr>fctx := the f\<rparr>, the ps, rs))
      else if h = Some ''result'' then
        bindE (collect_sig c k rs) (\<lambda>rs. func_items c ks (out, ps, rs))
      else if h = Some ''local'' then
        bindE (collect_group c k None (Some (fctx out)) False) (\<lambda>(_, f).
          func_items c ks (out\<lparr>fctx := the f\<rparr>, ps, rs))
      else Inr (out\<lparr>fbody := k # ks\<rparr>, ps, rs))"

definition sig_finalize :: "sigbuf \<Rightarrow> sigbuf \<Rightarrow> FuncSig" where
  "sig_finalize p r = \<lparr>sparams = fst p, n_params = snd p, sresults = fst r, n_results = snd r\<rparr>"

text \<open>One placeholder local for a parameter that only the declared type names.\<close>

definition add_placeholder :: "FuncCtx \<Rightarrow> FuncCtx" where
  "add_placeholder f = (let f = fc_add_local f None [0x7f] in f\<lparr>fn_params := fn_params f + 1\<rparr>)"

definition recover_params :: "Ctx \<Rightarrow> Func \<Rightarrow> nat \<Rightarrow> Func" where
  "recover_params c out n =
     (case ftype_ref out of
        None \<Rightarrow> out
      | Some t \<Rightarrow>
          if n = 0 \<and> t < n_decl_types c \<and> head (Some (comptype (decls c ! t))) = Some ''func''
          then out\<lparr>fctx := (add_placeholder ^^ count_comptype_params (comptype (decls c ! t))) (fctx out)\<rparr>
          else out)"

definition parse_func :: "Ctx \<Rightarrow> sexpr \<Rightarrow> wat_err + Func" where
  "parse_func c fn =
     bindE (func_items c (tl (kids fn)) (empty_func, ([], 0), ([], 0))) (\<lambda>(out, ps, rs).
       Inr (recover_params c (out\<lparr>fsig := sig_finalize ps rs\<rparr>) (snd ps)))"

record Global =
  gname :: "string option"
  gtype :: "byte list"
  gmut :: bool
  ginit :: "sexpr list"

text \<open>\<open>init\<close> is the first node of the initializer; the scan also follows its siblings.\<close>

definition parse_global :: "Ctx \<Rightarrow> sexpr \<Rightarrow> wat_err + Global" where
  "parse_global c g =
     (let (name, k) = take_label (tl (kids g)) in
      case k of
        [] \<Rightarrow> Inl (Fail ''global needs a type'')
      | t # rest \<Rightarrow>
          bindE (if head (Some t) = Some ''mut'' then emit_valtype c (first (tl (kids t)))
                 else emit_valtype c (Some t)) (\<lambda>ty.
            if rest = [] then Inl (Fail ''global needs an init expression'')
            else Inr \<lparr>gname = name, gtype = ty, gmut = (head (Some t) = Some ''mut''), ginit = rest\<rparr>))"

record Import =
  im_module :: string
  im_name :: string
  im_id :: "string option"
  im_type_ref :: "nat option"
  im_sig :: FuncSig
  im_type_index :: nat

fun import_items ::
  "Ctx \<Rightarrow> sexpr list \<Rightarrow> string option \<times> nat option \<times> sigbuf \<times> sigbuf
     \<Rightarrow> wat_err + string option \<times> nat option \<times> sigbuf \<times> sigbuf" where
  "import_items c [] st = Inr st"
| "import_items c (d # ds) (nm, tr, ps, rs) =
     (let h = head (Some d) in
      if is_id (Some d) then import_items c ds (Some (cstr (atom d)), tr, ps, rs)
      else if h = Some ''type'' then
        bindE (resolve_type c (first (tl (kids d)))) (\<lambda>t. import_items c ds (nm, Some t, ps, rs))
      else if h = Some ''param'' then bindE (collect_sig c d ps) (\<lambda>ps. import_items c ds (nm, tr, ps, rs))
      else if h = Some ''result'' then bindE (collect_sig c d rs) (\<lambda>rs. import_items c ds (nm, tr, ps, rs))
      else import_items c ds (nm, tr, ps, rs))"

definition parse_import :: "Ctx \<Rightarrow> sexpr \<Rightarrow> wat_err + Import" where
  "parse_import c imp =
     (let ks = tl (kids imp) in
      case string_arg (first ks) of
        None \<Rightarrow> Inl (Fail ''import needs a module string'')
      | Some m \<Rightarrow>
          (case string_arg (first (drop 1 ks)) of
             None \<Rightarrow> Inl (Fail ''import needs a name string'')
           | Some n \<Rightarrow>
               if head (first (drop 2 ks)) \<noteq> Some ''func'' then
                 Inl (Fail ''only function imports are supported'')
               else
                 bindE (import_items c (tl (kids (the (first (drop 2 ks))))) (None, None, ([], 0), ([], 0)))
                   (\<lambda>(nm, tr, ps, rs).
                     Inr \<lparr>im_module = m, im_name = n, im_id = nm, im_type_ref = tr,
                          im_sig = sig_finalize ps rs, im_type_index = 0\<rparr>)))"

record Tag =
  tg_id :: "string option"
  tg_export :: "string option"
  tg_sig :: FuncSig
  tg_type_index :: nat

fun tag_items ::
  "Ctx \<Rightarrow> sexpr list \<Rightarrow> string option \<times> string option \<times> sigbuf
     \<Rightarrow> wat_err + string option \<times> string option \<times> sigbuf" where
  "tag_items c [] st = Inr st"
| "tag_items c (k # ks) (nm, ex, ps) =
     (let h = head (Some k) in
      if is_id (Some k) then tag_items c ks (Some (cstr (atom k)), ex, ps)
      else if h = Some ''export'' then bindE (export_arg k) (\<lambda>a. tag_items c ks (nm, Some a, ps))
      else if h = Some ''param'' then bindE (collect_sig c k ps) (\<lambda>ps. tag_items c ks (nm, ex, ps))
      else Inl (Fail ''unexpected form in (tag ...)''))"

definition parse_tag :: "Ctx \<Rightarrow> sexpr \<Rightarrow> wat_err + Tag" where
  "parse_tag c tg =
     bindE (tag_items c (tl (kids tg)) (None, None, ([], 0))) (\<lambda>(nm, ex, ps).
       Inr \<lparr>tg_id = nm, tg_export = ex, tg_sig = sig_finalize ps ([], 0), tg_type_index = 0\<rparr>)"

record DataSeg =
  ds_id :: "string option"
  ds_bytes :: "byte list"

fun data_strings :: "sexpr list \<Rightarrow> wat_err + byte list" where
  "data_strings [] = Inr []"
| "data_strings (k # ks) =
     (case string_arg (Some k) of
        None \<Rightarrow> Inl (Fail ''(data ...) expects only a passive byte string'')
      | Some a \<Rightarrow> bindE (data_strings ks) (\<lambda>bs. Inr (map chr_byte a @ bs)))"

definition parse_data :: "sexpr \<Rightarrow> wat_err + DataSeg" where
  "parse_data dn =
     (let (nm, k) = take_label (tl (kids dn)) in
      bindE (data_strings k) (\<lambda>bs. Inr \<lparr>ds_id = nm, ds_bytes = bs\<rparr>))"

section \<open>Declared types\<close>

text \<open>The children of a \<open>(sub ...)\<close>: at most eight supertypes, and the composite type (the last one).\<close>

fun sub_items :: "sexpr list \<Rightarrow> sexpr list \<Rightarrow> sexpr option \<Rightarrow> wat_err + sexpr list \<times> sexpr option" where
  "sub_items [] sups ct = Inr (sups, ct)"
| "sub_items (s # ss) sups ct =
     (if is_id (Some s) then
        (if length sups \<ge> 8 then Inl (Fail ''too many supertypes'') else sub_items ss (sups @ [s]) ct)
      else sub_items ss sups (Some s))"

definition group_names :: "sexpr \<Rightarrow> string option list" where
  "group_names fk =
     (let p = tl (kids fk) in
      if is_id (first p) then [Some (cstr (atom (hd p)))] else map (\<lambda>_. None) p)"

definition struct_field_names :: "sexpr \<Rightarrow> string option list" where
  "struct_field_names ct =
     (if head (Some ct) = Some ''struct''
      then concat (map group_names (filter (\<lambda>fk. head (Some fk) = Some ''field'') (tl (kids ct))))
      else [])"

definition parse_decltype :: "sexpr \<Rightarrow> wat_err + DeclType" where
  "parse_decltype tn =
     (let (name, k) = take_label (tl (kids tn)) in
      case k of
        [] \<Rightarrow> Inl (Fail ''type needs a definition'')
      | d # _ \<Rightarrow>
          if head (Some d) = Some ''sub'' then
            (let s = tl (kids d); final = atom_eq (first s) ''final'' in
             bindE (sub_items (if final then tl s else s) [] None) (\<lambda>(sups, ct).
               case ct of
                 None \<Rightarrow> Inl (Fail ''(sub ...) without a type definition'')
               | Some ct \<Rightarrow> Inr \<lparr>dname = name, comptype = ct, has_sub = True, is_final = final,
                                supers = sups, field_names = struct_field_names ct\<rparr>))
          else Inr \<lparr>dname = name, comptype = d, has_sub = False, is_final = False, supers = [],
                    field_names = struct_field_names d\<rparr>)"

definition emit_one_field :: "Ctx \<Rightarrow> sexpr option \<Rightarrow> wat_err + byte list" where
  "emit_one_field c ft =
     (if head ft = Some ''mut'' then
        bindE (emit_storagetype c (first (tl (kids (the ft))))) (\<lambda>bs. Inr (bs @ [1]))
      else bindE (emit_storagetype c ft) (\<lambda>bs. Inr (bs @ [0])))"

fun emit_fields :: "Ctx \<Rightarrow> sexpr list \<Rightarrow> wat_err + byte list \<times> nat" where
  "emit_fields c [] = Inr ([], 0)"
| "emit_fields c (k # ks) =
     bindE (emit_one_field c (Some k)) (\<lambda>b. bindE (emit_fields c ks) (\<lambda>(bs, n). Inr (b @ bs, n + 1)))"

definition emit_field_group :: "Ctx \<Rightarrow> sexpr \<Rightarrow> wat_err + byte list \<times> nat" where
  "emit_field_group c grp =
     (let k = tl (kids grp) in
      if is_id (first k) then bindE (emit_one_field c (first (tl k))) (\<lambda>b. Inr (b, 1))
      else emit_fields c k)"

fun comp_fields :: "Ctx \<Rightarrow> sexpr list \<Rightarrow> wat_err + byte list \<times> nat" where
  "comp_fields c [] = Inr ([], 0)"
| "comp_fields c (k # ks) =
     (if head (Some k) = Some ''field'' then
        bindE (emit_field_group c k) (\<lambda>(b, m). bindE (comp_fields c ks) (\<lambda>(bs, n). Inr (b @ bs, m + n)))
      else comp_fields c ks)"

fun comp_sig :: "Ctx \<Rightarrow> sexpr list \<Rightarrow> sigbuf \<times> sigbuf \<Rightarrow> wat_err + sigbuf \<times> sigbuf" where
  "comp_sig c [] st = Inr st"
| "comp_sig c (k # ks) (p, r) =
     (let h = head (Some k) in
      if h = Some ''param'' then bindE (collect_sig c k p) (\<lambda>p. comp_sig c ks (p, r))
      else if h = Some ''result'' then bindE (collect_sig c k r) (\<lambda>r. comp_sig c ks (p, r))
      else comp_sig c ks (p, r))"

definition emit_comptype :: "Ctx \<Rightarrow> sexpr \<Rightarrow> wat_err + byte list" where
  "emit_comptype c ct =
     (case head (Some ct) of
        None \<Rightarrow> Inl (Fail ''invalid type definition'')
      | Some h \<Rightarrow>
          if h = ''func'' then
            bindE (comp_sig c (tl (kids ct)) (([], 0), ([], 0))) (\<lambda>(p, r).
              Inr (0x60 # uleb_n (snd p) @ fst p @ uleb_n (snd r) @ fst r))
          else if h = ''struct'' then
            bindE (comp_fields c (tl (kids ct))) (\<lambda>(bs, n). Inr (0x5f # uleb_n n @ bs))
          else if h = ''array'' then
            bindE (emit_one_field c (first (tl (kids ct)))) (\<lambda>bs. Inr (0x5e # bs))
          else Inl (Fail (''unsupported type definition '' @ quoted h)))"

fun super_bytes :: "Ctx \<Rightarrow> sexpr list \<Rightarrow> wat_err + byte list" where
  "super_bytes c [] = Inr []"
| "super_bytes c (s # ss) =
     bindE (resolve_type c (Some s)) (\<lambda>i. bindE (super_bytes c ss) (\<lambda>bs. Inr (uleb_n i @ bs)))"

definition emit_subtype :: "Ctx \<Rightarrow> DeclType \<Rightarrow> wat_err + byte list" where
  "emit_subtype c d =
     bindE (if has_sub d
            then bindE (super_bytes c (supers d)) (\<lambda>bs.
                   Inr ((if is_final d then 0x4f else 0x50) # uleb_n (length (supers d)) @ bs))
            else Inr []) (\<lambda>pre.
     bindE (emit_comptype c (comptype d)) (\<lambda>bs. Inr (pre @ bs)))"

section \<open>The walks over the code\<close>

text \<open>\<open>prewalk_instr\<close>: every block signature into the table, before the type section is written.\<close>

definition prewalk_block :: "Ctx \<Rightarrow> sexpr list \<Rightarrow> FuncSig list \<Rightarrow> wat_err + FuncSig list" where
  "prewalk_block c args sigs =
     bindE (parse_blocktype c (snd (take_label args)) empty_bt) (\<lambda>(bt, _).
       Inr (if bt_interned bt then snd (sig_intern sigs (bt_sig bt)) else sigs))"

fun prewalk_instr :: "Ctx \<Rightarrow> sexpr \<Rightarrow> FuncSig list \<Rightarrow> wat_err + FuncSig list"
  and prewalk_seq :: "Ctx \<Rightarrow> sexpr list \<Rightarrow> FuncSig list \<Rightarrow> wat_err + FuncSig list" where
  "prewalk_instr c (Atom _ _ _) sigs = Inr sigs"
| "prewalk_instr c (SList [] p) sigs = Inr sigs"
| "prewalk_instr c (SList (k # ks) p) sigs =
     bindE (if is_block_op (head (Some (SList (k # ks) p))) then prewalk_block c ks sigs else Inr sigs)
       (prewalk_seq c ks)"
| "prewalk_seq c [] sigs = Inr sigs"
| "prewalk_seq c (k # ks) sigs = bindE (prewalk_instr c k sigs) (prewalk_seq c ks)"

text \<open>A write \<open>a[i] = 1\<close> into an array of flags.\<close>

definition set_flag :: "nat \<Rightarrow> bool list \<Rightarrow> wat_err + bool list" where
  "set_flag i a = (if i < length a then Inr (a[i := True]) else Inl OutOfBounds)"

fun collect_reffunc :: "Ctx \<Rightarrow> sexpr \<Rightarrow> bool list \<Rightarrow> wat_err + bool list"
  and collect_reffuncs :: "Ctx \<Rightarrow> sexpr list \<Rightarrow> bool list \<Rightarrow> wat_err + bool list" where
  "collect_reffunc c (Atom _ _ _) declared = Inr declared"
| "collect_reffunc c (SList [] p) declared = Inr declared"
| "collect_reffunc c (SList (k # ks) p) declared =
     bindE (if head (Some (SList (k # ks) p)) = Some ''ref.func''
            then bindE (resolve_index (func_names c) (first ks) ''function'') (\<lambda>i. set_flag i declared)
            else Inr declared)
       (collect_reffuncs c ks)"
| "collect_reffuncs c [] declared = Inr declared"
| "collect_reffuncs c (k # ks) declared = bindE (collect_reffunc c k declared) (collect_reffuncs c ks)"

text \<open>\<open>sig_mark_blocks\<close>; a signature that were not in the table would be marked out of bounds.\<close>

definition mark_block :: "Ctx \<Rightarrow> FuncSig list \<Rightarrow> sexpr list \<Rightarrow> bool list \<Rightarrow> wat_err + bool list" where
  "mark_block c sigs args sig_live =
     bindE (parse_blocktype c (snd (take_label args)) empty_bt) (\<lambda>(bt, _).
       if bt_interned bt then set_flag (fst (sig_intern sigs (bt_sig bt))) sig_live else Inr sig_live)"

fun sig_mark_blocks :: "Ctx \<Rightarrow> FuncSig list \<Rightarrow> sexpr list \<Rightarrow> bool list \<Rightarrow> wat_err + bool list" where
  "sig_mark_blocks c sigs [] sig_live = Inr sig_live"
| "sig_mark_blocks c sigs (Atom _ _ _ # rest) sig_live = sig_mark_blocks c sigs rest sig_live"
| "sig_mark_blocks c sigs (SList [] p # rest) sig_live = sig_mark_blocks c sigs rest sig_live"
| "sig_mark_blocks c sigs (SList (k # ks) p # rest) sig_live =
     bindE (if is_block_op (head (Some (SList (k # ks) p))) then mark_block c sigs ks sig_live
            else Inr sig_live) (\<lambda>sig_live.
     bindE (sig_mark_blocks c sigs ks sig_live) (sig_mark_blocks c sigs rest))"

section \<open>Sections\<close>

definition put_section :: "byte \<Rightarrow> byte list \<Rightarrow> byte list" where
  "put_section sid body = (if body = [] then [] else sid # uleb_n (length body) @ body)"

text \<open>The runs of equal types among the declared locals.\<close>

function rle :: "byte list list \<Rightarrow> (nat \<times> byte list) list" where
  "rle [] = []"
| "rle (t # ts) = (1 + length (takeWhile (\<lambda>u. u = t) ts), t) # rle (dropWhile (\<lambda>u. u = t) ts)"
  by pat_completeness auto
termination
  by (relation "measure length") (auto simp: le_imp_less_Suc length_dropWhile_le)

definition local_bytes :: "(nat \<times> byte list) list \<Rightarrow> byte list" where
  "local_bytes gs = concat (map (\<lambda>(n, t). uleb_n n @ t) gs)"

definition encode_code :: "Ctx \<Rightarrow> FuncSig list \<Rightarrow> Func \<Rightarrow> wat_err + byte list \<times> FuncSig list" where
  "encode_code c sigs fn =
     (let gs = rle (map ltype (drop (fn_params (fctx fn)) (locals (fctx fn)))) in
      bindE (encode_block_body c (fctx fn) sigs (fbody fn)) (\<lambda>(body, sigs).
        let entry = uleb_n (length gs) @ local_bytes gs @ body @ [0x0b]
        in Inr (uleb_n (length entry) @ entry, sigs)))"

fun encode_codes :: "Ctx \<Rightarrow> FuncSig list \<Rightarrow> Func list \<Rightarrow> wat_err + byte list \<times> FuncSig list" where
  "encode_codes c sigs [] = Inr ([], sigs)"
| "encode_codes c sigs (fn # fns) =
     bindE (encode_code c sigs fn) (\<lambda>(b, sigs).
     bindE (encode_codes c sigs fns) (\<lambda>(bs, sigs). Inr (b @ bs, sigs)))"

end
