(* ===== verification/Wat_Assemble.thy ===== *)
theory Wat_Assemble
  imports Wat_Module
begin

text \<open>
  \<open>assemble\<close>, \<open>wat_assemble\<close> and \<open>wat_dead_names\<close> of \<open>src/src/wat2wasm.c\<close>: the two passes over the
  module's fields, the name tables, dead-code elimination, and the sections in the order the
  specification wants, each as one definition over what the passes collected.
\<close>

section \<open>Pass A: declared types\<close>

record TypeGroup =
  is_rec :: bool
  gstart :: nat
  gcount :: nat

fun rec_types :: "sexpr list \<Rightarrow> DeclType list \<Rightarrow> wat_err + DeclType list" where
  "rec_types [] ds = Inr ds"
| "rec_types (t # ts) ds =
     (if head (Some t) \<noteq> Some ''type'' then Inl (Fail ''(rec ...) holds types'')
      else bindE (parse_decltype t) (\<lambda>d. rec_types ts (ds @ [d])))"

fun pass_a :: "sexpr list \<Rightarrow> DeclType list \<times> TypeGroup list \<Rightarrow> wat_err + DeclType list \<times> TypeGroup list" where
  "pass_a [] st = Inr st"
| "pass_a (k # ks) (ds, gs) =
     (let h = head (Some k) in
      if h = Some ''type'' then
        bindE (parse_decltype k) (\<lambda>d.
          pass_a ks (ds @ [d], gs @ [\<lparr>is_rec = False, gstart = length ds, gcount = 1\<rparr>]))
      else if h = Some ''rec'' then
        bindE (rec_types (tl (kids k)) ds) (\<lambda>es.
          pass_a ks (es, gs @ [\<lparr>is_rec = True, gstart = length ds, gcount = length es - length ds\<rparr>]))
      else pass_a ks (ds, gs))"

section \<open>Pass B: everything else\<close>

record Fields =
  m_imports :: "Import list"
  m_funcs :: "Func list"
  m_globals :: "Global list"
  m_tags :: "Tag list"
  m_datas :: "DataSeg list"
  m_elems :: "sexpr list"
  m_sigs :: "FuncSig list"

definition no_fields :: Fields where
  "no_fields = \<lparr>m_imports = [], m_funcs = [], m_globals = [], m_tags = [], m_datas = [], m_elems = [],
     m_sigs = []\<rparr>"

text \<open>\<open>has_type_ref ? type_ref : (uint32_t)(n_decls + sig_intern(...))\<close>\<close>

definition type_of_sig :: "Ctx \<Rightarrow> nat option \<Rightarrow> FuncSig \<Rightarrow> FuncSig list \<Rightarrow> nat \<times> FuncSig list" where
  "type_of_sig c tr s sigs =
     (case tr of
        Some t \<Rightarrow> (t, sigs)
      | None \<Rightarrow> let (i, sigs) = sig_intern sigs s in ((n_decl_types c + i) mod 2 ^ 32, sigs))"

definition add_field :: "Ctx \<Rightarrow> sexpr \<Rightarrow> Fields \<Rightarrow> wat_err + Fields" where
  "add_field c k m =
     (case head (Some k) of
        None \<Rightarrow> Inl (Fail ''unsupported module field'')
      | Some h \<Rightarrow>
          if h = ''import'' then
            bindE (parse_import c k) (\<lambda>im.
              let (t, sigs) = type_of_sig c (im_type_ref im) (im_sig im) (m_sigs m)
              in Inr (m\<lparr>m_imports := m_imports m @ [im\<lparr>im_type_index := t\<rparr>], m_sigs := sigs\<rparr>))
          else if h = ''func'' then
            bindE (parse_func c k) (\<lambda>fn.
              let (t, sigs) = type_of_sig c (ftype_ref fn) (fsig fn) (m_sigs m)
              in Inr (m\<lparr>m_funcs := m_funcs m @ [fn\<lparr>ftype_index := t\<rparr>], m_sigs := sigs\<rparr>))
          else if h = ''global'' then
            bindE (parse_global c k) (\<lambda>g. Inr (m\<lparr>m_globals := m_globals m @ [g]\<rparr>))
          else if h = ''tag'' then
            bindE (parse_tag c k) (\<lambda>tg.
              let (t, sigs) = type_of_sig c None (tg_sig tg) (m_sigs m)
              in Inr (m\<lparr>m_tags := m_tags m @ [tg\<lparr>tg_type_index := t\<rparr>], m_sigs := sigs\<rparr>))
          else if h = ''data'' then
            bindE (parse_data k) (\<lambda>d. Inr (m\<lparr>m_datas := m_datas m @ [d]\<rparr>))
          else if h = ''elem'' then Inr (m\<lparr>m_elems := m_elems m @ [k]\<rparr>)
          else if h = ''type'' \<or> h = ''rec'' then Inr m
          else Inl (Fail (''unsupported module field '' @ quoted h)))"

fun pass_b :: "Ctx \<Rightarrow> sexpr list \<Rightarrow> Fields \<Rightarrow> wat_err + Fields" where
  "pass_b c [] m = Inr m"
| "pass_b c (k # ks) m = bindE (add_field c k m) (pass_b c ks)"

definition n_imports :: "Fields \<Rightarrow> nat" where
  "n_imports m = length (m_imports m)"

definition n_all_funcs :: "Fields \<Rightarrow> nat" where
  "n_all_funcs m = n_imports m + length (m_funcs m)"

definition with_names :: "Ctx \<Rightarrow> Fields \<Rightarrow> Ctx" where
  "with_names c m =
     c\<lparr>func_names := map im_id (m_imports m) @ map fname (m_funcs m),
       global_names := map gname (m_globals m),
       tag_names := map tg_id (m_tags m),
       data_names := map ds_id (m_datas m)\<rparr>"

section \<open>Dead-code elimination\<close>

definition dce_body :: "Fields \<Rightarrow> nat \<Rightarrow> sexpr list" where
  "dce_body m e =
     (if e < n_all_funcs m then
        (if e < n_imports m then [] else fbody (m_funcs m ! (e - n_imports m)))
      else ginit (m_globals m ! (e - n_all_funcs m)))"

definition dce_roots :: "Fields \<Rightarrow> nat list" where
  "dce_roots m =
     map (\<lambda>i. n_imports m + i) (filter (\<lambda>i. fexport (m_funcs m ! i) \<noteq> None) [0..<length (m_funcs m)])"

definition dce_universe :: "Fields \<Rightarrow> nat" where
  "dce_universe m = n_all_funcs m + length (m_globals m)"

definition dce_reach :: "Ctx \<Rightarrow> Fields \<Rightarrow> wat_err + bool list" where
  "dce_reach c m = dce_run c (dce_body m) (dce_roots m) (dce_universe m)"

text \<open>What is kept: \<open>FUNC_LIVE\<close> and \<open>GLOBAL_LIVE\<close> (everything, without elimination).\<close>

definition live_funcs :: "Fields \<Rightarrow> bool list option \<Rightarrow> bool list" where
  "live_funcs m reach =
     (case reach of None \<Rightarrow> replicate (length (m_funcs m)) True
                  | Some r \<Rightarrow> map (\<lambda>i. r ! (n_imports m + i)) [0..<length (m_funcs m)])"

definition live_globals :: "Fields \<Rightarrow> bool list option \<Rightarrow> bool list" where
  "live_globals m reach =
     (case reach of None \<Rightarrow> replicate (length (m_globals m)) True
                  | Some r \<Rightarrow> map (\<lambda>i. r ! (n_all_funcs m + i)) [0..<length (m_globals m)])"

definition with_remaps :: "Ctx \<Rightarrow> Fields \<Rightarrow> bool list option \<Rightarrow> Ctx" where
  "with_remaps c m reach =
     (case reach of
        None \<Rightarrow> c
      | Some r \<Rightarrow> c\<lparr>func_remap := Some ([0..<n_imports m] @ number_live (n_imports m) (live_funcs m reach)),
                    global_remap := Some (number_live 0 (live_globals m reach))\<rparr>)"

text \<open>The names of the dropped functions and globals, one a line; anonymous ones are skipped.\<close>

definition dead_names :: "Fields \<Rightarrow> bool list \<Rightarrow> string" where
  "dead_names m r =
     concat (map (\<lambda>(nm, lv). case nm of Some s \<Rightarrow> if lv then [] else s @ [LF] | None \<Rightarrow> [])
               (zip (map fname (m_funcs m)) (live_funcs m (Some r))
                @ zip (map gname (m_globals m)) (live_globals m (Some r))))"

fun select_live :: "'a list \<Rightarrow> bool list \<Rightarrow> 'a list" where
  "select_live (x # xs) (b # bs) = (if b then x # select_live xs bs else select_live xs bs)"
| "select_live _ _ = []"

fun prewalk_funcs :: "Ctx \<Rightarrow> Func list \<Rightarrow> FuncSig list \<Rightarrow> wat_err + FuncSig list" where
  "prewalk_funcs c [] sigs = Inr sigs"
| "prewalk_funcs c (fn # fns) sigs = bindE (prewalk_seq c (fbody fn) sigs) (prewalk_funcs c fns)"

subsection \<open>Live signatures\<close>

definition mark_type :: "Ctx \<Rightarrow> nat \<Rightarrow> bool list \<Rightarrow> wat_err + bool list" where
  "mark_type c t sig_live =
     (if t \<ge> n_decl_types c then set_flag (t - n_decl_types c) sig_live else Inr sig_live)"

fun mark_types :: "Ctx \<Rightarrow> nat list \<Rightarrow> bool list \<Rightarrow> wat_err + bool list" where
  "mark_types c [] sig_live = Inr sig_live"
| "mark_types c (t # ts) sig_live = bindE (mark_type c t sig_live) (mark_types c ts)"

fun mark_func_sigs :: "Ctx \<Rightarrow> FuncSig list \<Rightarrow> Func list \<Rightarrow> bool list \<Rightarrow> wat_err + bool list" where
  "mark_func_sigs c sigs [] sig_live = Inr sig_live"
| "mark_func_sigs c sigs (fn # fns) sig_live =
     bindE (mark_type c (ftype_index fn) sig_live) (\<lambda>sig_live.
     bindE (sig_mark_blocks c sigs (fbody fn) sig_live) (mark_func_sigs c sigs fns))"

definition live_sigs :: "Ctx \<Rightarrow> Fields \<Rightarrow> bool list \<Rightarrow> wat_err + bool list" where
  "live_sigs c m lf =
     bindE (mark_types c (map im_type_index (m_imports m)) (replicate (length (m_sigs m)) False)) (\<lambda>sl.
     bindE (mark_types c (map tg_type_index (m_tags m)) sl)
       (mark_func_sigs c (m_sigs m) (select_live (m_funcs m) lf)))"

section \<open>The sections\<close>

fun emit_subtypes :: "Ctx \<Rightarrow> DeclType list \<Rightarrow> wat_err + byte list" where
  "emit_subtypes c [] = Inr []"
| "emit_subtypes c (d # ds) = bindE (emit_subtype c d) (\<lambda>b. bindE (emit_subtypes c ds) (\<lambda>bs. Inr (b @ bs)))"

definition emit_group :: "Ctx \<Rightarrow> TypeGroup \<Rightarrow> wat_err + byte list" where
  "emit_group c g =
     bindE (emit_subtypes c (take (gcount g) (drop (gstart g) (decls c)))) (\<lambda>bs.
       Inr (if is_rec g then 0x4e # uleb_n (gcount g) @ bs else bs))"

fun emit_groups :: "Ctx \<Rightarrow> TypeGroup list \<Rightarrow> wat_err + byte list" where
  "emit_groups c [] = Inr []"
| "emit_groups c (g # gs) = bindE (emit_group c g) (\<lambda>b. bindE (emit_groups c gs) (\<lambda>bs. Inr (b @ bs)))"

definition sig_bytes :: "FuncSig \<Rightarrow> byte list" where
  "sig_bytes s = 0x60 # uleb_n (n_params s) @ sparams s @ uleb_n (n_results s) @ sresults s"

definition kept_sigs :: "nat list option \<Rightarrow> FuncSig list \<Rightarrow> FuncSig list" where
  "kept_sigs r sigs =
     (case r of None \<Rightarrow> sigs
              | Some r \<Rightarrow> map (\<lambda>i. sigs ! i) (filter (\<lambda>i. r ! i \<noteq> DEAD) [0..<length sigs]))"

definition type_section :: "Ctx \<Rightarrow> TypeGroup list \<Rightarrow> FuncSig list \<Rightarrow> nat \<Rightarrow> wat_err + byte list" where
  "type_section c gs sigs n_live_sigs =
     bindE (emit_groups c gs) (\<lambda>gb.
       Inr (uleb_n (length gs + n_live_sigs) @ gb @ concat (map sig_bytes (kept_sigs (sig_remap c) sigs))))"

definition str_bytes :: "string \<Rightarrow> byte list" where
  "str_bytes s = uleb_n (length s) @ map chr_byte s"

fun import_entries :: "Ctx \<Rightarrow> Import list \<Rightarrow> wat_err + byte list" where
  "import_entries c [] = Inr []"
| "import_entries c (im # ims) =
     bindE (map_typeidx c (im_type_index im)) (\<lambda>t.
     bindE (import_entries c ims) (\<lambda>bs.
       Inr (str_bytes (im_module im) @ str_bytes (im_name im) @ 0x00 # uleb_n t @ bs)))"

fun type_indices :: "Ctx \<Rightarrow> byte list \<Rightarrow> nat list \<Rightarrow> wat_err + byte list" where
  "type_indices c pre [] = Inr []"
| "type_indices c pre (t # ts) =
     bindE (map_typeidx c t) (\<lambda>i. bindE (type_indices c pre ts) (\<lambda>bs. Inr (pre @ uleb_n i @ bs)))"

fun global_entries :: "Ctx \<Rightarrow> FuncSig list \<Rightarrow> Global list \<Rightarrow> wat_err + byte list \<times> FuncSig list" where
  "global_entries c sigs [] = Inr ([], sigs)"
| "global_entries c sigs (g # gs) =
     bindE (encode_instr c no_locals sigs (hd (ginit g))) (\<lambda>(b, sigs).
     bindE (global_entries c sigs gs) (\<lambda>(bs, sigs).
       Inr (gtype g @ (if gmut g then 1 else 0) # b @ 0x0b # bs, sigs)))"

fun func_exports :: "Ctx \<Rightarrow> nat \<Rightarrow> Func list \<Rightarrow> wat_err + byte list" where
  "func_exports c i [] = Inr []"
| "func_exports c i (fn # fns) =
     (case fexport fn of
        None \<Rightarrow> func_exports c (i + 1) fns
      | Some s \<Rightarrow>
          bindE (map_func c i) (\<lambda>j.
          bindE (func_exports c (i + 1) fns) (\<lambda>bs. Inr (str_bytes s @ 0x00 # uleb_n j @ bs))))"

fun tag_exports :: "nat \<Rightarrow> Tag list \<Rightarrow> byte list" where
  "tag_exports i [] = []"
| "tag_exports i (tg # tgs) =
     (case tg_export tg of
        None \<Rightarrow> tag_exports (i + 1) tgs
      | Some s \<Rightarrow> str_bytes s @ 0x04 # uleb_n i @ tag_exports (i + 1) tgs)"

definition export_section :: "Ctx \<Rightarrow> Fields \<Rightarrow> wat_err + byte list" where
  "export_section c m =
     bindE (func_exports c (n_imports m) (m_funcs m)) (\<lambda>fb.
       Inr (uleb_n (length (filter (\<lambda>fn. fexport fn \<noteq> None) (m_funcs m))
                    + length (filter (\<lambda>tg. tg_export tg \<noteq> None) (m_tags m)))
            @ fb @ tag_exports 0 (m_tags m)))"

text \<open>The functions that are operands of \<open>ref.func\<close>: declared ones, then all bodies and initializers.\<close>

fun declare_all :: "Ctx \<Rightarrow> sexpr list \<Rightarrow> bool list \<Rightarrow> wat_err + bool list" where
  "declare_all c [] declared = Inr declared"
| "declare_all c (p # ps) declared =
     bindE (resolve_index (func_names c) (Some p) ''function'') (\<lambda>i.
     bindE (set_flag i declared) (declare_all c ps))"

fun declare_elems :: "Ctx \<Rightarrow> sexpr list \<Rightarrow> bool list \<Rightarrow> wat_err + bool list" where
  "declare_elems c [] declared = Inr declared"
| "declare_elems c (el # els) declared =
     (let k = tl (kids el) in
      if \<not> atom_eq (first k) ''declare'' then Inl (Fail ''only (elem declare func ...) is supported'')
      else if \<not> atom_eq (first (tl k)) ''func'' then Inl (Fail ''only (elem declare func ...) is supported'')
      else bindE (declare_all c (drop 2 k) declared) (declare_elems c els))"

fun declare_bodies :: "Ctx \<Rightarrow> Func list \<Rightarrow> bool list \<Rightarrow> wat_err + bool list" where
  "declare_bodies c [] declared = Inr declared"
| "declare_bodies c (fn # fns) declared =
     bindE (collect_reffuncs c (fbody fn) declared) (declare_bodies c fns)"

fun declare_inits :: "Ctx \<Rightarrow> Global list \<Rightarrow> bool list \<Rightarrow> wat_err + bool list" where
  "declare_inits c [] declared = Inr declared"
| "declare_inits c (g # gs) declared =
     bindE (collect_reffunc c (hd (ginit g)) declared) (declare_inits c gs)"

definition declared_funcs :: "Ctx \<Rightarrow> Fields \<Rightarrow> bool list option \<Rightarrow> wat_err + nat list" where
  "declared_funcs c m reach =
     bindE (declare_elems c (m_elems m) (replicate (max 1 (n_all_funcs m)) False)) (\<lambda>d.
     bindE (declare_bodies c (m_funcs m) d) (\<lambda>d.
     bindE (declare_inits c (m_globals m) d) (\<lambda>d.
       Inr (filter (\<lambda>i. d ! i \<and> (case reach of None \<Rightarrow> True | Some r \<Rightarrow> r ! i)) [0..<n_all_funcs m]))))"

fun func_indices :: "Ctx \<Rightarrow> nat list \<Rightarrow> wat_err + byte list" where
  "func_indices c [] = Inr []"
| "func_indices c (i # ks) =
     bindE (map_func c i) (\<lambda>j. bindE (func_indices c ks) (\<lambda>bs. Inr (uleb_n j @ bs)))"

definition elem_section :: "Ctx \<Rightarrow> Fields \<Rightarrow> bool list option \<Rightarrow> wat_err + byte list" where
  "elem_section c m reach =
     bindE (declared_funcs c m reach) (\<lambda>ds.
     bindE (func_indices c ds) (\<lambda>bs.
       Inr (if ds = [] then uleb_n 0 else uleb_n 1 @ [0x03, 0x00] @ uleb_n (length ds) @ bs)))"

definition data_section :: "Fields \<Rightarrow> byte list" where
  "data_section m =
     uleb_n (length (m_datas m))
     @ concat (map (\<lambda>d. 0x01 # uleb_n (length (ds_bytes d)) @ ds_bytes d) (m_datas m))"

definition wasm_header :: "byte list" where
  "wasm_header = [0x00, 0x61, 0x73, 0x6d, 0x01, 0x00, 0x00, 0x00]"

section \<open>The module\<close>

text \<open>What the passes collect, with the context that knows every name.\<close>

record Module =
  mctx :: Ctx
  mgroups :: "TypeGroup list"
  mfields :: Fields

definition collect_module :: "string \<Rightarrow> fp_env \<Rightarrow> sexpr option \<Rightarrow> wat_err + Module" where
  "collect_module src fe module =
     (case module of
        Some (SList (k # ks) _) \<Rightarrow>
          if \<not> atom_eq (Some k) ''module'' then Inl (Fail ''expected a top-level (module ...)'')
          else bindE (pass_a ks ([], [])) (\<lambda>(ds, gs).
                 let c = \<lparr>csrc = src, cfe = fe, func_names = [], global_names = [], tag_names = [],
                          data_names = [], decls = ds, func_remap = None, global_remap = None,
                          sig_remap = None\<rparr>
                 in bindE (pass_b c ks no_fields) (\<lambda>m.
                      Inr \<lparr>mctx = with_names c m, mgroups = gs, mfields = m\<rparr>))
      | _ \<Rightarrow> Inl (Fail ''expected a top-level (module ...)''))"

text \<open>The remap of the signatures, when there is elimination and there are signatures.\<close>

definition with_sig_remap :: "Ctx \<Rightarrow> Fields \<Rightarrow> bool list option \<Rightarrow> wat_err + Ctx \<times> nat" where
  "with_sig_remap c m reach =
     (if reach = None \<or> m_sigs m = [] then Inr (c, length (m_sigs m))
      else bindE (live_sigs c m (live_funcs m reach)) (\<lambda>sl.
             Inr (c\<lparr>sig_remap := Some (number_live 0 sl)\<rparr>, n_live sl)))"

definition emit_module ::
  "Ctx \<Rightarrow> TypeGroup list \<Rightarrow> Fields \<Rightarrow> bool list option \<Rightarrow> nat \<Rightarrow> wat_err + byte list" where
  "emit_module c gs m reach n_live_sigs =
     (let lf = select_live (m_funcs m) (live_funcs m reach);
          lg = select_live (m_globals m) (live_globals m reach) in
      bindE (type_section c gs (m_sigs m) n_live_sigs) (\<lambda>types.
      bindE (import_entries c (m_imports m)) (\<lambda>imports.
      bindE (type_indices c [] (map ftype_index lf)) (\<lambda>funcsec.
      bindE (type_indices c [0x00] (map tg_type_index (m_tags m))) (\<lambda>tagsec.
      bindE (global_entries c (m_sigs m) lg) (\<lambda>(globalsec, sigs).
      bindE (export_section c m) (\<lambda>exports.
      bindE (elem_section c m reach) (\<lambda>elemsec.
      bindE (encode_codes c sigs lf) (\<lambda>(code, _).
        Inr (wasm_header
             @ put_section 1 types
             @ put_section 2 (uleb_n (n_imports m) @ imports)
             @ put_section 3 (uleb_n (length lf) @ funcsec)
             @ put_section 13 (uleb_n (length (m_tags m)) @ tagsec)
             @ put_section 6 (uleb_n (length lg) @ globalsec)
             @ put_section 7 exports
             @ put_section 9 elemsec
             @ (if m_datas m = [] then [] else put_section 12 (uleb_n (length (m_datas m))))
             @ put_section 10 (uleb_n (length lf) @ code)
             @ put_section 11 (data_section m)))))))))))"

text \<open>The bytes, and under elimination the names of what was dropped.\<close>

definition assemble :: "string \<Rightarrow> fp_env \<Rightarrow> sexpr option \<Rightarrow> bool \<Rightarrow> wat_err + byte list \<times> string option" where
  "assemble src fe module dce =
     bindE (collect_module src fe module) (\<lambda>md.
     bindE (if dce then bindE (dce_reach (mctx md) (mfields md)) (\<lambda>r. Inr (Some r)) else Inr None) (\<lambda>reach.
     let c = with_remaps (mctx md) (mfields md) reach in
     bindE (prewalk_funcs c (m_funcs (mfields md)) (m_sigs (mfields md))) (\<lambda>sigs.
     let m = (mfields md)\<lparr>m_sigs := sigs\<rparr> in
     bindE (with_sig_remap c m reach) (\<lambda>(c, n).
     bindE (emit_module c (mgroups md) m reach n) (\<lambda>bs.
       Inr (bs, map_option (dead_names m) reach))))))"

definition wat_assemble :: "string \<Rightarrow> fp_env \<Rightarrow> bool \<Rightarrow> wat_err + byte list" where
  "wat_assemble src fe dce =
     bindE (read_module src) (\<lambda>m. bindE (assemble src fe m dce) (\<lambda>(bs, _). Inr bs))"

definition wat_dead_names :: "string \<Rightarrow> fp_env \<Rightarrow> wat_err + string" where
  "wat_dead_names src fe =
     bindE (read_module src) (\<lambda>m. bindE (assemble src fe m True) (\<lambda>(_, dn). Inr (the dn)))"

end
