(* ===== verification/Wat_Correct.thy ===== *)
theory Wat_Correct
  imports Wat_Assemble
begin

text \<open>
  Correctness of the assembler's output (\<open>src/src/wat2wasm.c\<close>): the signature table is complete
  before the type section is written, the sections decode in the order of the specification, the
  locals of a code entry decode to the declared ones, and dead-code elimination neither drops
  what is used nor lets a dropped index reach the output.
\<close>

section \<open>The pre-walk is complete\<close>

lemma prewalk_block_sigs:
  "prewalk_block c args sigs = Inr s \<Longrightarrow>
     set s = set sigs \<union> bt_sigs c args \<and> (\<exists>u. s = sigs @ u) \<and> (distinct sigs \<longrightarrow> distinct s)"
proof -
  assume "prewalk_block c args sigs = Inr s"
  then obtain bt r where p: "parse_blocktype c (snd (take_label args)) empty_bt = Inr (bt, r)"
    "s = (if bt_interned bt then snd (sig_intern sigs (bt_sig bt)) else sigs)"
    by (auto simp: prewalk_block_def)
  obtain i t where i: "sig_intern sigs (bt_sig bt) = (i, t)" by fastforce
  show ?thesis
    using p i sig_intern_index(3-5) [OF i] by (simp add: bt_sigs_def)
qed

lemma prewalk_sigs:
  "prewalk_instr c n sigs = Inr s \<Longrightarrow>
     set s = set sigs \<union> block_sigs c n \<and> (\<exists>u. s = sigs @ u) \<and> (distinct sigs \<longrightarrow> distinct s)"
  "prewalk_seq c ks sigs = Inr s \<Longrightarrow>
     set s = set sigs \<union> all_block_sigs c ks \<and> (\<exists>u. s = sigs @ u) \<and> (distinct sigs \<longrightarrow> distinct s)"
proof (induction c n sigs and c ks sigs arbitrary: s and s rule: prewalk_instr_prewalk_seq.induct)
  case (3 c k ks p sigs)
  let ?h = "head (Some (SList (k # ks) p))"
  from "3.prems" obtain t where t:
    "(if is_block_op ?h then prewalk_block c ks sigs else Inr sigs) = Inr t" "prewalk_seq c ks t = Inr s"
    by (auto simp del: head.simps)
  have "set t = set sigs \<union> (if is_block_op ?h then bt_sigs c ks else {}) \<and> (\<exists>u. t = sigs @ u)
      \<and> (distinct sigs \<longrightarrow> distinct t)"
    using t(1) prewalk_block_sigs [of c ks sigs t] by (auto split: if_splits simp del: head.simps)
  with "3.IH" [OF t] show ?case
    by (auto simp: block_sigs_list all_block_sigs_def simp del: head.simps)
next
  case (5 c k ks sigs)
  from "5.prems" obtain t where "prewalk_instr c k sigs = Inr t" "prewalk_seq c ks t = Inr s" by auto
  with "5.IH" show ?case by fastforce
qed simp_all

lemma prewalk_funcs_sigs:
  "prewalk_funcs c fns sigs = Inr s \<Longrightarrow>
     set s = set sigs \<union> (\<Union>fn \<in> set fns. all_block_sigs c (fbody fn)) \<and> (\<exists>u. s = sigs @ u)
     \<and> (distinct sigs \<longrightarrow> distinct s)"
proof (induction fns arbitrary: sigs)
  case (Cons fn fns)
  from Cons.prems obtain t where "prewalk_seq c (fbody fn) sigs = Inr t" "prewalk_funcs c fns t = Inr s" by auto
  with prewalk_sigs(2) Cons.IH show ?case by fastforce
qed simp

lemma encode_code_sigs:
  assumes "encode_code c sigs fn = Inr (bs, s)" and "all_block_sigs c (fbody fn) \<subseteq> set sigs"
  shows "s = sigs"
  using assms encode_sigs_stable(4) by (auto simp: encode_code_def Let_def)

lemma encode_codes_sigs:
  "encode_codes c sigs fns = Inr (bs, s) \<Longrightarrow> (\<And>fn. fn \<in> set fns \<Longrightarrow> all_block_sigs c (fbody fn) \<subseteq> set sigs) \<Longrightarrow>
     s = sigs"
proof (induction fns arbitrary: bs)
  case (Cons fn fns)
  from Cons.prems(1) obtain b t bs' where
    e: "encode_code c sigs fn = Inr (b, t)" "encode_codes c t fns = Inr (bs', s)" by auto
  from encode_code_sigs [OF e(1)] Cons.prems(2) have "t = sigs" by simp
  with Cons.IH e(2) Cons.prems(2) show ?case by simp
qed simp

lemma set_select_live: "set (select_live xs bs) \<subseteq> set xs"
  by (induction xs bs rule: select_live.induct) auto

section \<open>Runs of locals\<close>

definition unrle :: "(nat \<times> byte list) list \<Rightarrow> byte list list" where
  "unrle gs = concat (map (\<lambda>(n, t). replicate n t) gs)"

lemma takeWhile_replicate: "takeWhile (\<lambda>u. u = t) ts = replicate (length (takeWhile (\<lambda>u. u = t) ts)) t"
  by (induction ts) auto

lemma unrle_rle: "unrle (rle ts) = ts"
proof (induction ts rule: rle.induct)
  case (2 t ts)
  have "unrle (rle (t # ts)) = t # takeWhile (\<lambda>u. u = t) ts @ unrle (rle (dropWhile (\<lambda>u. u = t) ts))"
    using takeWhile_replicate [of t ts, symmetric] by (simp add: unrle_def)
  with 2 show ?case by simp
qed (simp add: unrle_def)

lemma rle_runs: "g \<in> set (rle ts) \<Longrightarrow> 0 < fst g \<and> snd g \<in> set ts \<and> fst g \<le> length ts"
proof (induction ts rule: rle.induct)
  case (2 t ts)
  have "length (takeWhile (\<lambda>u. u = t) ts) \<le> length ts" by (rule length_takeWhile_le)
  moreover have "length (dropWhile (\<lambda>u. u = t) ts) \<le> length ts" by (rule length_dropWhile_le)
  moreover have "set (dropWhile (\<lambda>u. u = t) ts) \<subseteq> set ts" by (auto dest: set_dropWhileD)
  ultimately show ?case using 2 by (fastforce simp: le_Suc_eq)
qed simp

lemma rle_hd: "rle ts \<noteq> [] \<Longrightarrow> snd (hd (rle ts)) = hd ts"
  by (cases ts) auto

lemma rle_maximal: "successively (\<lambda>g h. snd g \<noteq> snd h) (rle ts)"
proof (induction ts rule: rle.induct)
  case (2 t ts)
  let ?d = "dropWhile (\<lambda>u. u = t) ts"
  have "rle ?d \<noteq> [] \<Longrightarrow> snd (hd (rle ?d)) \<noteq> t"
  proof -
    assume n: "rle ?d \<noteq> []"
    then have "?d \<noteq> []" by (cases ?d) auto
    with hd_dropWhile [of "\<lambda>u. u = t" ts] rle_hd [OF n] show ?thesis by simp
  qed
  with 2 show ?case by (auto simp: successively_Cons)
qed simp

section \<open>Decoding sections\<close>

lemma decode_u_length: "decode_u N bs = Some (n, r) \<Longrightarrow> length r < length bs"
  by (induction N bs arbitrary: n r rule: decode_u.induct)
    (auto simp: Let_def split: if_splits option.splits intro: less_SucI)

text \<open>A section is an id, the length of its body as an unsigned LEB128 of 32 bits, and the body.\<close>

function decode_sections :: "byte list \<Rightarrow> (byte \<times> byte list) list option" where
  "decode_sections bs =
     (case bs of
        [] \<Rightarrow> Some []
      | sid # r \<Rightarrow>
          (case decode_u 32 r of
             None \<Rightarrow> None
           | Some (n, r) \<Rightarrow>
               if n \<le> length r
               then (case decode_sections (drop n r) of None \<Rightarrow> None | Some ss \<Rightarrow> Some ((sid, take n r) # ss))
               else None))"
  by pat_completeness auto
termination
  by (relation "measure length") (auto dest!: decode_u_length)

declare decode_sections.simps [simp del]

lemma uleb_n_roundtrip: "n < 2 ^ N \<Longrightarrow> N \<le> 64 \<Longrightarrow> decode_u N (uleb_n n @ rest) = Some (n, rest)"
proof -
  assume n: "n < 2 ^ N" and N: "N \<le> 64"
  have "(2 :: nat) ^ N \<le> 2 ^ 64" using N by (intro power_increasing) auto
  with n have "n < 2 ^ 64" by linarith
  then have "unat (of_nat n :: u64) = n" by (simp add: unat_of_nat)
  then show ?thesis using uleb_roundtrip [of "of_nat n" N rest] n by (simp add: uleb_n_def)
qed

lemma uleb_n_nonempty [simp]: "uleb_n n \<noteq> []"
  by (simp add: uleb_n_def)

lemma decode_put_section:
  assumes "body \<noteq> []" and "length body < 2 ^ 32"
  shows "decode_sections (put_section sid body @ rest)
    = (case decode_sections rest of None \<Rightarrow> None | Some ss \<Rightarrow> Some ((sid, body) # ss))"
  using assms uleb_n_roundtrip [of "length body" 32 "body @ rest"]
  by (subst decode_sections.simps) (simp add: put_section_def split: option.split)

lemma decode_sections_Nil: "decode_sections [] = Some []"
  by (simp add: decode_sections.simps)

fun put_sections :: "(byte \<times> byte list) list \<Rightarrow> byte list" where
  "put_sections [] = []"
| "put_sections ((sid, b) # ss) = put_section sid b @ put_sections ss"

lemma decode_put_sections:
  "list_all (\<lambda>(sid, b). b \<noteq> [] \<and> length b < 2 ^ 32) ss \<Longrightarrow> decode_sections (put_sections ss) = Some ss"
  by (induction ss rule: put_sections.induct) (simp_all add: decode_sections_Nil decode_put_section)

lemma put_section_length: "length b \<le> length (put_section sid b)"
  by (simp add: put_section_def)

lemma put_sections_length: "(sid, b) \<in> set ss \<Longrightarrow> length b \<le> length (put_sections ss)"
  by (induction ss rule: put_sections.induct) (auto intro: trans_le_add1 put_section_length trans_le_add2)

text \<open>What \<open>emit_module\<close> writes, as a list of sections.\<close>

definition section_ids :: "Fields \<Rightarrow> byte list" where
  "section_ids m = [1, 2, 3, 13, 6, 7, 9] @ (if m_datas m = [] then [] else [12]) @ [10, 11]"

lemma elem_section_nonempty: "elem_section c m reach = Inr bs \<Longrightarrow> bs \<noteq> []"
  by (auto simp: elem_section_def split: if_splits)

lemma emit_module_sections:
  assumes "emit_module c gs m reach n = Inr bs"
  shows "\<exists>ss. bs = wasm_header @ put_sections ss \<and> map fst ss = section_ids m
    \<and> (\<forall>(sid, b) \<in> set ss. b \<noteq> [])
    \<and> (\<exists>fb. (3, uleb_n (length (select_live (m_funcs m) (live_funcs m reach))) @ fb) \<in> set ss)
    \<and> (\<exists>cb sigs sigs'. (10, uleb_n (length (select_live (m_funcs m) (live_funcs m reach))) @ cb) \<in> set ss
         \<and> encode_codes c sigs (select_live (m_funcs m) (live_funcs m reach)) = Inr (cb, sigs'))"
proof -
  let ?lf = "select_live (m_funcs m) (live_funcs m reach)"
  let ?lg = "select_live (m_globals m) (live_globals m reach)"
  from assms obtain ty im fs ts gl sigs ex el code sigs' where o:
    "type_section c gs (m_sigs m) n = Inr ty" "export_section c m = Inr ex" "elem_section c m reach = Inr el"
    "encode_codes c sigs ?lf = Inr (code, sigs')"
    "bs = wasm_header @ put_section 1 ty @ put_section 2 (uleb_n (n_imports m) @ im)
       @ put_section 3 (uleb_n (length ?lf) @ fs) @ put_section 13 (uleb_n (length (m_tags m)) @ ts)
       @ put_section 6 (uleb_n (length ?lg) @ gl) @ put_section 7 ex @ put_section 9 el
       @ (if m_datas m = [] then [] else put_section 12 (uleb_n (length (m_datas m))))
       @ put_section 10 (uleb_n (length ?lf) @ code) @ put_section 11 (data_section m)"
    unfolding emit_module_def Let_def by (auto split: prod.splits)
  let ?ss = "[(1, ty), (2, uleb_n (n_imports m) @ im), (3, uleb_n (length ?lf) @ fs),
      (13, uleb_n (length (m_tags m)) @ ts), (6, uleb_n (length ?lg) @ gl), (7, ex), (9, el)]
      @ (if m_datas m = [] then [] else [(12, uleb_n (length (m_datas m)))])
      @ [(10, uleb_n (length ?lf) @ code), (11, data_section m)]"
  have ne: "ty \<noteq> []" "ex \<noteq> []" "el \<noteq> []" "data_section m \<noteq> []"
    using o(1,2) elem_section_nonempty [OF o(3)]
    by (auto simp: type_section_def export_section_def data_section_def)
  have "bs = wasm_header @ put_sections ?ss" using o(5) by simp
  moreover have "map fst ?ss = section_ids m" by (simp add: section_ids_def)
  moreover have "\<forall>(sid, b) \<in> set ?ss. b \<noteq> []" using ne by auto
  moreover have "(3, uleb_n (length ?lf) @ fs) \<in> set ?ss" "(10, uleb_n (length ?lf) @ code) \<in> set ?ss" by simp_all
  ultimately show ?thesis using o(4) by blast
qed

section \<open>Value types and code entries read back\<close>

text \<open>A value type of the specification: a reference type has a heap type (a signed 33-bit integer).\<close>

definition decode_valtype :: "byte list \<Rightarrow> (byte list \<times> byte list) option" where
  "decode_valtype bs =
     (case bs of
        [] \<Rightarrow> None
      | b # r \<Rightarrow>
          if b = 0x63 \<or> b = 0x64 then
            (case decode_s 33 r of
               None \<Rightarrow> None
             | Some (_, r') \<Rightarrow> Some (take (length bs - length r') bs, r'))
          else Some ([b], r))"

lemma parse_u32_less: "parse_u32 s = Inr i \<Longrightarrow> i < 2 ^ 32"
  using unsigned_less [where ?'a = nat and ?'b = 32] by (auto simp: parse_u32_def)

lemma resolve_type_less:
  "resolve_type c n = Inr i \<Longrightarrow> n_decl_types c \<le> 2 ^ 32 \<Longrightarrow> i < 2 ^ 32"
  using name_index_Some [of "map dname (decls c)"]
  by (auto simp: resolve_type_def n_decl_types_def split: option.splits sexpr.splits if_splits dest: parse_u32_less)
    (meson less_le_trans)

lemma sleb_idx_decodes: "i < 2 ^ 32 \<Longrightarrow> decode_s 33 (sleb_idx i @ r) = Some (int i, r)"
proof -
  assume i: "i < 2 ^ 32"
  have "sint (of_nat i :: u64) = int i"
    using i by (simp add: signed_of_nat signed_take_bit_int_eq_self)
  with i show ?thesis using sleb_roundtrip [of 33 "of_nat i" r] by (simp add: sleb_idx_def)
qed

lemma heap_byte_decodes:
  "abstract_heaptype s = Some b \<Longrightarrow> \<exists>v. decode_s 33 (b # r) = Some (v, r)"
  by (auto simp: abstract_heaptype_def heap_names_def split: if_splits)

lemma emit_heaptype_decodes:
  assumes "emit_heaptype c n = Inr bs" and "n_decl_types c \<le> 2 ^ 32"
  shows "\<exists>v. decode_s 33 (bs @ r) = Some (v, r)"
  using assms(1) sleb_idx_decodes resolve_type_less [OF _ assms(2)] heap_byte_decodes
  by (fastforce simp: emit_heaptype_def split: option.splits sexpr.splits if_splits)

lemma reftype_byte: "abstract_reftype s = Some b \<Longrightarrow> b \<noteq> 0x63 \<and> b \<noteq> 0x64"
  by (auto simp: abstract_reftype_def ref_names_def split: if_splits)

lemma decode_valtype_single: "b \<noteq> 0x63 \<Longrightarrow> b \<noteq> 0x64 \<Longrightarrow> decode_valtype (b # r) = Some ([b], r)"
  by (simp add: decode_valtype_def)

lemma emit_valtype_shape:
  assumes "emit_valtype c n = Inr bs"
  shows "(\<exists>b. bs = [b] \<and> b \<noteq> 0x63 \<and> b \<noteq> 0x64) \<or>
    (\<exists>b k hs. bs = b # hs \<and> (b = 0x63 \<or> b = 0x64) \<and> emit_heaptype c k = Inr hs)"
proof (cases n)
  case None
  with assms show ?thesis by (simp add: emit_valtype_def)
next
  case (Some e)
  show ?thesis
  proof (cases e)
    case (Atom str a p)
    with Some assms show ?thesis
      by (auto simp: emit_valtype_def Let_def split: if_splits option.splits dest: reftype_byte)
  next
    case (SList ks p)
    with Some assms show ?thesis
      by (auto simp: emit_valtype_def Let_def simp del: head.simps split: if_splits option.splits)
  qed
qed

lemma emit_valtype_decodes:
  assumes "emit_valtype c n = Inr bs" and "n_decl_types c \<le> 2 ^ 32"
  shows "decode_valtype (bs @ r) = Some (bs, r)"
proof -
  consider (one) b where "bs = [b]" "b \<noteq> 0x63" "b \<noteq> 0x64"
    | (ref) b k hs where "bs = b # hs" "b = 0x63 \<or> b = 0x64" "emit_heaptype c k = Inr hs"
    using emit_valtype_shape [OF assms(1)] by blast
  then show ?thesis
  proof cases
    case one
    then show ?thesis by (simp add: decode_valtype_def)
  next
    case ref
    note b = ref(1,2) and h = ref(3)
    from emit_heaptype_decodes [OF h assms(2), of r] obtain v where "decode_s 33 (hs @ r) = Some (v, r)" ..
    with b show ?thesis by (auto simp: decode_valtype_def)
  qed
qed

fun decode_locals :: "nat \<Rightarrow> byte list \<Rightarrow> ((nat \<times> byte list) list \<times> byte list) option" where
  "decode_locals 0 bs = Some ([], bs)"
| "decode_locals (Suc k) bs =
     (case decode_u 32 bs of
        None \<Rightarrow> None
      | Some (n, r) \<Rightarrow>
          (case decode_valtype r of
             None \<Rightarrow> None
           | Some (t, r) \<Rightarrow>
               (case decode_locals k r of None \<Rightarrow> None | Some (gs, r) \<Rightarrow> Some ((n, t) # gs, r))))"

lemma local_bytes_decode:
  "list_all (\<lambda>(n, t). n < 2 ^ 32 \<and> (\<forall>r. decode_valtype (t @ r) = Some (t, r))) gs \<Longrightarrow>
     decode_locals (length gs) (local_bytes gs @ r) = Some (gs, r)"
proof (induction gs)
  case (Cons g gs)
  obtain n t where g: "g = (n, t)" by fastforce
  with Cons have "n < 2 ^ 32" "\<And>r. decode_valtype (t @ r) = Some (t, r)" by auto
  with Cons g uleb_n_roundtrip [of n 32 "t @ local_bytes gs @ r"] show ?case
    by (simp add: local_bytes_def)
qed (simp add: local_bytes_def)

text \<open>
  A code entry: its size, the groups of its locals, and the rest, which is its body. \<open>wf_locals\<close>
  says that the types of the locals are encoded value types, as \<open>collect_group\<close> makes them.
\<close>

definition decode_code :: "byte list \<Rightarrow> (byte list list \<times> byte list \<times> byte list) option" where
  "decode_code bs =
     (case decode_u 32 bs of
        None \<Rightarrow> None
      | Some (n, r) \<Rightarrow>
          if length r < n then None
          else (case decode_u 32 (take n r) of
                  None \<Rightarrow> None
                | Some (k, e) \<Rightarrow>
                    (case decode_locals k e of
                       None \<Rightarrow> None | Some (gs, body) \<Rightarrow> Some (unrle gs, body, drop n r))))"

definition wf_locals :: "Ctx \<Rightarrow> FuncCtx \<Rightarrow> bool" where
  "wf_locals c f \<longleftrightarrow> (\<forall>l \<in> set (locals f). \<exists>n. emit_valtype c n = Inr (ltype l))"

lemma length_rle: "length (rle ts) \<le> length ts"
proof (induction ts rule: rle.induct)
  case (2 t ts)
  then show ?case using length_dropWhile_le [of "\<lambda>u. u = t" ts] by simp
qed simp

lemma encode_code_decodes:
  assumes "encode_code c sigs fn = Inr (bs, s)" and "wf_locals c (fctx fn)" and "n_decl_types c \<le> 2 ^ 32"
    and "length bs < 2 ^ 32" and "length (locals (fctx fn)) < 2 ^ 32"
  shows "\<exists>body. encode_block_body c (fctx fn) sigs (fbody fn) = Inr (body, s)
    \<and> decode_code (bs @ rest) = Some (map ltype (drop (fn_params (fctx fn)) (locals (fctx fn))), body @ [0x0b], rest)"
proof -
  let ?ts = "map ltype (drop (fn_params (fctx fn)) (locals (fctx fn)))"
  let ?gs = "rle ?ts"
  from assms(1) obtain body where b: "encode_block_body c (fctx fn) sigs (fbody fn) = Inr (body, s)"
    and bs: "bs = (let e = uleb_n (length ?gs) @ local_bytes ?gs @ body @ [0x0b] in uleb_n (length e) @ e)"
    by (auto simp: encode_code_def Let_def)
  let ?e = "uleb_n (length ?gs) @ local_bytes ?gs @ body @ [0x0b]"
  have n: "length ?ts \<le> length (locals (fctx fn))" by simp
  have tys: "list_all (\<lambda>(n, t). n < 2 ^ 32 \<and> (\<forall>r. decode_valtype (t @ r) = Some (t, r))) ?gs"
  proof (unfold list_all_iff, clarify)
    fix m t assume g: "(m, t) \<in> set ?gs"
    from rle_runs [OF g] n assms(5) have m: "m < 2 ^ 32" "t \<in> set ?ts" by auto
    then obtain l where "l \<in> set (locals (fctx fn))" "t = ltype l" by (auto dest: in_set_dropD)
    with assms(2) obtain k where "emit_valtype c k = Inr t" by (auto simp: wf_locals_def)
    with emit_valtype_decodes [OF _ assms(3)] m(1)
    show "m < 2 ^ 32 \<and> (\<forall>r. decode_valtype (t @ r) = Some (t, r))" by blast
  qed
  have le: "length ?gs < 2 ^ 32" using length_rle [of ?ts] n assms(5) by linarith
  have e: "length ?e < 2 ^ 32" using assms(4) bs by (simp add: Let_def)
  have u1: "decode_u 32 (bs @ rest) = Some (length ?e, ?e @ rest)"
    using uleb_n_roundtrip [OF e, of "?e @ rest"] bs by (simp add: Let_def)
  have u2: "decode_u 32 ?e = Some (length ?gs, local_bytes ?gs @ body @ [0x0b])"
    by (rule uleb_n_roundtrip [OF le]) simp
  have "decode_code (bs @ rest) = Some (?ts, body @ [0x0b], rest)"
    using local_bytes_decode [OF tys, of "body @ [0x0b]"] unrle_rle [of ?ts]
    unfolding decode_code_def u1 by (simp add: u2 del: append_assoc)
  with b show ?thesis by blast
qed

text \<open>\<open>parse_func\<close> gives every local an encoded value type.\<close>

lemma wf_locals_add: "wf_locals c f \<Longrightarrow> emit_valtype c n = Inr t \<Longrightarrow> wf_locals c (fc_add_local f nm t)"
  by (auto simp: wf_locals_def fc_add_local_def)

lemma wf_locals_params: "wf_locals c (f\<lparr>fn_params := n\<rparr>) \<longleftrightarrow> wf_locals c f"
  by (simp add: wf_locals_def)

lemma group_entry_wf:
  "group_entry c nm tn ip (sg, Some f) = Inr (sg', f') \<Longrightarrow> wf_locals c f \<Longrightarrow>
     \<exists>g. f' = Some g \<and> wf_locals c g"
  by (auto simp: group_entry_def Let_def wf_locals_params intro: wf_locals_add)

lemma group_entries_wf:
  "group_entries c ip ks (sg, Some f) = Inr (sg', f') \<Longrightarrow> wf_locals c f \<Longrightarrow>
     \<exists>g. f' = Some g \<and> wf_locals c g"
proof (induction ks arbitrary: sg f)
  case (Cons k ks)
  from Cons.prems(1) obtain sg1 f1 where e: "group_entry c None (Some k) ip (sg, Some f) = Inr (sg1, f1)"
    "group_entries c ip ks (sg1, f1) = Inr (sg', f')" by auto
  from group_entry_wf [OF e(1) Cons.prems(2)] Cons.IH e(2) show ?case by blast
qed auto

lemma collect_group_wf:
  "collect_group c grp sg (Some f) ip = Inr (sg', f') \<Longrightarrow> wf_locals c f \<Longrightarrow> wf_locals c (the f')"
  using group_entry_wf group_entries_wf
  by (fastforce simp: collect_group_def Let_def split: if_splits)

lemma func_items_wf:
  "func_items c ks st = Inr st' \<Longrightarrow> wf_locals c (fctx (fst st)) \<Longrightarrow> wf_locals c (fctx (fst st'))"
proof (induction c ks st rule: func_items.induct)
  case (2 c k ks out ps rs)
  let ?h = "head (Some k)"
  consider "is_id (Some k)" | "\<not> is_id (Some k)" "?h = Some ''export''" | "\<not> is_id (Some k)" "?h = Some ''type''"
    | "\<not> is_id (Some k)" "?h = Some ''param''" | "\<not> is_id (Some k)" "?h = Some ''result''"
    | "\<not> is_id (Some k)" "?h = Some ''local''"
    | "\<not> is_id (Some k)" "?h \<notin> Some ` {''export'', ''type'', ''param'', ''result'', ''local''}" by auto
  then show ?case
  proof cases
    case 1
    with "2.IH"(1) [OF refl 1] "2.prems" show ?thesis by (simp add: Let_def)
  next
    case 2
    with "2.prems"(1) obtain a where "func_items c ks (out\<lparr>fexport := Some a\<rparr>, ps, rs) = Inr st'"
      "export_arg k = Inr a" by (auto simp: Let_def)
    with "2.IH"(2) [OF refl 2, of a] "2.prems"(2) show ?thesis by simp
  next
    case 3
    with "2.prems"(1) obtain a where "func_items c ks (out\<lparr>ftype_ref := Some a\<rparr>, ps, rs) = Inr st'"
      "resolve_type c (first (tl (kids k))) = Inr a" by (auto simp: Let_def)
    with "2.IH"(3) [OF refl 3(1) _ 3(2), of a] 3 "2.prems"(2) show ?thesis by simp
  next
    case 4
    with "2.prems"(1) obtain qs f where f: "func_items c ks (out\<lparr>fctx := the f\<rparr>, the qs, rs) = Inr st'"
      "collect_group c k (Some ps) (Some (fctx out)) True = Inr (qs, f)" by (auto simp: Let_def)
    with collect_group_wf [OF f(2)] "2.IH"(4) [OF refl 4(1) _ _ 4(2) f(2) refl] 4 "2.prems"(2)
    show ?thesis by simp
  next
    case 5
    with "2.prems"(1) obtain qs where "func_items c ks (out, ps, qs) = Inr st'" "collect_sig c k rs = Inr qs"
      by (auto simp: Let_def)
    with "2.IH"(5) [OF refl 5(1) _ _ _ 5(2), of qs] 5 "2.prems"(2) show ?thesis by simp
  next
    case 6
    with "2.prems"(1) obtain qs f where f: "func_items c ks (out\<lparr>fctx := the f\<rparr>, ps, rs) = Inr st'"
      "collect_group c k None (Some (fctx out)) False = Inr (qs, f)" by (auto simp: Let_def)
    with collect_group_wf [OF f(2)] "2.IH"(6) [OF refl 6(1) _ _ _ _ 6(2) f(2) refl] 6 "2.prems"(2)
    show ?thesis by simp
  next
    case 7
    with "2.prems" show ?thesis by (auto simp: Let_def)
  qed
qed auto

lemma wf_locals_placeholders: "wf_locals c f \<Longrightarrow> wf_locals c ((add_placeholder ^^ n) f)"
proof (induction n)
  case (Suc n)
  have "emit_valtype c (Some (Atom False ''i32'' 0)) = Inr [0x7f]"
    by (simp add: emit_valtype_def cstr_def)
  from wf_locals_add [OF Suc.IH [OF Suc.prems] this] show ?case
    by (simp add: add_placeholder_def [of "(add_placeholder ^^ n) f"] Let_def wf_locals_params)
qed simp

lemma recover_params_wf: "wf_locals c (fctx out) \<Longrightarrow> wf_locals c (fctx (recover_params c out n))"
  by (simp add: recover_params_def wf_locals_placeholders split: option.split)

lemma parse_func_wf:
  assumes "parse_func c k = Inr fn"
  shows "wf_locals c (fctx fn)"
proof -
  from assms obtain out ps rs where f: "func_items c (tl (kids k)) (empty_func, ([], 0), ([], 0)) = Inr (out, ps, rs)"
    "fn = recover_params c (out\<lparr>fsig := sig_finalize ps rs\<rparr>) (snd ps)"
    by (auto simp: parse_func_def)
  have "wf_locals c (fctx out)"
    using func_items_wf [OF f(1)] by (simp add: empty_func_def no_locals_def wf_locals_def)
  with f(2) show ?thesis by (simp add: recover_params_wf)
qed

end
