(* ===== verification/Wat_Live.thy ===== *)
theory Wat_Live
  imports Wat_Correct
begin

text \<open>
  Dead-code elimination of whole modules (\<open>assemble\<close> in \<open>src/src/wat2wasm.c\<close>): the remaps it builds
  keep the survivors in order, and the code of a live function is the same whatever the remaps
  hold for dropped functions, globals and signatures.
\<close>

section \<open>Marking signatures\<close>

definition flags_le :: "bool list \<Rightarrow> bool list \<Rightarrow> bool" where
  "flags_le a b \<longleftrightarrow> length a = length b \<and> (\<forall>i < length a. a ! i \<longrightarrow> b ! i)"

lemma flags_le_refl [simp]: "flags_le a a"
  by (simp add: flags_le_def)

lemma flags_le_trans: "flags_le a b \<Longrightarrow> flags_le b d \<Longrightarrow> flags_le a d"
  by (simp add: flags_le_def)

lemma set_flag_le: "set_flag i a = Inr b \<Longrightarrow> flags_le a b \<and> i < length b \<and> b ! i"
  by (auto simp: set_flag_def flags_le_def nth_list_update split: if_splits)

text \<open>The signatures marked live, with their indices.\<close>

definition marked_sigs :: "FuncSig list \<Rightarrow> bool list \<Rightarrow> FuncSig set \<Rightarrow> bool" where
  "marked_sigs sigs sl S \<longleftrightarrow> (\<forall>s \<in> S. \<exists>i < length sl. sig_find sigs s = Some i \<and> sl ! i)"

lemma marked_sigs_le: "marked_sigs sigs a S \<Longrightarrow> flags_le a b \<Longrightarrow> marked_sigs sigs b S"
  by (fastforce simp: marked_sigs_def flags_le_def)

lemma marked_sigs_Un [simp]: "marked_sigs sigs a (S \<union> T) \<longleftrightarrow> marked_sigs sigs a S \<and> marked_sigs sigs a T"
  by (auto simp: marked_sigs_def)

lemma marked_sigs_empty [simp]: "marked_sigs sigs a {}"
  by (simp add: marked_sigs_def)

lemma set_flag_intern:
  assumes "set_flag (fst (sig_intern sigs s)) sl = Inr sl'" and "length sl = length sigs"
  shows "marked_sigs sigs sl' {s}"
proof (cases "sig_find sigs s")
  case None
  with assms show ?thesis by (simp add: sig_intern_def set_flag_def)
next
  case (Some i)
  with assms set_flag_le [OF assms(1)] show ?thesis by (auto simp: sig_intern_def marked_sigs_def)
qed

lemma mark_block_marks:
  assumes "mark_block c sigs args sl = Inr sl'" and "length sl = length sigs"
  shows "flags_le sl sl' \<and> marked_sigs sigs sl' (bt_sigs c args)"
proof -
  from assms(1) obtain bt r where b: "parse_blocktype c (snd (take_label args)) empty_bt = Inr (bt, r)"
    "(if bt_interned bt then set_flag (fst (sig_intern sigs (bt_sig bt))) sl else Inr sl) = Inr sl'"
    by (auto simp: mark_block_def)
  then show ?thesis
    using set_flag_intern [OF _ assms(2)] set_flag_le by (auto simp: bt_sigs_def split: if_splits)
qed

lemma sig_mark_blocks_marks:
  "sig_mark_blocks c sigs ks sl = Inr sl' \<Longrightarrow> length sl = length sigs \<Longrightarrow>
     flags_le sl sl' \<and> marked_sigs sigs sl' (all_block_sigs c ks)"
proof (induction c sigs ks sl arbitrary: sl' rule: sig_mark_blocks.induct)
  case (4 c sigs k ks p rest sl)
  let ?h = "head (Some (SList (k # ks) p))"
  from "4.prems"(1) obtain a b where e:
    "(if is_block_op ?h then mark_block c sigs ks sl else Inr sl) = Inr a"
    "sig_mark_blocks c sigs ks a = Inr b" "sig_mark_blocks c sigs rest b = Inr sl'"
    by (auto simp del: head.simps)
  have a: "flags_le sl a \<and> marked_sigs sigs a (if is_block_op ?h then bt_sigs c ks else {})"
    using e(1) mark_block_marks [OF _ "4.prems"(2), of c ks a] by (auto simp del: head.simps split: if_splits)
  then have la: "length a = length sigs" using "4.prems"(2) by (simp add: flags_le_def)
  from "4.IH"(1) [OF e(1,2) la] have b: "flags_le a b" "marked_sigs sigs b (all_block_sigs c ks)" by blast+
  then have lb: "length b = length sigs" using la by (simp add: flags_le_def)
  from "4.IH"(2) [OF e(1,2,3) lb] have r: "flags_le b sl'" "marked_sigs sigs sl' (all_block_sigs c rest)" by blast+
  have bb: "block_sigs c (SList (k # ks) p)
      = (if is_block_op ?h then bt_sigs c ks else {}) \<union> all_block_sigs c ks"
    by (simp add: block_sigs_list del: head.simps)
  have "marked_sigs sigs sl' (if is_block_op ?h then bt_sigs c ks else {})"
    using marked_sigs_le [OF conjunct2 [OF a] flags_le_trans [OF b(1) r(1)]] .
  moreover have "marked_sigs sigs sl' (all_block_sigs c ks)" by (rule marked_sigs_le [OF b(2) r(1)])
  ultimately show ?case
    unfolding all_block_sigs_simps bb marked_sigs_Un
    using r(2) flags_le_trans [OF conjunct1 [OF a] flags_le_trans [OF b(1) r(1)]] by blast
qed simp_all

lemma mark_type_le: "mark_type c t sl = Inr sl' \<Longrightarrow> flags_le sl sl'"
  by (auto simp: mark_type_def dest: set_flag_le split: if_splits)

lemma mark_types_le: "mark_types c ts sl = Inr sl' \<Longrightarrow> flags_le sl sl'"
  by (induction ts arbitrary: sl) (auto dest: mark_type_le intro: flags_le_trans)

lemma mark_func_sigs_marks:
  "mark_func_sigs c sigs fns sl = Inr sl' \<Longrightarrow> length sl = length sigs \<Longrightarrow>
     flags_le sl sl' \<and> (\<forall>fn \<in> set fns. marked_sigs sigs sl' (all_block_sigs c (fbody fn))
       \<and> (n_decl_types c \<le> ftype_index fn \<longrightarrow>
            ftype_index fn - n_decl_types c < length sl' \<and> sl' ! (ftype_index fn - n_decl_types c)))"
proof (induction fns arbitrary: sl)
  case (Cons fn fns)
  from Cons.prems(1) obtain a b where e: "mark_type c (ftype_index fn) sl = Inr a"
    "sig_mark_blocks c sigs (fbody fn) a = Inr b" "mark_func_sigs c sigs fns b = Inr sl'" by auto
  have la: "length a = length sigs" using mark_type_le [OF e(1)] Cons.prems(2) by (simp add: flags_le_def)
  note B = sig_mark_blocks_marks [OF e(2) la]
  then have lb: "length b = length sigs" using la by (simp add: flags_le_def)
  note R = Cons.IH [OF e(3) lb]
  have "flags_le a sl'" using B R flags_le_trans by blast
  moreover have "n_decl_types c \<le> ftype_index fn \<longrightarrow>
      ftype_index fn - n_decl_types c < length a \<and> a ! (ftype_index fn - n_decl_types c)"
    using e(1) by (auto simp: mark_type_def dest: set_flag_le)
  ultimately show ?case
    using R B mark_type_le [OF e(1)] marked_sigs_le flags_le_trans
    by (auto simp: flags_le_def)
qed simp

lemma live_sigs_marks:
  assumes "live_sigs c m lf = Inr sl"
  shows "length sl = length (m_sigs m)"
    and "fn \<in> set (select_live (m_funcs m) lf) \<Longrightarrow> marked_sigs (m_sigs m) sl (all_block_sigs c (fbody fn))"
proof -
  from assms obtain a b where e:
    "mark_types c (map im_type_index (m_imports m)) (replicate (length (m_sigs m)) False) = Inr a"
    "mark_types c (map tg_type_index (m_tags m)) a = Inr b"
    "mark_func_sigs c (m_sigs m) (select_live (m_funcs m) lf) b = Inr sl"
    by (auto simp: live_sigs_def)
  have lb: "length b = length (m_sigs m)"
    using mark_types_le [OF e(1)] mark_types_le [OF e(2)] by (simp add: flags_le_def)
  note M = mark_func_sigs_marks [OF e(3) lb]
  show "length sl = length (m_sigs m)" using M lb by (simp add: flags_le_def)
  show "fn \<in> set (select_live (m_funcs m) lf) \<Longrightarrow> marked_sigs (m_sigs m) sl (all_block_sigs c (fbody fn))"
    using M by blast
qed

section \<open>Dropped entries never reach the code of a live function\<close>

text \<open>Two remaps agree where \<open>live\<close> holds; their other entries are unrelated.\<close>

definition agree_live :: "bool list \<Rightarrow> nat list \<Rightarrow> nat list \<Rightarrow> bool" where
  "agree_live lv a b \<longleftrightarrow> length a = length lv \<and> length b = length lv \<and> (\<forall>i < length lv. lv ! i \<longrightarrow> a ! i = b ! i)"

lemma agree_live_get: "agree_live lv a b \<Longrightarrow> (i < length lv \<Longrightarrow> lv ! i) \<Longrightarrow> remap_get b i = remap_get a i"
  by (auto simp: agree_live_def remap_get_def)

definition func_reach :: "Fields \<Rightarrow> bool list \<Rightarrow> bool list" where
  "func_reach m r = take (n_all_funcs m) r"

definition func_numbers :: "Fields \<Rightarrow> bool list \<Rightarrow> nat list" where
  "func_numbers m r = [0..<n_imports m] @ number_live (n_imports m) (live_funcs m (Some r))"

definition global_numbers :: "Fields \<Rightarrow> bool list \<Rightarrow> nat list" where
  "global_numbers m r = number_live 0 (live_globals m (Some r))"

lemma with_remaps_Some:
  "with_remaps c m (Some r) = remap_ctx c (Some (func_numbers m r)) (Some (global_numbers m r)) (sig_remap c)"
  by (simp add: with_remaps_def remap_ctx_def func_numbers_def global_numbers_def)

lemma remap_ctx_again: "remap_ctx (remap_ctx c fr gr sr) fr' gr' sr' = remap_ctx c fr' gr' sr'"
  by (simp add: remap_ctx_def)

lemma length_live [simp]:
  "length (live_funcs m (Some r)) = length (m_funcs m)" "length (live_globals m (Some r)) = length (m_globals m)"
  "length (func_numbers m r) = n_all_funcs m" "length (global_numbers m r) = length (m_globals m)"
  by (simp_all add: live_funcs_def live_globals_def func_numbers_def global_numbers_def n_all_funcs_def)

lemma with_names_lengths [simp]:
  "length (func_names (with_names c m)) = n_all_funcs m"
  "length (global_names (with_names c m)) = length (m_globals m)"
  by (simp_all add: with_names_def n_all_funcs_def n_imports_def)

lemma agree_on_reached:
  assumes fr: "agree_live (func_reach m r) a fr" and gr: "agree_live (live_globals m (Some r)) g gr"
    and r: "length r = dce_universe m" "dce_universe m < 2 ^ 32"
    and E: "\<forall>d \<in> E. d < dce_universe m \<and> r ! d"
    and n: "length (func_names c) = n_all_funcs m"
  shows "agree_on (remap_ctx c (Some a) (Some g) sr) (remap_ctx c (Some fr) (Some gr) sr') E"
proof -
  have "remap_get fr i = remap_get a i" if "i \<in> E" for i
    using E that by (intro agree_live_get [OF fr]) (auto simp: func_reach_def)
  moreover have "remap_get gr i = remap_get g i" if e: "(n_all_funcs m + i) mod 2 ^ 32 \<in> E" for i
  proof (rule agree_live_get [OF gr])
    assume i: "i < length (live_globals m (Some r))"
    then have "n_all_funcs m + i < 2 ^ 32" using r(2) by (simp add: dce_universe_def)
    with e E have "r ! (n_all_funcs m + i)" by simp
    with i show "live_globals m (Some r) ! i" by (simp add: live_globals_def)
  qed
  ultimately show ?thesis
    by (simp add: agree_on_def map_func_def map_global_def n)
qed

lemma sigs_ok_live:
  assumes "agree_live sl s sr" and "marked_sigs sigs sl S"
  shows "sigs_ok (remap_ctx c fr gr (Some s)) (remap_ctx c fr' gr' (Some sr)) sigs S"
  unfolding sigs_ok_def
proof (intro conjI ballI allI impI subsetI)
  fix x assume "x \<in> S"
  with assms(2) obtain i where "sig_find sigs x = Some i" by (auto simp: marked_sigs_def)
  then show "x \<in> set sigs" using sig_find_Some [of sigs x i] nth_mem by metis
next
  fix x i assume "x \<in> S" "sig_find sigs x = Some i"
  with assms(2) have "i < length sl" "sl ! i" by (auto simp: marked_sigs_def)
  with agree_live_get [OF assms(1), of i]
  show "map_typeidx (remap_ctx c fr' gr' (Some sr)) (n_decl_types (remap_ctx c fr gr (Some s)) + i)
      = map_typeidx (remap_ctx c fr gr (Some s)) (n_decl_types (remap_ctx c fr gr (Some s)) + i)"
    by (simp add: map_typeidx_def)
qed

lemma select_live_nth: "i < length xs \<Longrightarrow> i < length bs \<Longrightarrow> bs ! i \<Longrightarrow> xs ! i \<in> set (select_live xs bs)"
proof (induction xs bs arbitrary: i rule: select_live.induct)
  case (1 x xs b bs)
  then show ?case by (cases i) auto
qed auto

lemma all_block_sigs_remap [simp]:
  "all_block_sigs (remap_ctx c fr gr sr) ks = all_block_sigs c ks"
  by (simp add: all_block_sigs_def)

lemma encode_code_dead:
  assumes "dce_reach (with_names c m) m = Inr r" and "dce_universe m < 2 ^ 32"
    and "live_sigs (with_remaps (with_names c m) m (Some r)) m (live_funcs m (Some r)) = Inr sl"
    and "i < length (m_funcs m)" and "r ! (n_imports m + i)" and "list_all quiet (fbody (m_funcs m ! i))"
    and "agree_live (func_reach m r) (func_numbers m r) fr"
    and "agree_live (live_globals m (Some r)) (global_numbers m r) gr"
    and "agree_live sl (number_live 0 sl) sr"
  shows "encode_code (remap_ctx (with_names c m) (Some fr) (Some gr) (Some sr)) (m_sigs m) (m_funcs m ! i)
    = encode_code ((with_remaps (with_names c m) m (Some r))\<lparr>sig_remap := Some (number_live 0 sl)\<rparr>)
        (m_sigs m) (m_funcs m ! i)"
proof -
  let ?c = "with_names c m" and ?fn = "m_funcs m ! i"
  let ?ca = "remap_ctx ?c (Some (func_numbers m r)) (Some (global_numbers m r)) (Some (number_live 0 sl))"
  let ?cb = "remap_ctx ?c (Some fr) (Some gr) (Some sr)"
  have ca: "(with_remaps ?c m (Some r))\<lparr>sig_remap := Some (number_live 0 sl)\<rparr> = ?ca"
    by (simp add: with_remaps_Some remap_ctx_def)
  have b: "dce_body m (n_imports m + i) = fbody ?fn"
    using assms(4) by (simp add: dce_body_def n_all_funcs_def)
  note D = dce_run_live [OF assms(1) [unfolded dce_reach_def]]
  have "live ?c (dce_body m) (dce_roots m) (n_imports m + i)"
    using D(2) assms(4,5) by (simp add: dce_universe_def n_all_funcs_def)
  from D(3) [OF this] obtain es where es: "seq_refs ?c (fbody ?fn) = Inr es"
    "\<forall>d \<in> set es. d < dce_universe m \<and> r ! d" by (auto simp: b)
  have refs: "refs_ok ?ca ?cb (fbody ?fn)"
    using agree_on_reached [OF assms(7,8) D(1) assms(2) es(2)] es(1) by (auto simp: refs_ok_def)
  have "?fn \<in> set (select_live (m_funcs m) (live_funcs m (Some r)))"
    using assms(4,5) by (intro select_live_nth) (simp_all add: live_funcs_def)
  from live_sigs_marks(2) [OF assms(3) this] with_remaps_Some [of ?c m r]
  have "marked_sigs (m_sigs m) sl (all_block_sigs ?c (fbody ?fn))" by simp
  from sigs_ok_live [OF assms(9) this]
  have sigs: "sigs_ok ?ca ?cb (m_sigs m) (all_block_sigs ?ca (fbody ?fn))" by simp
  have "encode_block_body ?cb f (m_sigs m) (fbody ?fn) = encode_block_body ?ca f (m_sigs m) (fbody ?fn)" for f
    by (rule encode_agree(4) [OF remap_ctx_again [symmetric] refs assms(6) sigs])
  then show ?thesis unfolding ca encode_code_def by simp
qed

end
