(* ===== verification/Wat_Properties.thy ===== *)
theory Wat_Properties
  imports Wat_Live
begin

text \<open>
  The properties of the assembler (\<open>src/src/wat2wasm.c\<close>) that span its parts: instructions,
  dead-code elimination, and the bytes of a module.
\<close>

section \<open>Instructions\<close>

text \<open>A floating-point environment for the examples, which use none of it.\<close>

definition fe0 :: fp_env where
  "fe0 = \<lparr>strtod = \<lambda>s. (0, 0), to_float = \<lambda>d. 0\<rparr>"

text \<open>The operators of the groups that come before the table.\<close>

definition grouped_ops :: "string list" where
  "grouped_ops =
     block_ops @ func_ref_ops @ global_ref_ops
     @ [''i32.const'', ''i64.const'', ''f32.const'', ''f64.const'', ''local.get'', ''local.set'', ''local.tee'',
        ''call_ref'', ''return_call_ref'', ''throw'', ''throw_ref'', ''br'', ''br_if'', ''br_table'',
        ''ref.null'', ''ref.is_null'', ''ref.as_non_null'', ''ref.eq'', ''ref.i31'', ''i31.get_s'', ''i31.get_u'',
        ''ref.test'', ''ref.cast'', ''struct.new'', ''struct.new_default'', ''struct.get'', ''struct.get_s'',
        ''struct.get_u'', ''struct.set'', ''array.new'', ''array.new_default'', ''array.new_data'',
        ''array.new_fixed'', ''array.get'', ''array.get_s'', ''array.get_u'', ''array.set'', ''array.fill'',
        ''array.len'', ''array.copy'']"

lemma OPS_facts:
  "list_all (\<lambda>(op, b). op \<notin> set grouped_ops) OPS" "distinct (map fst OPS)" "distinct (map snd OPS)"
  "list_all (\<lambda>(op, b). NUL \<notin> set op) OPS"
  by (simp_all add: OPS_def grouped_ops_def block_ops_def func_ref_ops_def global_ref_ops_def)

lemma find_op_OPS: "(op, b) \<in> set OPS \<longleftrightarrow> find_op op = Some b"
  using OPS_facts(2) by (auto simp: find_op_def dest: map_of_SomeD)

lemma ungrouped:
  assumes "op \<notin> set grouped_ops"
  shows "enc_const c op args = None" "enc_var c f op args = None" "enc_call c op args = None"
    "enc_branch f op args = None" "enc_ref c op args = None" "enc_struct c op args = None"
    "enc_array c op args = None" "op \<noteq> ''block''" "op \<noteq> ''loop''" "op \<noteq> ''if''" "op \<noteq> ''try_table''"
  using assms
  by (simp_all add: grouped_ops_def block_ops_def func_ref_ops_def global_ref_ops_def enc_const_def enc_var_def
      enc_call_def enc_branch_def enc_ref_def enc_struct_def enc_array_def)


text \<open>An instruction of the table is in no group, and takes no immediates.\<close>

lemma enc_simple_table:
  assumes "find_op op = Some b" and "head (first ks) \<noteq> Some ''result''"
  shows "enc_simple c f pos op ks = Inr (ks, Inr [b])" and "cstr op = op" and "op \<noteq> ''block''" "op \<noteq> ''loop''" "op \<noteq> ''if''" "op \<noteq> ''try_table''"
proof -
  from assms(1) have "(op, b) \<in> set OPS" by (simp add: find_op_OPS)
  with OPS_facts(1,4) have op: "op \<notin> set grouped_ops" and nul: "NUL \<notin> set op"
    by (auto simp: list_all_iff)
  note U = ungrouped [OF op]
  show "enc_simple c f pos op ks = Inr (ks, Inr [b])"
    using assms U by (simp add: enc_simple_def orelse_def enc_select_def enc_op_def)
  show "cstr op = op" "op \<noteq> ''block''" "op \<noteq> ''loop''" "op \<noteq> ''if''" "op \<noteq> ''try_table''" using U cstr_id [OF nul] by simp_all
qed



section \<open>Examples\<close>

text \<open>
  A module of three functions and two globals, as the passes leave it: \<open>$a\<close> is exported and calls
  \<open>$c\<close>, which reads the second global; \<open>$b\<close> and the first global are dead.
\<close>

abbreviation "op_atom s \<equiv> Atom False s 0"

definition ctx0 :: Ctx where
  "ctx0 = \<lparr>csrc = [], cfe = fe0, func_names = [], global_names = [], tag_names = [], data_names = [], decls = [],
     func_remap = None, global_remap = None, sig_remap = None\<rparr>"

definition ex_func :: "string \<Rightarrow> string option \<Rightarrow> sexpr list \<Rightarrow> Func" where
  "ex_func nm ex body = empty_func\<lparr>fname := Some nm, fexport := ex, fbody := body\<rparr>"

definition ex_global :: "string \<Rightarrow> Global" where
  "ex_global nm = \<lparr>gname = Some nm, gtype = [0x7f], gmut = True,
     ginit = [SList [op_atom ''i32.const'', op_atom ''0''] 0]\<rparr>"

definition ex_fields :: Fields where
  "ex_fields = no_fields\<lparr>
     m_funcs := [ex_func ''$a'' (Some ''main'') [op_atom ''call'', op_atom ''$c''],
                 ex_func ''$b'' None [SList [op_atom ''call'', op_atom ''$b''] 0],
                 ex_func ''$c'' None [SList [op_atom ''drop'', SList [op_atom ''global.get'', op_atom ''$h''] 0] 0]],
     m_globals := [ex_global ''$g'', ex_global ''$h''],
     m_sigs := [empty_sig]\<rparr>"

lemmas ex_defs = ex_fields_def ex_func_def ex_global_def no_fields_def empty_func_def ctx0_def
  with_names_def n_imports_def n_all_funcs_def dce_universe_def

lemma ex_roots: "dce_roots ex_fields = [0]"
  by (simp add: dce_roots_def ex_defs upt_rec)

lemma ex_bodies:
  "dce_body ex_fields 0 = [op_atom ''call'', op_atom ''$c'']"
  "dce_body ex_fields (Suc (Suc 0)) = [SList [op_atom ''drop'', SList [op_atom ''global.get'', op_atom ''$h''] 0] 0]"
  "dce_body ex_fields 4 = [SList [op_atom ''i32.const'', op_atom ''0''] 0]"
  by (simp_all add: dce_body_def ex_defs)

lemma ex_names:
  "func_names (with_names ctx0 ex_fields) = [Some ''$a'', Some ''$b'', Some ''$c'']"
  "global_names (with_names ctx0 ex_fields) = [Some ''$g'', Some ''$h'']"
  by (simp_all add: ex_defs)

lemma ex_reach: "dce_reach (with_names ctx0 ex_fields) ex_fields = Inr [True, False, True, False, True]"
proof -
  have "replicate (dce_universe ex_fields) False = [False, False, False, False, False]"
    by (simp add: ex_defs eval_nat_numeral)
  then show ?thesis
    by (simp add: dce_reach_def dce_run_def ex_roots dce_mark_def dce_loop.simps ex_bodies ex_names
        dce_target_def func_ref_ops_def global_ref_ops_def resolve_index_def first_def cstr_def mark_opt_def)
qed

lemma agree_live_zip:
  "agree_live lv a b \<longleftrightarrow> length a = length lv \<and> length b = length lv
     \<and> list_all (\<lambda>(l, x, y). l \<longrightarrow> x = y) (zip lv (zip a b))"
  by (auto simp: agree_live_def list_all_length)

lemma ex_live_sigs:
  "live_sigs (with_remaps (with_names ctx0 ex_fields) ex_fields (Some [True, False, True, False, True]))
     ex_fields (live_funcs ex_fields (Some [True, False, True, False, True])) = Inr [True]"
  by (simp add: live_sigs_def ex_defs with_remaps_def live_funcs_def mark_type_def set_flag_def
      n_decl_types_def upt_rec is_block_op_def block_ops_def cstr_def eval_nat_numeral)

section \<open>Dead-code elimination\<close>

text \<open>C1: Dead-code elimination is exact: when the worklist ends, the marked entities are those
  reachable from the exported functions by references in function bodies and global
  initializers, no more and no fewer, and every reference of a kept entity is kept.\<close>

theorem dce_exact:
  assumes "dce_reach c m = Inr r"
  shows "length r = dce_universe m
    \<and> (\<forall>e. live c (dce_body m) (dce_roots m) e = (e < dce_universe m \<and> r ! e))
    \<and> (\<forall>e < dce_universe m. r ! e \<longrightarrow>
         (\<exists>es. seq_refs c (dce_body m e) = Inr es \<and> (\<forall>d \<in> set es. d < dce_universe m \<and> r ! d)))"
  using dce_run_live [OF assms [unfolded dce_reach_def]] by blast

theorem dce_exact_witness:
  "dce_reach (with_names ctx0 ex_fields) ex_fields = Inr [True, False, True, False, True]
     \<and> \<not> live (with_names ctx0 ex_fields) (dce_body ex_fields) (dce_roots ex_fields) 1
     \<and> live (with_names ctx0 ex_fields) (dce_body ex_fields) (dce_roots ex_fields) 4"
  using dce_exact [OF ex_reach] ex_reach by (simp add: dce_universe_def n_all_funcs_def n_imports_def
      ex_fields_def no_fields_def eval_nat_numeral)

text \<open>C21: The worklist always ends, and it fails exactly when a reachable entity has a reference
  that does not resolve or resolves outside the index space: its stack, of one slot per entity,
  never overflows.\<close>

theorem dce_succeeds_iff:
  "(\<exists>r. dce_reach c m = Inr r) \<longleftrightarrow>
     (\<forall>e. live c (dce_body m) (dce_roots m) e \<longrightarrow>
        (\<exists>es. seq_refs c (dce_body m e) = Inr es \<and> set es \<subseteq> {..<dce_universe m}))"
proof
  assume "\<exists>r. dce_reach c m = Inr r"
  then obtain r where "dce_run c (dce_body m) (dce_roots m) (dce_universe m) = Inr r" by (auto simp: dce_reach_def)
  from dce_run_live(3) [OF this] show "\<forall>e. live c (dce_body m) (dce_roots m) e \<longrightarrow>
        (\<exists>es. seq_refs c (dce_body m e) = Inr es \<and> set es \<subseteq> {..<dce_universe m})" by blast
next
  assume "\<forall>e. live c (dce_body m) (dce_roots m) e \<longrightarrow>
        (\<exists>es. seq_refs c (dce_body m e) = Inr es \<and> set es \<subseteq> {..<dce_universe m})"
  moreover have "set (dce_roots m) \<subseteq> {..<dce_universe m}"
    by (auto simp: dce_roots_def dce_universe_def n_all_funcs_def)
  ultimately show "\<exists>r. dce_reach c m = Inr r"
    unfolding dce_reach_def by (intro dce_run_total) auto
qed

theorem dce_succeeds_iff_witness:
  "\<exists>es. seq_refs (with_names ctx0 ex_fields) (dce_body ex_fields 0) = Inr es \<and> set es \<subseteq> {..<dce_universe ex_fields}"
proof -
  have "live (with_names ctx0 ex_fields) (dce_body ex_fields) (dce_roots ex_fields) 0"
    by (rule live.root) code_simp
  with dce_succeeds_iff [of "with_names ctx0 ex_fields" ex_fields] ex_reach show ?thesis by blast
qed

text \<open>C32: The remaps number the survivors consecutively in their old order, the imports first: the
  entries of the kept functions (globals) are \<open>0, 1, 2, ...\<close>, and every other entry is
  \<open>DEAD\<close>.\<close>

theorem remaps_consecutive:
  "map (\<lambda>i. number_live n lv ! i) (filter (\<lambda>i. lv ! i) [0..<length lv]) = [n..<n + n_live lv]
   \<and> map (\<lambda>i. number_live n lv ! i) (filter (\<lambda>i. \<not> lv ! i) [0..<length lv])
       = replicate (length lv - n_live lv) DEAD"
proof
  show "map (\<lambda>i. number_live n lv ! i) (filter (\<lambda>i. lv ! i) [0..<length lv]) = [n..<n + n_live lv]"
    by (rule number_live_survivors)
  have "length (filter (\<lambda>i. \<not> lv ! i) [0..<length lv]) + length (filter (\<lambda>i. lv ! i) [0..<length lv])
      = length lv"
    using sum_length_filter_compl [of "\<lambda>i. lv ! i" "[0..<length lv]"] by simp
  moreover have "length (filter (\<lambda>i. lv ! i) [0..<length lv]) = n_live lv"
    using arg_cong [OF number_live_survivors [of n lv], of length] by simp
  ultimately have len: "length (filter (\<lambda>i. \<not> lv ! i) [0..<length lv]) = length lv - n_live lv" by simp
  have "map (\<lambda>i. number_live n lv ! i) (filter (\<lambda>i. \<not> lv ! i) [0..<length lv])
      = map (\<lambda>i. DEAD) (filter (\<lambda>i. \<not> lv ! i) [0..<length lv])"
    by (rule map_cong) (auto simp: number_live_nth)
  then show "map (\<lambda>i. number_live n lv ! i) (filter (\<lambda>i. \<not> lv ! i) [0..<length lv])
       = replicate (length lv - n_live lv) DEAD"
    by (simp add: len map_replicate_const)
qed

text \<open>C20: Dropping is safe: the bytes of a kept function do not depend on what the function,
  global and signature remaps hold for dropped entities, so no index of a dropped entity, and
  in particular no \<open>DEAD\<close>, reaches them. (No string literal may stand for a call or a global
  access in the code.)\<close>

theorem dropped_entries_unused:
  assumes "dce_reach (with_names c m) m = Inr r" and "dce_universe m < 2 ^ 32"
    and "live_sigs (with_remaps (with_names c m) m (Some r)) m (live_funcs m (Some r)) = Inr sl"
    and "i < length (m_funcs m)" and "r ! (n_imports m + i)" and "list_all quiet (fbody (m_funcs m ! i))"
    and "agree_live (func_reach m r) (func_numbers m r) fr"
    and "agree_live (live_globals m (Some r)) (global_numbers m r) gr"
    and "agree_live sl (number_live 0 sl) sr"
  shows "encode_code (remap_ctx (with_names c m) (Some fr) (Some gr) (Some sr)) (m_sigs m) (m_funcs m ! i)
    = encode_code ((with_remaps (with_names c m) m (Some r))\<lparr>sig_remap := Some (number_live 0 sl)\<rparr>)
        (m_sigs m) (m_funcs m ! i)"
  using assms by (rule encode_code_dead)

theorem dropped_entries_unused_witness:
  "encode_code (remap_ctx (with_names ctx0 ex_fields) (Some [0, 77, 1]) (Some [88, 0]) (Some [0]))
      [empty_sig] (m_funcs ex_fields ! 2)
   = encode_code ((with_remaps (with_names ctx0 ex_fields) ex_fields (Some [True, False, True, False, True]))
        \<lparr>sig_remap := Some [0]\<rparr>) [empty_sig] (m_funcs ex_fields ! 2)"
proof -
  have "m_sigs ex_fields = [empty_sig]" "number_live 0 [True] = [0]" by (simp_all add: ex_fields_def)
  moreover have "dce_universe ex_fields < 2 ^ 32" "2 < length (m_funcs ex_fields)"
    "[True, False, True, False, True] ! (n_imports ex_fields + 2)" "list_all quiet (fbody (m_funcs ex_fields ! 2))"
    by (simp_all add: ex_defs)
  moreover have "agree_live (func_reach ex_fields [True, False, True, False, True])
      (func_numbers ex_fields [True, False, True, False, True]) [0, 77, 1]"
    "agree_live (live_globals ex_fields (Some [True, False, True, False, True]))
      (global_numbers ex_fields [True, False, True, False, True]) [88, 0]"
    "agree_live [True] (number_live 0 [True]) [0]"
    by (simp_all add: agree_live_zip ex_defs func_reach_def func_numbers_def global_numbers_def live_funcs_def
        live_globals_def upt_rec)
  ultimately show ?thesis
    using dropped_entries_unused [OF ex_reach _ ex_live_sigs, of 2 "[0, 77, 1]" "[88, 0]" "[0]"] by simp
qed

section \<open>The bytes of a module\<close>



text \<open>C9: Every assembled module is the magic number and version, then sections that a decoder splits
  again: their ids come in the order the specification wants, each has the length its header
  says, and the function section and the code section announce the same number of functions.\<close>

theorem module_sections_decode:
  assumes "emit_module c gs m reach n = Inr bs" and "length bs < 2 ^ 32"
  shows "\<exists>ss fb cb. take 8 bs = wasm_header \<and> decode_sections (drop 8 bs) = Some ss
    \<and> map fst ss = section_ids m
    \<and> (3, uleb_n (length (select_live (m_funcs m) (live_funcs m reach))) @ fb) \<in> set ss
    \<and> (10, uleb_n (length (select_live (m_funcs m) (live_funcs m reach))) @ cb) \<in> set ss"
proof -
  from emit_module_sections [OF assms(1)] obtain ss fb cb where s:
    "bs = wasm_header @ put_sections ss" "map fst ss = section_ids m" "\<forall>(sid, b) \<in> set ss. b \<noteq> []"
    "(3, uleb_n (length (select_live (m_funcs m) (live_funcs m reach))) @ fb) \<in> set ss"
    "(10, uleb_n (length (select_live (m_funcs m) (live_funcs m reach))) @ cb) \<in> set ss" by blast
  have h: "length wasm_header = 8" by (simp add: wasm_header_def)
  have "length (put_sections ss) < 2 ^ 32" using assms(2) s(1) by simp
  then have "list_all (\<lambda>(sid, b). b \<noteq> [] \<and> length b < 2 ^ 32) ss"
    using s(3) put_sections_length le_less_trans by (fastforce simp: list_all_iff)
  from decode_put_sections [OF this] s h show ?thesis by (intro exI [of _ ss] exI [of _ fb] exI [of _ cb]) simp
qed

theorem module_sections_decode_witness:
  "\<exists>bs ss. emit_module ctx0 [] no_fields None 0 = Inr bs \<and> decode_sections (drop 8 bs) = Some ss
     \<and> map fst ss = [1, 2, 3, 13, 6, 7, 9, 10, 11]"
proof -
  have "\<exists>bs. emit_module ctx0 [] no_fields None 0 = Inr bs \<and> length bs < 2 ^ 32"
    by (simp add: emit_module_def no_fields_def ctx0_def live_funcs_def live_globals_def type_section_def
        export_section_def elem_section_def declared_funcs_def n_all_funcs_def n_imports_def kept_sigs_def
        data_section_def put_section_def uleb_n_def uleb.simps low7_def wasm_header_def)
  then obtain bs where bs: "emit_module ctx0 [] no_fields None 0 = Inr bs" "length bs < 2 ^ 32" by blast
  from module_sections_decode [OF bs] bs(1) show ?thesis
    by (auto simp: section_ids_def no_fields_def)
qed

text \<open>C33: The locals of a code entry are compressed without loss and as far as possible: expanding the
  runs gives the declared types back, no run is empty, and neighbouring runs have different
  types.\<close>

theorem local_runs_exact:
  "unrle (rle ts) = ts \<and> list_all (\<lambda>g. 0 < fst g) (rle ts) \<and> successively (\<lambda>g h. snd g \<noteq> snd h) (rle ts)"
  using unrle_rle rle_maximal rle_runs by (auto simp: list_all_iff)



end
