(* ===== verification/Wat_Findings.thy ===== *)
theory Wat_Findings
  imports Wat_Properties
begin

text \<open>
  Concrete inputs on which the assembler (\<open>src/src/wat2wasm.c\<close>) does not do what its comments or
  the WebAssembly text format say.
\<close>

section \<open>Locals before recovered parameters\<close>

text \<open>
  \<open>parse_func\<close> recovers the parameters of a \<open>(type $t)\<close> function "so declared locals are indexed
  after the params", but appends the placeholders behind the locals: the declared local gets
  index 0, the index of the first parameter.
\<close>

lemma recovered_params_come_last:
  "let t = SList [op_atom ''func'', SList [op_atom ''param'', op_atom ''i32'', op_atom ''i32''] 0] 0;
       c = ctx0\<lparr>decls := [\<lparr>dname = Some ''$t'', comptype = t, has_sub = False, is_final = False, supers = [],
                          field_names = []\<rparr>]\<rparr>;
       k = SList [op_atom ''func'', SList [op_atom ''type'', op_atom ''$t''] 0,
                  SList [op_atom ''local'', op_atom ''$x'', op_atom ''f64''] 0] 0
   in \<exists>fn. parse_func c k = Inr fn \<and> fn_params (fctx fn) = 2
        \<and> resolve_local (fctx fn) (Some (op_atom ''$x'')) = Inr 0
        \<and> map ltype (drop (fn_params (fctx fn)) (locals (fctx fn))) = [[0x7f]]"
  by (simp add: parse_func_def cstr_def collect_group_def group_entry_def first_def emit_valtype_def
      fc_add_local_def recover_params_def sig_finalize_def empty_func_def no_locals_def empty_sig_def Let_def
      resolve_type_def n_decl_types_def ctx0_def count_comptype_params_def group_count_def add_placeholder_def
      resolve_local_def eval_nat_numeral)

section \<open>A string literal as an instruction\<close>

text \<open>
  \<open>encode_plain\<close> does not look at \<open>is_string\<close>, so a string literal in a body is taken for the
  instruction it spells; \<open>dce_scan\<close> skips it, so the function it calls is dropped while the call
  stays, with the index \<open>0xffffffff\<close>.
\<close>

lemma string_is_an_instruction:
  "encode_seq ctx0 no_locals [] None [Atom True ''nop'' 0] = Inr ([0x01], Some (Atom True ''nop'' 0), [])"
proof -
  have "find_op ''nop'' = Some 0x01" by (simp add: find_op_def OPS_def)
  note T = enc_simple_table [OF this, of "[]", simplified first_def, simplified]
  show ?thesis
    by (simp add: encode_seq.simps synth_plain_def plain_imm_count_def encode_operands.simps encode_instr.simps first_def T)
qed

lemma string_call_not_scanned:
  "seq_refs c [Atom True ''call'' 0, op_atom ''$f''] = Inr []"
  by (simp add: dce_target_def func_ref_ops_def global_ref_ops_def cstr_def first_def)

section \<open>Numeric indices out of range\<close>

text \<open>A numeric function index is not checked, so elimination marks outside its array.\<close>

lemma numeric_index_out_of_bounds:
  "dce_scan ctx0 [SList [op_atom ''call'', op_atom ''9''] 0] ([False, False], []) = Inl OutOfBounds"
  by (simp add: dce_target_def func_ref_ops_def cstr_def resolve_index_def first_def parse_u32_def parse_uint_def
      mark_opt_def dce_mark_def ctx0_def)

section \<open>Plain \<open>ref.func\<close> is not declared\<close>

text \<open>
  \<open>collect_reffunc\<close> looks at folded nodes only: the operand of a \<open>ref.func\<close> written plain is not put
  into the declarative element segment, and the module does not validate.
\<close>

lemma plain_ref_func_undeclared:
  "collect_reffuncs c [op_atom ''ref.func'', op_atom ''$f''] declared = Inr declared"
  by simp

end
