(* ===== verification/Ast.thy ===== *)
theory Ast
  imports Prelude
begin

text \<open>
  The syntax tree of the compiler (\<open>src/src/ast.h\<close>) and its node pool (\<open>src/src/ast.c\<close>).
  A pointer to a node is the node itself, since no node changes once it is linked into the tree;
  the exception, a \<open>LuaFunc\<close>, which is created before its body is parsed, is referred to by its
  \<open>func_idx\<close>, its index in the function table. A name (pointer and length) is its string. The
  label fields of \<open>STMT_GOTO\<close> and \<open>STMT_LABEL\<close> that the code generator fills in are not part of
  the tree.
\<close>

section \<open>The tree\<close>

datatype UpvalSource = UPVAL_FROM_LOCAL | UPVAL_FROM_UPVAL

record UpvalueRef =
  usrc :: UpvalSource
  uidx :: nat

datatype VarKind = VAR_LOCAL | VAR_UPVAL | VAR_BUILTIN | VAR_GLOBAL

datatype BinOp =
    BIN_ADD | BIN_SUB | BIN_MUL | BIN_DIV | BIN_FDIV | BIN_MOD | BIN_POW | BIN_BAND | BIN_BOR
  | BIN_BXOR | BIN_SHL | BIN_SHR | BIN_CONCAT | BIN_EQ | BIN_NEQ | BIN_LT | BIN_LE | BIN_GT | BIN_GE
  | BIN_AND | BIN_OR

datatype UnOp = UN_NEG | UN_NOT | UN_LEN | UN_BNOT

text \<open>Every expression starts with its line and whether it was wrapped in parentheses.\<close>

type_synonym ehead = "nat \<times> bool"

datatype Expr =
    EXPR_NIL ehead
  | EXPR_TRUE ehead
  | EXPR_FALSE ehead
  | EXPR_INT ehead u64
  | EXPR_FLOAT ehead u64
  | EXPR_STRING ehead string
  | EXPR_VAR ehead string VarKind nat bool
  | EXPR_CALL ehead Expr "Expr list"
  | EXPR_BINOP ehead BinOp Expr Expr
  | EXPR_UNOP ehead UnOp Expr
  | EXPR_FUNCTION ehead nat
  | EXPR_INDEX ehead Expr Expr
  | EXPR_TABLE ehead "TableEntry list"
  | EXPR_METHOD_CALL ehead Expr string "Expr list"
  | EXPR_VARARG ehead "Expr option" bool
and TableEntry =
    TENT_POSITIONAL Expr
  | TENT_KEY_EXPR Expr Expr

fun ehead :: "Expr \<Rightarrow> ehead" where
  "ehead (EXPR_NIL h) = h"
| "ehead (EXPR_TRUE h) = h"
| "ehead (EXPR_FALSE h) = h"
| "ehead (EXPR_INT h i) = h"
| "ehead (EXPR_FLOAT h f) = h"
| "ehead (EXPR_STRING h s) = h"
| "ehead (EXPR_VAR h n k i r) = h"
| "ehead (EXPR_CALL h f es) = h"
| "ehead (EXPR_BINOP h b l r) = h"
| "ehead (EXPR_UNOP h u e) = h"
| "ehead (EXPR_FUNCTION h f) = h"
| "ehead (EXPR_INDEX h t k) = h"
| "ehead (EXPR_TABLE h ts) = h"
| "ehead (EXPR_METHOD_CALL h r m es) = h"
| "ehead (EXPR_VARARG h t p) = h"

text \<open>\<open>e->paren = 1\<close>\<close>

fun with_paren :: "Expr \<Rightarrow> Expr" where
  "with_paren (EXPR_NIL (l, p)) = EXPR_NIL (l, True)"
| "with_paren (EXPR_TRUE (l, p)) = EXPR_TRUE (l, True)"
| "with_paren (EXPR_FALSE (l, p)) = EXPR_FALSE (l, True)"
| "with_paren (EXPR_INT (l, p) i) = EXPR_INT (l, True) i"
| "with_paren (EXPR_FLOAT (l, p) f) = EXPR_FLOAT (l, True) f"
| "with_paren (EXPR_STRING (l, p) s) = EXPR_STRING (l, True) s"
| "with_paren (EXPR_VAR (l, p) n k i r) = EXPR_VAR (l, True) n k i r"
| "with_paren (EXPR_CALL (l, p) f es) = EXPR_CALL (l, True) f es"
| "with_paren (EXPR_BINOP (l, p) b x y) = EXPR_BINOP (l, True) b x y"
| "with_paren (EXPR_UNOP (l, p) u e) = EXPR_UNOP (l, True) u e"
| "with_paren (EXPR_FUNCTION (l, p) f) = EXPR_FUNCTION (l, True) f"
| "with_paren (EXPR_INDEX (l, p) t k) = EXPR_INDEX (l, True) t k"
| "with_paren (EXPR_TABLE (l, p) ts) = EXPR_TABLE (l, True) ts"
| "with_paren (EXPR_METHOD_CALL (l, p) r m es) = EXPR_METHOD_CALL (l, True) r m es"
| "with_paren (EXPR_VARARG (l, p) t k) = EXPR_VARARG (l, True) t k"

datatype AssignTarget = TGT_VAR VarKind nat | TGT_INDEX Expr Expr

text \<open>
  The line comes first in every statement. \<open>STMT_LOCAL\<close>: slots, attributes with the names (if any
  name has one), values. \<open>STMT_FOR_GEN\<close>: names, slots, expressions, body, the line of its \<open>end\<close>.
  A \<open>Block\<close> is its statements and its \<open>end_line\<close>.
\<close>

datatype Stmt =
    STMT_LOCAL nat "nat list" "(nat list \<times> string list) option" "Expr list"
  | STMT_ASSIGN nat "AssignTarget list" "Expr list"
  | STMT_EXPR nat Expr
  | STMT_IF nat "(Expr \<times> Block) list" "Block option"
  | STMT_WHILE nat Expr Block
  | STMT_DO nat Block
  | STMT_RETURN nat "Expr list"
  | STMT_LOCAL_FUNC nat string nat nat
  | STMT_FOR_NUM nat string nat Expr Expr "Expr option" Block
  | STMT_FOR_GEN nat "string list" "nat list" "Expr list" Block nat
  | STMT_REPEAT nat Block Expr
  | STMT_BREAK nat
  | STMT_GLOBAL nat "nat list" "Expr list"
  | STMT_GOTO nat string
  | STMT_LABEL nat string
and Block = Block (items: "Stmt list") (end_line: nat)

record LuaFunc =
  lf_parent :: "nat option"
  lf_n_params :: nat
  lf_n_locals :: nat
  lf_upvalues :: "UpvalueRef list"
  lf_body :: Block
  lf_line :: nat
  lf_is_vararg :: bool
  lf_captured :: "bool list"

definition func_new :: "nat \<Rightarrow> LuaFunc" where
  "func_new line =
     \<lparr>lf_parent = None, lf_n_params = 0, lf_n_locals = 0, lf_upvalues = [], lf_body = Block [] 0,
      lf_line = line, lf_is_vararg = False, lf_captured = []\<rparr>"

section \<open>The node pool\<close>

text \<open>
  A chunked bump allocator. A chunk is named by the number of chunks below it in the list, and a
  pointer into its data by that number and the offset. \<open>bytes\<close> is a \<open>size_t\<close>: rounding it up to a
  multiple of 8 wraps around at 2^64.
\<close>

record PoolChunk =
  used :: nat
  cap :: nat

type_synonym NodePool = "PoolChunk list"

definition POOL_CHUNK_BYTES :: nat where
  "POOL_CHUNK_BYTES = 8192"

definition pool_aligned :: "u64 \<Rightarrow> nat" where
  "pool_aligned bytes = unat ((bytes + 7) AND NOT 7)"

definition node_pool_alloc :: "NodePool \<Rightarrow> u64 \<Rightarrow> (nat \<times> nat) \<times> NodePool" where
  "node_pool_alloc p bytes =
     (let aligned = pool_aligned bytes;
          p = (case p of
                 c # cs \<Rightarrow> if used c + aligned > cap c
                           then \<lparr>used = 0, cap = max aligned POOL_CHUNK_BYTES\<rparr> # p else p
               | [] \<Rightarrow> [\<lparr>used = 0, cap = max aligned POOL_CHUNK_BYTES\<rparr>])
      in case p of
           c # cs \<Rightarrow> ((length cs, used c), c\<lparr>used := used c + aligned\<rparr> # cs)
         | [] \<Rightarrow> ((0, 0), []))"

definition pool_ok :: "NodePool \<Rightarrow> bool" where
  "pool_ok p \<longleftrightarrow> (\<forall>c\<in>set p. used c \<le> cap c \<and> 8 dvd used c)"

text \<open>A region: chunk, offset, length.\<close>

definition region_in :: "NodePool \<Rightarrow> (nat \<times> nat) \<times> nat \<Rightarrow> bool" where
  "region_in p = (\<lambda>((c, off), n). c < length p \<and> off + n \<le> used (rev p ! c))"

lemma pool_aligned_eq: "pool_aligned b = unat (b + 7) div 8 * 8"
proof -
  have m: "(7 :: u64) = mask 3" by (simp add: mask_numeral)
  have "(b + 7) AND NOT 7 = push_bit 3 (drop_bit 3 (b + 7))"
    unfolding m by (rule bit_word_eqI) (auto simp: bit_simps)
  then have "pool_aligned b = unat (push_bit 3 (drop_bit 3 (b + 7)))" by (simp add: pool_aligned_def)
  also have "\<dots> = unat (b + 7) div 8 * 8"
  proof -
    have "unat (b + 7) div 8 * 8 < 2 ^ 64"
    proof -
      have "unat (b + 7) < 2 ^ 64" using unsigned_less [of "b + 7"] by simp
      moreover have "unat (b + 7) div 8 * 8 \<le> unat (b + 7)" by simp
      ultimately show ?thesis by (rule le_less_trans [rotated])
    qed
    then show ?thesis
      by (simp add: unsigned_push_bit_eq push_bit_nat_def unat_drop_bit_eq drop_bit_nat_def take_bit_nat_def)
  qed
  finally show ?thesis .
qed

lemma pool_aligned_dvd: "8 dvd pool_aligned b"
  by (simp add: pool_aligned_eq)

lemma pool_aligned_ge: "unat b \<le> 2 ^ 64 - 8 \<Longrightarrow> unat b \<le> pool_aligned b"
proof -
  assume "unat b \<le> 2 ^ 64 - 8"
  then have "unat (b + 7) = unat b + 7" by (simp add: unat_word_ariths)
  then show ?thesis unfolding pool_aligned_eq by linarith
qed

lemma rev_top: "rev (c # cs) ! length cs = c"
  by (simp add: nth_append)

lemma region_in_Cons: "region_in cs r \<Longrightarrow> region_in (c # cs) r"
  by (auto simp: region_in_def nth_append split: prod.splits)

lemma region_in_top:
  assumes "region_in (c # cs) r" and "used c \<le> used c'"
  shows "region_in (c' # cs) r"
  using assms by (auto simp: region_in_def nth_append less_Suc_eq split: prod.splits if_splits)

lemma node_pool_alloc_step:
  assumes p: "pool_ok p" and a: "node_pool_alloc p b = ((k, off), p')"
  shows "pool_ok p' \<and> region_in p' ((k, off), pool_aligned b) \<and> 8 dvd off
    \<and> used (rev p' ! k) \<le> cap (rev p' ! k)
    \<and> (region_in p r \<longrightarrow> region_in p' r \<and> (fst (fst r) = k \<longrightarrow> snd (fst r) + snd r \<le> off))"
proof -
  let ?n = "pool_aligned b" and ?new = "\<lparr>used = 0, cap = max (pool_aligned b) POOL_CHUNK_BYTES\<rparr>"
  obtain c cs where c: "(case p of c # cs \<Rightarrow> if used c + ?n > cap c then ?new # p else p | [] \<Rightarrow> [?new]) = c # cs"
    "used c + ?n \<le> cap c" "pool_ok (c # cs)" "region_in p r \<longrightarrow> region_in (c # cs) r"
  proof (cases p)
    case Nil
    with that [of ?new "[]"] show thesis by (simp add: pool_ok_def region_in_def split: prod.splits)
  next
    case (Cons d ds)
    show thesis
    proof (cases "used d + ?n > cap d")
      case True
      with Cons p that [of ?new p] region_in_Cons [of p r ?new] show thesis by (simp add: pool_ok_def)
    next
      case False
      with Cons p that [of d ds] show thesis by simp
    qed
  qed
  from a c(1) have r: "k = length cs" "off = used c" "p' = c\<lparr>used := used c + ?n\<rparr> # cs"
    by (auto simp: node_pool_alloc_def Let_def)
  have "8 dvd used c" using c(3) by (simp add: pool_ok_def)
  then have "pool_ok p'" using c(2,3) pool_aligned_dvd [of b] by (auto simp: r pool_ok_def)
  moreover have "region_in p' ((k, off), ?n)" by (simp add: r region_in_def nth_append)
  moreover have "region_in (c # cs) r \<longrightarrow> region_in p' r" unfolding r using region_in_top [of c cs r] by simp
  moreover have "region_in (c # cs) r \<longrightarrow> fst (fst r) = k \<longrightarrow> snd (fst r) + snd r \<le> off"
    by (auto simp: r region_in_def nth_append split: prod.splits)
  ultimately show ?thesis using c(2,4) \<open>8 dvd used c\<close> by (simp add: r nth_append)
qed

fun pool_allocs :: "NodePool \<Rightarrow> u64 list \<Rightarrow> (nat \<times> nat) list \<times> NodePool" where
  "pool_allocs p [] = ([], p)"
| "pool_allocs p (b # bs) =
     (case node_pool_alloc p b of (ptr, p) \<Rightarrow> case pool_allocs p bs of (ptrs, p) \<Rightarrow> (ptr # ptrs, p))"

lemma pool_allocs_regions:
  "pool_ok p \<Longrightarrow> pool_allocs p bs = (ptrs, p') \<Longrightarrow>
    length ptrs = length bs \<and> pool_ok p'
    \<and> (\<forall>i<length bs. region_in p' (ptrs ! i, pool_aligned (bs ! i)) \<and> 8 dvd snd (ptrs ! i))
    \<and> (\<forall>r. region_in p r \<longrightarrow> region_in p' r
         \<and> (\<forall>i<length bs. fst (ptrs ! i) = fst (fst r) \<longrightarrow> snd (fst r) + snd r \<le> snd (ptrs ! i)))
    \<and> (\<forall>j<length bs. \<forall>i<j. fst (ptrs ! i) = fst (ptrs ! j)
         \<longrightarrow> snd (ptrs ! i) + pool_aligned (bs ! i) \<le> snd (ptrs ! j))"
proof (induction bs arbitrary: p ptrs)
  case (Cons b bs)
  obtain k off q where a: "node_pool_alloc p b = ((k, off), q)" by (metis surj_pair)
  obtain qs where q: "pool_allocs q bs = (qs, p')" "ptrs = (k, off) # qs"
    using Cons.prems(2) a by (auto split: prod.splits)
  note st = node_pool_alloc_step [OF Cons.prems(1) a]
  from st have "pool_ok q" "8 dvd off" and top: "region_in q ((k, off), pool_aligned b)" by auto
  note IH = Cons.IH [OF \<open>pool_ok q\<close> q(1)]
  have old: "region_in p' r \<and> (\<forall>i<length (b # bs). fst (ptrs ! i) = fst (fst r) \<longrightarrow> snd (fst r) + snd r \<le> snd (ptrs ! i))"
    if "region_in p r" for r
  proof -
    from st [of r] that have r: "region_in q r" "fst (fst r) = k \<longrightarrow> snd (fst r) + snd r \<le> off" by auto
    from IH r(1) have later: "region_in p' r"
      "\<forall>i<length bs. fst (qs ! i) = fst (fst r) \<longrightarrow> snd (fst r) + snd r \<le> snd (qs ! i)" by blast+
    show ?thesis
    proof (intro conjI allI impI)
      show "region_in p' r" by (rule later(1))
      fix i assume "i < length (b # bs)" "fst (ptrs ! i) = fst (fst r)"
      then show "snd (fst r) + snd r \<le> snd (ptrs ! i)" using later(2) r(2) q(2) by (cases i) auto
    qed
  qed
  have new: "region_in p' (ptrs ! i, pool_aligned ((b # bs) ! i)) \<and> 8 dvd snd (ptrs ! i)" if "i < length (b # bs)" for i
    using IH that top \<open>8 dvd off\<close> q(2) by (cases i) auto
  have sep: "snd (ptrs ! i) + pool_aligned ((b # bs) ! i) \<le> snd (ptrs ! j)"
    if "j < length (b # bs)" "i < j" "fst (ptrs ! i) = fst (ptrs ! j)" for i j
  proof (cases i)
    case 0
    with IH top that q(2) show ?thesis by (cases j) auto
  next
    case (Suc i')
    with IH that q(2) show ?thesis by (cases j) auto
  qed
  have len: "length ptrs = length (b # bs)" "pool_ok p'" using IH q(2) by auto
  show ?case
  proof (intro conjI allI impI)
    fix i assume "i < length (b # bs)"
    then show "region_in p' (ptrs ! i, pool_aligned ((b # bs) ! i))" "8 dvd snd (ptrs ! i)" using new by blast+
  next
    fix r i assume "region_in p r" "i < length (b # bs)" "fst (ptrs ! i) = fst (fst r)"
    then show "snd (fst r) + snd r \<le> snd (ptrs ! i)" using old by blast
  next
    fix i j assume "j < length (b # bs)" "i < j" "fst (ptrs ! i) = fst (ptrs ! j)"
    then show "snd (ptrs ! i) + pool_aligned ((b # bs) ! i) \<le> snd (ptrs ! j)" by (rule sep)
  qed (use len old in blast)+
qed simp



end
