(* ===== verification/Builtins.thy ===== *)
theory Builtins
  imports Prelude
begin

text \<open>
  The table of predeclared functions (\<open>src/src/builtins.c\<close>): its rows (name, wasm symbol, class),
  the lookup of top-level names, and the accessors. The C table stores the lengths of the names
  beside them; an index outside the table is None (in C it is undefined).
\<close>

datatype BuiltinClass =
    BLT_TOPLEVEL | BLT_LIB_MATH | BLT_LIB_STRING | BLT_LIB_IO | BLT_LIB_TABLE | BLT_LIB_UTF8
  | BLT_LIB_DEBUG | BLT_LIB_OS

definition BUILTINS :: "(string \<times> string \<times> BuiltinClass) list" where
  "BUILTINS =
     [(''print'', ''$builtin_print'', BLT_TOPLEVEL),
      (''error'', ''$builtin_error'', BLT_TOPLEVEL),
      (''pcall'', ''$builtin_pcall'', BLT_TOPLEVEL),
      (''xpcall'', ''$builtin_xpcall'', BLT_TOPLEVEL),
      (''warn'', ''$builtin_warn'', BLT_TOPLEVEL),
      (''type'', ''$builtin_type'', BLT_TOPLEVEL),
      (''tostring'', ''$builtin_tostring'', BLT_TOPLEVEL),
      (''tonumber'', ''$builtin_tonumber'', BLT_TOPLEVEL),
      (''ipairs'', ''$builtin_ipairs'', BLT_TOPLEVEL),
      (''pairs'', ''$builtin_pairs'', BLT_TOPLEVEL),
      (''next'', ''$builtin_next'', BLT_TOPLEVEL),
      (''setmetatable'', ''$builtin_setmetatable'', BLT_TOPLEVEL),
      (''getmetatable'', ''$builtin_getmetatable'', BLT_TOPLEVEL),
      (''assert'', ''$builtin_assert'', BLT_TOPLEVEL),
      (''select'', ''$builtin_select'', BLT_TOPLEVEL),
      (''rawequal'', ''$builtin_rawequal'', BLT_TOPLEVEL),
      (''rawlen'', ''$builtin_rawlen'', BLT_TOPLEVEL),
      (''rawget'', ''$builtin_rawget'', BLT_TOPLEVEL),
      (''rawset'', ''$builtin_rawset'', BLT_TOPLEVEL),
      (''_ipairs_iter'', ''$builtin_ipairs_iter'', BLT_TOPLEVEL),
      (''_utf8_codes_iter'', ''$builtin_utf8_codes_iter'', BLT_TOPLEVEL),
      (''require'', ''$builtin_require'', BLT_TOPLEVEL),
      (''collectgarbage'', ''$builtin_collectgarbage'', BLT_TOPLEVEL),
      (''load'', ''$builtin_load'', BLT_TOPLEVEL),
      (''floor'', ''$builtin_math_floor'', BLT_LIB_MATH),
      (''abs'', ''$builtin_math_abs'', BLT_LIB_MATH),
      (''sqrt'', ''$builtin_math_sqrt'', BLT_LIB_MATH),
      (''ceil'', ''$builtin_math_ceil'', BLT_LIB_MATH),
      (''min'', ''$builtin_math_min'', BLT_LIB_MATH),
      (''max'', ''$builtin_math_max'', BLT_LIB_MATH),
      (''sin'', ''$builtin_math_sin'', BLT_LIB_MATH),
      (''cos'', ''$builtin_math_cos'', BLT_LIB_MATH),
      (''tan'', ''$builtin_math_tan'', BLT_LIB_MATH),
      (''asin'', ''$builtin_math_asin'', BLT_LIB_MATH),
      (''acos'', ''$builtin_math_acos'', BLT_LIB_MATH),
      (''atan'', ''$builtin_math_atan'', BLT_LIB_MATH),
      (''exp'', ''$builtin_math_exp'', BLT_LIB_MATH),
      (''log'', ''$builtin_math_log'', BLT_LIB_MATH),
      (''deg'', ''$builtin_math_deg'', BLT_LIB_MATH),
      (''rad'', ''$builtin_math_rad'', BLT_LIB_MATH),
      (''fmod'', ''$builtin_math_fmod'', BLT_LIB_MATH),
      (''modf'', ''$builtin_math_modf'', BLT_LIB_MATH),
      (''tointeger'', ''$builtin_math_tointeger'', BLT_LIB_MATH),
      (''type'', ''$builtin_math_type'', BLT_LIB_MATH),
      (''ult'', ''$builtin_math_ult'', BLT_LIB_MATH),
      (''random'', ''$builtin_math_random'', BLT_LIB_MATH),
      (''randomseed'', ''$builtin_math_randomseed'', BLT_LIB_MATH),
      (''len'', ''$builtin_string_len'', BLT_LIB_STRING),
      (''sub'', ''$builtin_string_sub'', BLT_LIB_STRING),
      (''format'', ''$builtin_string_format'', BLT_LIB_STRING),
      (''upper'', ''$builtin_string_upper'', BLT_LIB_STRING),
      (''lower'', ''$builtin_string_lower'', BLT_LIB_STRING),
      (''reverse'', ''$builtin_string_reverse'', BLT_LIB_STRING),
      (''rep'', ''$builtin_string_rep'', BLT_LIB_STRING),
      (''byte'', ''$builtin_string_byte'', BLT_LIB_STRING),
      (''char'', ''$builtin_string_char'', BLT_LIB_STRING),
      (''find'', ''$builtin_string_find'', BLT_LIB_STRING),
      (''match'', ''$builtin_string_match'', BLT_LIB_STRING),
      (''gmatch'', ''$builtin_string_gmatch'', BLT_LIB_STRING),
      (''gsub'', ''$builtin_string_gsub'', BLT_LIB_STRING),
      (''packsize'', ''$builtin_string_packsize'', BLT_LIB_STRING),
      (''pack'', ''$builtin_string_pack'', BLT_LIB_STRING),
      (''unpack'', ''$builtin_string_unpack'', BLT_LIB_STRING),
      (''char'', ''$builtin_utf8_char'', BLT_LIB_UTF8),
      (''len'', ''$builtin_utf8_len'', BLT_LIB_UTF8),
      (''codepoint'', ''$builtin_utf8_codepoint'', BLT_LIB_UTF8),
      (''offset'', ''$builtin_utf8_offset'', BLT_LIB_UTF8),
      (''codes'', ''$builtin_utf8_codes'', BLT_LIB_UTF8),
      (''write'', ''$builtin_io_write'', BLT_LIB_IO),
      (''read'', ''$builtin_io_read'', BLT_LIB_IO),
      (''open'', ''$builtin_io_open'', BLT_LIB_IO),
      (''lines'', ''$builtin_io_lines'', BLT_LIB_IO),
      (''type'', ''$io_type'', BLT_LIB_IO),
      (''output'', ''$builtin_io_output'', BLT_LIB_IO),
      (''input'', ''$builtin_io_input'', BLT_LIB_IO),
      (''_handle_write'', ''$io_handle_write'', BLT_LIB_IO),
      (''_handle_err_write'', ''$io_handle_err_write'', BLT_LIB_IO),
      (''_handle_read'', ''$io_handle_read'', BLT_LIB_IO),
      (''_handle_noop'', ''$io_handle_noop'', BLT_LIB_IO),
      (''_file_read'', ''$file_read'', BLT_LIB_IO),
      (''_file_write'', ''$file_write'', BLT_LIB_IO),
      (''_file_close'', ''$file_close'', BLT_LIB_IO),
      (''_file_flush'', ''$file_flush'', BLT_LIB_IO),
      (''_file_seek'', ''$file_seek'', BLT_LIB_IO),
      (''_file_lines'', ''$file_lines'', BLT_LIB_IO),
      (''_io_lines_iter'', ''$io_lines_iter'', BLT_LIB_IO),
      (''insert'', ''$builtin_table_insert'', BLT_LIB_TABLE),
      (''remove'', ''$builtin_table_remove'', BLT_LIB_TABLE),
      (''concat'', ''$builtin_table_concat'', BLT_LIB_TABLE),
      (''unpack'', ''$builtin_table_unpack'', BLT_LIB_TABLE),
      (''pack'', ''$builtin_table_pack'', BLT_LIB_TABLE),
      (''move'', ''$builtin_table_move'', BLT_LIB_TABLE),
      (''create'', ''$builtin_table_create'', BLT_LIB_TABLE),
      (''sort'', ''$builtin_table_sort'', BLT_LIB_TABLE),
      (''traceback'', ''$builtin_debug_traceback'', BLT_LIB_DEBUG),
      (''getmetatable'', ''$builtin_debug_getmetatable'', BLT_LIB_DEBUG),
      (''setmetatable'', ''$builtin_debug_setmetatable'', BLT_LIB_DEBUG),
      (''gethook'', ''$builtin_debug_gethook'', BLT_LIB_DEBUG),
      (''time'', ''$builtin_os_time'', BLT_LIB_OS),
      (''clock'', ''$builtin_os_clock'', BLT_LIB_OS),
      (''date'', ''$builtin_os_date'', BLT_LIB_OS),
      (''getenv'', ''$builtin_os_getenv'', BLT_LIB_OS),
      (''exit'', ''$builtin_os_exit'', BLT_LIB_OS),
      (''execute'', ''$builtin_os_execute'', BLT_LIB_OS),
      (''remove'', ''$builtin_os_remove'', BLT_LIB_OS),
      (''rename'', ''$builtin_os_rename'', BLT_LIB_OS),
      (''tmpname'', ''$builtin_os_tmpname'', BLT_LIB_OS),
      (''difftime'', ''$builtin_os_difftime'', BLT_LIB_OS),
      (''setlocale'', ''$builtin_os_setlocale'', BLT_LIB_OS)]"

text \<open>The scan of \<open>lookup_builtin\<close> from row \<open>i\<close> on; None is the result -1.\<close>

fun lookup_from :: "nat \<Rightarrow> (string \<times> string \<times> BuiltinClass) list \<Rightarrow> string \<Rightarrow> nat option" where
  "lookup_from i [] name = None"
| "lookup_from i ((n, f, c) # rows) name =
     (if c \<noteq> BLT_TOPLEVEL then lookup_from (i + 1) rows name
      else if at n = CHR ''_'' then lookup_from (i + 1) rows name
      else if n = name then Some i
      else lookup_from (i + 1) rows name)"

definition lookup_builtin :: "string \<Rightarrow> nat option" where
  "lookup_builtin name = lookup_from 0 BUILTINS name"

definition builtin_count :: nat where
  "builtin_count = length BUILTINS"

definition builtin_row :: "nat \<Rightarrow> (string \<times> string \<times> BuiltinClass) option" where
  "builtin_row i = (if i < length BUILTINS then Some (BUILTINS ! i) else None)"

definition builtin_name :: "nat \<Rightarrow> string option" where
  "builtin_name i = map_option fst (builtin_row i)"

definition builtin_func_name :: "nat \<Rightarrow> string option" where
  "builtin_func_name i = map_option (fst \<circ> snd) (builtin_row i)"

definition builtin_class :: "nat \<Rightarrow> BuiltinClass option" where
  "builtin_class i = map_option (snd \<circ> snd) (builtin_row i)"

definition builtin_lib_key :: "nat \<Rightarrow> string option" where
  "builtin_lib_key i = builtin_name i"

definition FAST_ENTRIES :: "string list" where
  "FAST_ENTRIES =
     [''$builtin_string_byte'',
      ''$builtin_string_sub'',
      ''$builtin_string_len'',
      ''$builtin_string_char'',
      ''$builtin_string_upper'',
      ''$builtin_string_lower'',
      ''$builtin_string_rep'',
      ''$builtin_math_floor'',
      ''$builtin_math_ceil'',
      ''$builtin_math_abs'',
      ''$builtin_math_sqrt'',
      ''$builtin_math_sin'',
      ''$builtin_math_cos'',
      ''$builtin_math_min'',
      ''$builtin_math_max'',
      ''$builtin_type'',
      ''$builtin_tostring'',
      ''$builtin_setmetatable'',
      ''$builtin_table_insert'']"

definition builtin_has_fast_entry :: "nat \<Rightarrow> bool option" where
  "builtin_has_fast_entry i = map_option (\<lambda>f. f \<in> set FAST_ENTRIES) (builtin_func_name i)"

lemma lookup_from_Some:
  "lookup_from i rows name = Some k \<Longrightarrow>
    i \<le> k \<and> k < i + length rows \<and> fst (rows ! (k - i)) = name \<and> snd (snd (rows ! (k - i))) = BLT_TOPLEVEL
    \<and> at name \<noteq> CHR ''_''"
proof (induction i rows name rule: lookup_from.induct)
  case (2 i n f c rows name)
  show ?case
  proof (cases "c = BLT_TOPLEVEL \<and> at n \<noteq> CHR ''_'' \<and> n = name")
    case True
    with 2(4) show ?thesis by auto
  next
    case False
    with 2 have "i + 1 \<le> k \<and> k < i + 1 + length rows \<and> fst (rows ! (k - (i + 1))) = name
        \<and> snd (snd (rows ! (k - (i + 1)))) = BLT_TOPLEVEL \<and> at name \<noteq> CHR ''_''"
      by (auto split: if_splits)
    moreover from this have "k - i = Suc (k - (i + 1))" by linarith
    ultimately show ?thesis by simp
  qed
qed simp

lemma lookup_from_None:
  "lookup_from i rows name = None \<longleftrightarrow>
    (\<forall>(n, f, c)\<in>set rows. c = BLT_TOPLEVEL \<longrightarrow> at n \<noteq> CHR ''_'' \<longrightarrow> n \<noteq> name)"
  by (induction i rows name rule: lookup_from.induct) auto

text \<open>C39: A name resolves to a builtin exactly when it is the name of a top-level row that users may
  name (no leading underscore), and the index returned is that of a row with this name.\<close>

theorem lookup_builtin_exact:
  "case lookup_builtin name of
     Some i \<Rightarrow> builtin_name i = Some name \<and> builtin_class i = Some BLT_TOPLEVEL \<and> at name \<noteq> CHR ''_''
   | None \<Rightarrow> (\<forall>(n, f, c)\<in>set BUILTINS. \<not> (c = BLT_TOPLEVEL \<and> at n \<noteq> CHR ''_'' \<and> n = name))"
  using lookup_from_Some [of 0 BUILTINS name] lookup_from_None [of 0 BUILTINS name]
  by (auto simp: lookup_builtin_def builtin_name_def builtin_class_def builtin_row_def split: option.splits)

lemma lookup_builtin_exact_witness:
  "lookup_builtin ''print'' = Some 0 \<and> builtin_name 0 = Some ''print''"
  using lookup_builtin_exact [of "''print''"]
  by (simp add: lookup_builtin_def BUILTINS_def del: builtin_name_def)

end
