(* ===== verification/Lexer.thy ===== *)
theory Lexer
  imports Prelude
begin

text \<open>
  The Lua lexer (\<open>src/src/lexer.c\<close>, \<open>src/src/lexer.h\<close>): from the source text to the token array the
  parser reads. The source pointer \<open>L.p\<close> is the rest of the text (\<open>lp\<close>), a token's \<open>start\<close>
  pointer likewise. \<open>W\<close> is the width of \<open>unsigned long\<close> (64 for the native build, 32 for the
  compiler built to WebAssembly and on 64-bit Windows), which \<open>\u{...}\<close> depends on; \<open>strtod\<close> is the
  field of \<open>fp_env\<close>. The scratch buffer of a string literal is modelled with its size: a write
  outside it is the value None of \<open>lex_step\<close> and \<open>lex\<close>. Line numbers are natural numbers (the C
  counter is an \<open>int\<close>, so sources of 2^31 lines are out of scope).
\<close>

section \<open>Tokens\<close>

datatype TokKind =
    TOK_EOF | TOK_ERROR | TOK_IDENT | TOK_INT | TOK_FLOAT | TOK_STRING | TOK_LPAREN | TOK_RPAREN
    | TOK_LBRACE | TOK_RBRACE | TOK_LBRACKET | TOK_RBRACKET | TOK_COMMA | TOK_SEMI | TOK_COLON
    | TOK_DBLCOLON | TOK_DOT | TOK_CONCAT | TOK_ELLIPSIS | TOK_ASSIGN | TOK_PLUS | TOK_MINUS
    | TOK_STAR | TOK_SLASH | TOK_DSLASH | TOK_PERCENT | TOK_CARET | TOK_HASH | TOK_EQ | TOK_NEQ
    | TOK_LT | TOK_LE | TOK_GT | TOK_GE | TOK_AMP | TOK_PIPE | TOK_TILDE | TOK_SHL | TOK_SHR
    | TOK_KW_AND | TOK_KW_BREAK | TOK_KW_DO | TOK_KW_ELSE | TOK_KW_ELSEIF | TOK_KW_END
    | TOK_KW_FALSE | TOK_KW_FOR | TOK_KW_FUNCTION | TOK_KW_GOTO | TOK_KW_IF | TOK_KW_IN
    | TOK_KW_LOCAL | TOK_KW_NIL | TOK_KW_NOT | TOK_KW_OR | TOK_KW_REPEAT | TOK_KW_RETURN
    | TOK_KW_THEN | TOK_KW_TRUE | TOK_KW_UNTIL | TOK_KW_WHILE

record Token =
  kind :: TokKind
  tstart :: string
  tlen :: nat
  tline :: nat
  i_val :: u64
  f_val :: u64
  str_buf :: string

fun tok_kind_name :: "TokKind \<Rightarrow> string" where
  "tok_kind_name TOK_EOF = ''EOF''"
| "tok_kind_name TOK_ERROR = ''ERROR''"
| "tok_kind_name TOK_IDENT = ''IDENT''"
| "tok_kind_name TOK_INT = ''INT''"
| "tok_kind_name TOK_FLOAT = ''FLOAT''"
| "tok_kind_name TOK_STRING = ''STRING''"
| "tok_kind_name TOK_LPAREN = ''(''"
| "tok_kind_name TOK_RPAREN = '')''"
| "tok_kind_name TOK_LBRACE = ''{''"
| "tok_kind_name TOK_RBRACE = ''}''"
| "tok_kind_name TOK_LBRACKET = ''[''"
| "tok_kind_name TOK_RBRACKET = '']''"
| "tok_kind_name TOK_COMMA = '',''"
| "tok_kind_name TOK_SEMI = '';''"
| "tok_kind_name TOK_COLON = '':''"
| "tok_kind_name TOK_DBLCOLON = ''::''"
| "tok_kind_name TOK_DOT = ''.''"
| "tok_kind_name TOK_CONCAT = ''..''"
| "tok_kind_name TOK_ELLIPSIS = ''...''"
| "tok_kind_name TOK_ASSIGN = ''=''"
| "tok_kind_name TOK_PLUS = ''+''"
| "tok_kind_name TOK_MINUS = ''-''"
| "tok_kind_name TOK_STAR = ''*''"
| "tok_kind_name TOK_SLASH = ''/''"
| "tok_kind_name TOK_DSLASH = ''//''"
| "tok_kind_name TOK_PERCENT = ''%''"
| "tok_kind_name TOK_CARET = ''^''"
| "tok_kind_name TOK_HASH = ''#''"
| "tok_kind_name TOK_EQ = ''==''"
| "tok_kind_name TOK_NEQ = ''~=''"
| "tok_kind_name TOK_LT = ''<''"
| "tok_kind_name TOK_LE = ''<=''"
| "tok_kind_name TOK_GT = ''>''"
| "tok_kind_name TOK_GE = ''>=''"
| "tok_kind_name TOK_AMP = ''&''"
| "tok_kind_name TOK_PIPE = ''|''"
| "tok_kind_name TOK_TILDE = ''~''"
| "tok_kind_name TOK_SHL = ''<<''"
| "tok_kind_name TOK_SHR = ''>>''"
| "tok_kind_name TOK_KW_AND = ''and''"
| "tok_kind_name TOK_KW_BREAK = ''break''"
| "tok_kind_name TOK_KW_DO = ''do''"
| "tok_kind_name TOK_KW_ELSE = ''else''"
| "tok_kind_name TOK_KW_ELSEIF = ''elseif''"
| "tok_kind_name TOK_KW_END = ''end''"
| "tok_kind_name TOK_KW_FALSE = ''false''"
| "tok_kind_name TOK_KW_FOR = ''for''"
| "tok_kind_name TOK_KW_FUNCTION = ''function''"
| "tok_kind_name TOK_KW_GOTO = ''goto''"
| "tok_kind_name TOK_KW_IF = ''if''"
| "tok_kind_name TOK_KW_IN = ''in''"
| "tok_kind_name TOK_KW_LOCAL = ''local''"
| "tok_kind_name TOK_KW_NIL = ''nil''"
| "tok_kind_name TOK_KW_NOT = ''not''"
| "tok_kind_name TOK_KW_OR = ''or''"
| "tok_kind_name TOK_KW_REPEAT = ''repeat''"
| "tok_kind_name TOK_KW_RETURN = ''return''"
| "tok_kind_name TOK_KW_THEN = ''then''"
| "tok_kind_name TOK_KW_TRUE = ''true''"
| "tok_kind_name TOK_KW_UNTIL = ''until''"
| "tok_kind_name TOK_KW_WHILE = ''while''"

text \<open>The growing array of tokens; \<open>titems\<close> is the allocated block.\<close>

record TokVec =
  titems :: "Token list"
  tcount :: nat
  tcap :: nat

definition tokvec0 :: TokVec where
  "tokvec0 = \<lparr>titems = [], tcount = 0, tcap = 0\<rparr>"

definition tok_zero :: Token where
  "tok_zero = \<lparr>kind = TOK_EOF, tstart = [], tlen = 0, tline = 0, i_val = 0, f_val = 0, str_buf = []\<rparr>"

definition push_tok :: "TokVec \<Rightarrow> Token \<Rightarrow> TokVec" where
  "push_tok v t =
     (let v = (if tcount v = tcap v
               then let c = (if tcap v \<noteq> 0 then tcap v * 2 else 16)
                    in v\<lparr>tcap := c, titems := titems v @ replicate (c - length (titems v)) tok_zero\<rparr>
               else v)
      in v\<lparr>titems := (titems v)[tcount v := t], tcount := tcount v + 1\<rparr>)"

definition toks :: "TokVec \<Rightarrow> Token list" where
  "toks v = take (tcount v) (titems v)"

definition tokvec_ok :: "TokVec \<Rightarrow> bool" where
  "tokvec_ok v \<longleftrightarrow> tcount v \<le> tcap v \<and> length (titems v) = tcap v"

lemma tokvec0_ok [simp]: "tokvec_ok tokvec0" "toks tokvec0 = []"
  by (simp_all add: tokvec_ok_def tokvec0_def toks_def)

lemma push_tok_ok [simp]:
  assumes "tokvec_ok v"
  shows "tokvec_ok (push_tok v t)" and "toks (push_tok v t) = toks v @ [t]"
  using assms
  by (auto simp: push_tok_def Let_def tokvec_ok_def toks_def take_Suc_conv_app_nth)

interpretation tokvec: growable "\<lambda>v t. Some (push_tok v t)" "\<lambda>t. [t]" toks tokvec_ok
  by unfold_locales simp

section \<open>Keywords\<close>

definition KEYWORDS :: "(string \<times> TokKind) list" where
  "KEYWORDS =
     [(''do'', TOK_KW_DO), (''if'', TOK_KW_IF), (''in'', TOK_KW_IN), (''or'', TOK_KW_OR),
      (''and'', TOK_KW_AND), (''end'', TOK_KW_END), (''for'', TOK_KW_FOR), (''nil'', TOK_KW_NIL),
      (''not'', TOK_KW_NOT), (''else'', TOK_KW_ELSE), (''goto'', TOK_KW_GOTO),
      (''then'', TOK_KW_THEN), (''true'', TOK_KW_TRUE), (''break'', TOK_KW_BREAK),
      (''false'', TOK_KW_FALSE), (''local'', TOK_KW_LOCAL), (''until'', TOK_KW_UNTIL),
      (''while'', TOK_KW_WHILE), (''elseif'', TOK_KW_ELSEIF), (''repeat'', TOK_KW_REPEAT),
      (''return'', TOK_KW_RETURN), (''function'', TOK_KW_FUNCTION)]"

text \<open>
  The table lookup with its prefilters: the length, then the first character, then \<open>memcmp\<close>.
  The C table stores the lengths beside the names.
\<close>

fun keyword_scan :: "(string \<times> TokKind) list \<Rightarrow> string \<Rightarrow> nat \<Rightarrow> TokKind" where
  "keyword_scan [] start n = TOK_IDENT"
| "keyword_scan ((kw, k) # ks) start n =
     (if length kw \<noteq> n then keyword_scan ks start n
      else if at kw \<noteq> at start then keyword_scan ks start n
      else if kw = take n start then k
      else keyword_scan ks start n)"

definition keyword_or_ident :: "string \<Rightarrow> nat \<Rightarrow> TokKind" where
  "keyword_or_ident start n =
     (if n < 2 \<or> n > 8 then TOK_IDENT else keyword_scan KEYWORDS start n)"

section \<open>The lexer state\<close>

record Lex =
  lp :: string
  lline :: nat
  lok :: bool
  lerr :: string

text \<open>Only the first error is kept; \<open>err\<close> has room for 255 characters.\<close>

definition lex_error :: "Lex \<Rightarrow> string \<Rightarrow> Lex" where
  "lex_error L msg =
     (if \<not> lok L then L
      else L\<lparr>lok := False, lerr := take 255 (''line '' @ dec_str (lline L) @ '': '' @ msg)\<rparr>)"

abbreviation adv :: "nat \<Rightarrow> Lex \<Rightarrow> Lex" where
  "adv n L \<equiv> L\<lparr>lp := drop n (lp L)\<rparr>"

definition hex_val :: "char \<Rightarrow> nat" where
  "hex_val c = (if is_digit c then code c - 48 else (code c OR 32) - 97 + 10)"

section \<open>Quoted strings\<close>

text \<open>
  The scan that bounds the decoded length by the distance to the closing quote: an escape and its
  next character count once.
\<close>

fun str_cap :: "char \<Rightarrow> string \<Rightarrow> nat" where
  "str_cap q [] = 0"
| "str_cap q (c # s) =
     (if c = q then 0
      else if c = BSLASH \<and> at s \<noteq> NUL then Suc (str_cap q (drop 1 s))
      else Suc (str_cap q s))"

definition byte_of :: "u64 \<Rightarrow> char" where
  "byte_of w = chr (unat w)"

text \<open>UTF-8 of a code point below 2^31, in up to six bytes.\<close>

definition utf8 :: "u64 \<Rightarrow> string" where
  "utf8 cp =
     (if cp < 0x80 then [byte_of cp]
      else if cp < 0x800 then
        [byte_of (0xC0 OR drop_bit 6 cp), byte_of (0x80 OR (cp AND 0x3F))]
      else if cp < 0x10000 then
        [byte_of (0xE0 OR drop_bit 12 cp), byte_of (0x80 OR (drop_bit 6 cp AND 0x3F)),
         byte_of (0x80 OR (cp AND 0x3F))]
      else if cp < 0x200000 then
        [byte_of (0xF0 OR drop_bit 18 cp), byte_of (0x80 OR (drop_bit 12 cp AND 0x3F)),
         byte_of (0x80 OR (drop_bit 6 cp AND 0x3F)), byte_of (0x80 OR (cp AND 0x3F))]
      else if cp < 0x4000000 then
        [byte_of (0xF8 OR drop_bit 24 cp), byte_of (0x80 OR (drop_bit 18 cp AND 0x3F)),
         byte_of (0x80 OR (drop_bit 12 cp AND 0x3F)), byte_of (0x80 OR (drop_bit 6 cp AND 0x3F)),
         byte_of (0x80 OR (cp AND 0x3F))]
      else
        [byte_of (0xFC OR drop_bit 30 cp), byte_of (0x80 OR (drop_bit 24 cp AND 0x3F)),
         byte_of (0x80 OR (drop_bit 18 cp AND 0x3F)), byte_of (0x80 OR (drop_bit 12 cp AND 0x3F)),
         byte_of (0x80 OR (drop_bit 6 cp AND 0x3F)), byte_of (0x80 OR (cp AND 0x3F))])"

text \<open>The digits of \<open>\u{...}\<close>: None when the value gets too large; \<open>seen\<close> as in the code.\<close>

fun cp_digits :: "nat \<Rightarrow> u64 \<Rightarrow> bool \<Rightarrow> string \<Rightarrow> (u64 \<times> bool) option \<times> string" where
  "cp_digits W cp seen [] = (Some (cp, seen), [])"
| "cp_digits W cp seen (c # s) =
     (if is_xdigit c
      then let cp = take_bit W (push_bit 4 cp OR of_nat (hex_val c))
           in if cp > 0x7FFFFFFF then (None, c # s) else cp_digits W cp True s
      else (Some (cp, seen), c # s))"

text \<open>\<open>\ddd\<close>: at most \<open>n\<close> decimal digits.\<close>

fun d_digits :: "nat \<Rightarrow> nat \<Rightarrow> string \<Rightarrow> nat \<times> string" where
  "d_digits 0 v s = (v, s)"
| "d_digits (Suc n) v [] = (v, [])"
| "d_digits (Suc n) v (c # s) =
     (if is_digit c then d_digits n (v * 10 + (code c - 48)) s else (v, c # s))"

text \<open>\<open>\z\<close>: skip white space, counting the lines.\<close>

fun skip_space :: "string \<Rightarrow> nat \<Rightarrow> string \<times> nat" where
  "skip_space [] l = ([], l)"
| "skip_space (c # s) l =
     (if is_space c then skip_space s (if c = LF then l + 1 else l) else (c # s, l))"

definition hex_digit :: "nat \<Rightarrow> char" where
  "hex_digit n = (if n < 10 then chr (48 + n) else chr (87 + n))"

definition unknown_escape :: "char \<Rightarrow> string" where
  "unknown_escape bad =
     (if 0x20 \<le> code bad \<and> code bad < 0x7f
      then ''unknown escape sequence '' @ [SQUOTE, BSLASH, bad, SQUOTE]
      else ''unknown escape sequence '' @ [SQUOTE, BSLASH, CHR ''x'', hex_digit (code bad div 16),
        hex_digit (code bad mod 16), SQUOTE])"

text \<open>
  One escape, behind the backslash: the state after it and the bytes it writes, or None after an
  error. The ten one-character escapes are a table, as the ten cases of the \<open>switch\<close> are alike.
\<close>

definition simple_escapes :: "(char \<times> char) list" where
  "simple_escapes =
     [(CHR ''n'', LF), (CHR ''t'', TAB), (CHR ''r'', CR), (BSLASH, BSLASH), (DQUOTE, DQUOTE),
      (SQUOTE, SQUOTE), (CHR ''a'', CHR 0x07), (CHR ''b'', CHR 0x08), (CHR ''f'', CHR 0x0C),
      (CHR ''v'', CHR 0x0B)]"

definition escape_x :: "Lex \<Rightarrow> Lex \<times> string option" where
  "escape_x L0 =
     (let L = adv 1 L0; p = lp L in
      if \<not> is_xdigit (at p) \<or> \<not> is_xdigit (at (drop 1 p))
      then (lex_error L (''hexadecimal digit expected after '' @ [SQUOTE, BSLASH, CHR ''x'', SQUOTE]), None)
      else (adv 2 L, Some [chr (push_bit 4 (hex_val (at p)) OR hex_val (at (drop 1 p)))]))"

definition escape_newline :: "Lex \<Rightarrow> Lex \<times> string option" where
  "escape_newline L0 =
     (let first = at (lp L0); L = adv 1 L0;
          L = (if first = CR \<and> at (lp L) = LF \<or> first = LF \<and> at (lp L) = CR then adv 1 L else L)
      in (L\<lparr>lline := lline L + 1\<rparr>, Some [LF]))"

definition escape_u :: "nat \<Rightarrow> Lex \<Rightarrow> Lex \<times> string option" where
  "escape_u W L0 =
     (let L = adv 1 L0 in
      if at (lp L) \<noteq> CHR ''{''
      then (lex_error L ([SQUOTE, CHR ''{'', SQUOTE] @ '' expected after '' @ [SQUOTE, BSLASH, CHR ''u'', SQUOTE]), None)
      else let L = adv 1 L in
        case cp_digits W 0 False (lp L) of
          (None, p) \<Rightarrow> (lex_error (L\<lparr>lp := p\<rparr>) (''UTF-8 value too large in '' @ [SQUOTE, BSLASH] @ ''u{...}'' @ [SQUOTE]), None)
        | (Some (cp, seen), p) \<Rightarrow>
            let L = L\<lparr>lp := p\<rparr> in
            if \<not> seen \<or> at (lp L) \<noteq> CHR ''}''
            then (lex_error L (''malformed '' @ [SQUOTE, BSLASH] @ ''u{...}'' @ [SQUOTE] @ '' escape''), None)
            else (adv 1 L, Some (utf8 cp)))"

definition escape_ddd :: "Lex \<Rightarrow> Lex \<times> string option" where
  "escape_ddd L0 =
     (case d_digits 3 0 (lp L0) of (v, p) \<Rightarrow>
        let L = L0\<lparr>lp := p\<rparr> in
        if v > 255 then (lex_error L (''decimal escape '' @ [SQUOTE, BSLASH] @ ''ddd'' @ [SQUOTE] @ '' out of range''), None)
        else (L, Some [chr v]))"

definition escape :: "nat \<Rightarrow> Lex \<Rightarrow> Lex \<times> string option" where
  "escape W L =
     (let e = at (lp L) in
      case map_of simple_escapes e of
        Some c \<Rightarrow> (adv 1 L, Some [c])
      | None \<Rightarrow>
          if e = CHR ''x'' then escape_x L
          else if e = CHR ''z'' then
            case skip_space (drop 1 (lp L)) (lline L) of (p, l) \<Rightarrow> (L\<lparr>lp := p, lline := l\<rparr>, Some [])
          else if e = LF \<or> e = CR then escape_newline L
          else if e = CHR ''u'' then escape_u W L
          else if is_digit e then escape_ddd L
          else (lex_error L (unknown_escape e), None))"

text \<open>Every escape only moves forward, which the loop below needs to end.\<close>

lemma cp_digits_length: "cp_digits W cp seen s = (r, p) \<Longrightarrow> length p \<le> length s"
  by (induction W cp seen s arbitrary: r p rule: cp_digits.induct)
     (auto simp: Let_def le_Suc_eq split: if_splits)

lemma d_digits_length: "d_digits n v s = (r, p) \<Longrightarrow> length p \<le> length s"
  by (induction n v s arbitrary: r p rule: d_digits.induct) (auto simp: le_Suc_eq split: if_splits)

lemma skip_space_length: "skip_space s l = (p, l') \<Longrightarrow> length p \<le> length s"
  by (induction s l arbitrary: p l' rule: skip_space.induct) (auto simp: le_Suc_eq split: if_splits)

lemma lex_error_lp [simp]: "lp (lex_error L m) = lp L" "lline (lex_error L m) = lline L"
  "\<not> lok (lex_error L m)"
  by (simp_all add: lex_error_def)

lemma escape_length: "escape W L = (L', r) \<Longrightarrow> length (lp L') \<le> length (lp L)"
  by (auto simp: escape_def escape_x_def escape_newline_def escape_u_def escape_ddd_def Let_def
      dest!: cp_digits_length d_digits_length skip_space_length split: option.splits if_splits prod.splits)

text \<open>
  The decode loop of \<open>read_string\<close>: \<open>room\<close> is the size of the buffer, \<open>buf\<close> what is written.
\<close>

datatype str_result = StrOk string | StrErr | StrOverflow

function (sequential) str_loop :: "nat \<Rightarrow> char \<Rightarrow> nat \<Rightarrow> string \<Rightarrow> Lex \<Rightarrow> Lex \<times> str_result" where
  "str_loop W q room buf L =
     (if at (lp L) = NUL \<or> at (lp L) = q then (L, StrOk buf)
      else if at (lp L) = LF then (lex_error L ''newline in string literal'', StrErr)
      else if at (lp L) \<noteq> BSLASH then
        (if length buf < room then str_loop W q room (buf @ [at (lp L)]) (adv 1 L)
         else (L, StrOverflow))
      else case escape W (adv 1 L) of
             (L', None) \<Rightarrow> (L', StrErr)
           | (L', Some bs) \<Rightarrow>
               if length buf + length bs \<le> room then str_loop W q room (buf @ bs) L'
               else (L', StrOverflow))"
  by pat_completeness auto
termination str_loop
  by (relation "measure (\<lambda>(W, q, room, buf, L). length (lp L))")
     (auto dest!: escape_length [OF sym] simp: length_drop_at
       intro: le_less_trans dest: at_not_NUL simp: Suc_le_eq [symmetric] le_diff_conv
       intro!: diff_less split: list.splits simp: at_def)

declare str_loop.simps [simp del]

definition read_string :: "nat \<Rightarrow> Lex \<Rightarrow> char \<Rightarrow> Lex \<times> str_result" where
  "read_string W L q =
     (let L = adv 1 L; cap = str_cap q (lp L) in
      case str_loop W q (cap + 4) [] L of
        (L, StrOk buf) \<Rightarrow>
          if at (lp L) \<noteq> q then (lex_error L ''unterminated string'', StrErr)
          else (adv 1 L, StrOk buf)
      | (L, r) \<Rightarrow> (L, r))"

section \<open>Long brackets\<close>

text \<open>The number of \<open>=\<close> at a position: the loops \<open>while (p[1 + n] == '=') n++\<close>.\<close>

definition eq_run :: "string \<Rightarrow> nat" where
  "eq_run p = length (takeWhile (\<lambda>c. c = CHR ''='') p)"

text \<open>None is the result -1.\<close>

definition try_open_long_bracket :: "Lex \<Rightarrow> nat option \<times> Lex" where
  "try_open_long_bracket L =
     (if at (lp L) \<noteq> CHR ''['' then (None, L)
      else let level = eq_run (drop 1 (lp L)) in
        if at (drop (1 + level) (lp L)) \<noteq> CHR ''['' then (None, L)
        else let L = adv (2 + level) L;
                 L = (if at (lp L) = LF then adv 1 (L\<lparr>lline := lline L + 1\<rparr>) else L)
             in (Some level, L))"

text \<open>\<open>body\<close> is the part of the body read so far.\<close>

function (sequential) long_loop :: "nat \<Rightarrow> string \<Rightarrow> Lex \<Rightarrow> Lex \<times> string option" where
  "long_loop level body L =
     (if at (lp L) = NUL then (L, None)
      else if at (lp L) = CHR '']'' \<and> eq_run (drop 1 (lp L)) = level
              \<and> at (drop (1 + level) (lp L)) = CHR '']''
      then (adv (2 + level) L, Some body)
      else long_loop level (body @ [at (lp L)])
             (adv 1 (if at (lp L) = LF then L\<lparr>lline := lline L + 1\<rparr> else L)))"
  by pat_completeness auto
termination long_loop
  by (relation "measure (\<lambda>(level, body, L). length (lp L))") (auto simp: at_def split: list.splits)

declare long_loop.simps [simp del]

definition read_long_body :: "Lex \<Rightarrow> nat \<Rightarrow> Lex \<times> string option" where
  "read_long_body L level = long_loop level [] L"

definition skip_long_comment :: "Lex \<Rightarrow> nat \<Rightarrow> Lex" where
  "skip_long_comment L level =
     (case read_long_body L level of
        (L, None) \<Rightarrow> lex_error L ''unterminated long comment''
      | (L, Some body) \<Rightarrow> L)"

section \<open>Numbers\<close>

definition scan_fraction :: "(char \<Rightarrow> bool) \<Rightarrow> bool \<times> string \<Rightarrow> bool \<times> string" where
  "scan_fraction digit = (\<lambda>(is_float, p).
     if at p = CHR ''.'' then (True, dropWhile digit (drop 1 p)) else (is_float, p))"

definition scan_exponent :: "char \<Rightarrow> char \<Rightarrow> bool \<times> string \<Rightarrow> bool \<times> string" where
  "scan_exponent e E = (\<lambda>(is_float, p).
     if at p = e \<or> at p = E then
       let p = drop 1 p;
           p = (if at p = CHR ''+'' \<or> at p = CHR ''-'' then drop 1 p else p)
       in (True, dropWhile is_digit p)
     else (is_float, p))"

definition dec_val :: "string \<Rightarrow> nat" where
  "dec_val s = foldl (\<lambda>v c. v * 10 + (code c - 48)) 0 s"

text \<open>
  \<open>strtoll (num, NULL, 10)\<close> on a string of decimal digits: the value and whether \<open>errno\<close> is
  \<open>ERANGE\<close> (the value is then \<open>LLONG_MAX\<close>).
\<close>

definition strtoll10 :: "string \<Rightarrow> u64 \<times> bool" where
  "strtoll10 s = (if int (dec_val s) < 2 ^ 63 then (of_nat (dec_val s), False) else (2 ^ 63 - 1, True))"

definition hex_acc :: "string \<Rightarrow> u64" where
  "hex_acc s = foldl (\<lambda>acc c. push_bit 4 acc OR of_nat (hex_val c)) 0 s"

definition lex_number :: "fp_env \<Rightarrow> Lex \<Rightarrow> Token \<Rightarrow> Lex \<times> Token" where
  "lex_number fe L t =
     (let s = lp L;
          is_hex = (at s = CHR ''0'' \<and> (at (drop 1 s) = CHR ''x'' \<or> at (drop 1 s) = CHR ''X''));
          (is_float, p) =
            (if is_hex
             then scan_exponent (CHR ''p'') (CHR ''P'')
                    (scan_fraction is_xdigit (False, dropWhile is_xdigit (drop 2 s)))
             else scan_exponent (CHR ''e'') (CHR ''E'')
                    (scan_fraction is_digit (False, dropWhile is_digit s)));
          n = length s - length p;
          t = t\<lparr>tlen := n\<rparr>;
          num = take n s
      in (L\<lparr>lp := p\<rparr>,
          if is_hex \<and> \<not> is_float then t\<lparr>kind := TOK_INT, i_val := hex_acc (drop 2 num)\<rparr>
          else if is_float then t\<lparr>kind := TOK_FLOAT, f_val := fst (strtod fe num)\<rparr>
          else case strtoll10 num of
                 (v, erange) \<Rightarrow>
                   if erange then t\<lparr>kind := TOK_FLOAT, i_val := v, f_val := fst (strtod fe num)\<rparr>
                   else t\<lparr>kind := TOK_INT, i_val := v\<rparr>))"

section \<open>One token\<close>

definition ONE :: "TokKind \<Rightarrow> Lex \<times> Token \<Rightarrow> Lex \<times> Token" where
  "ONE k = (\<lambda>(L, t). (adv 1 L, t\<lparr>kind := k, tlen := 1\<rparr>))"

definition TWO :: "TokKind \<Rightarrow> Lex \<times> Token \<Rightarrow> Lex \<times> Token" where
  "TWO k = (\<lambda>(L, t). (adv 2 L, t\<lparr>kind := k, tlen := 2\<rparr>))"

definition THREE :: "TokKind \<Rightarrow> Lex \<times> Token \<Rightarrow> Lex \<times> Token" where
  "THREE k = (\<lambda>(L, t). (adv 3 L, t\<lparr>kind := k, tlen := 3\<rparr>))"

definition lex_bracket :: "Lex \<Rightarrow> Token \<Rightarrow> Lex \<times> Token" where
  "lex_bracket L t =
     (case try_open_long_bracket L of
        (None, L) \<Rightarrow> ONE TOK_LBRACKET (L, t)
      | (Some level, L) \<Rightarrow>
          (case read_long_body L level of
             (L, None) \<Rightarrow> (lex_error L ''unterminated long string'', t\<lparr>kind := TOK_ERROR, tlen := 0\<rparr>)
           | (L, Some body) \<Rightarrow>
               (L, t\<lparr>kind := TOK_STRING, tlen := length (tstart t) - length (lp L), str_buf := body\<rparr>)))"

definition lex_dot :: "fp_env \<Rightarrow> Lex \<Rightarrow> Token \<Rightarrow> Lex \<times> Token" where
  "lex_dot fe L t =
     (let s = lp L in
      if at (drop 1 s) = CHR ''.'' \<and> at (drop 2 s) = CHR ''.'' then THREE TOK_ELLIPSIS (L, t)
      else if at (drop 1 s) = CHR ''.'' then TWO TOK_CONCAT (L, t)
      else if is_digit (at (drop 1 s)) then
        let (_, p) = scan_exponent (CHR ''e'') (CHR ''E'') (True, dropWhile is_digit (drop 1 s));
            n = length s - length p
        in (L\<lparr>lp := p\<rparr>, t\<lparr>kind := TOK_FLOAT, f_val := fst (strtod fe (take n s)), tlen := n\<rparr>)
      else ONE TOK_DOT (L, t))"

text \<open>The cases of the operator \<open>switch\<close> whose body is a single \<open>ONE\<close>.\<close>

definition one_ops :: "(char \<times> TokKind) list" where
  "one_ops =
     [(CHR ''('', TOK_LPAREN), (CHR '')'', TOK_RPAREN), (CHR ''{'', TOK_LBRACE), (CHR ''}'', TOK_RBRACE),
      (CHR '']'', TOK_RBRACKET), (CHR '','', TOK_COMMA), (CHR '';'', TOK_SEMI), (CHR ''+'', TOK_PLUS),
      (CHR ''-'', TOK_MINUS), (CHR ''*'', TOK_STAR), (CHR ''%'', TOK_PERCENT), (CHR ''^'', TOK_CARET),
      (CHR ''#'', TOK_HASH), (CHR ''&'', TOK_AMP), (CHR ''|'', TOK_PIPE)]"

definition lex_operator :: "fp_env \<Rightarrow> Lex \<Rightarrow> Token \<Rightarrow> Lex \<times> Token" where
  "lex_operator fe L t =
     (let c = at (lp L); d = at (drop 1 (lp L)) in
      case map_of one_ops c of
        Some k \<Rightarrow> ONE k (L, t)
      | None \<Rightarrow>
          if c = CHR ''['' then lex_bracket L t
          else if c = CHR ''/'' then (if d = CHR ''/'' then TWO TOK_DSLASH (L, t) else ONE TOK_SLASH (L, t))
          else if c = CHR '':'' then (if d = CHR '':'' then TWO TOK_DBLCOLON (L, t) else ONE TOK_COLON (L, t))
          else if c = CHR ''='' then (if d = CHR ''='' then TWO TOK_EQ (L, t) else ONE TOK_ASSIGN (L, t))
          else if c = CHR ''~'' then (if d = CHR ''='' then TWO TOK_NEQ (L, t) else ONE TOK_TILDE (L, t))
          else if c = CHR ''<'' then
            (if d = CHR ''='' then TWO TOK_LE (L, t)
             else if d = CHR ''<'' then TWO TOK_SHL (L, t) else ONE TOK_LT (L, t))
          else if c = CHR ''>'' then
            (if d = CHR ''='' then TWO TOK_GE (L, t)
             else if d = CHR ''>'' then TWO TOK_SHR (L, t) else ONE TOK_GT (L, t))
          else if c = CHR ''.'' then lex_dot fe L t
          else ONE TOK_ERROR (lex_error L ''unexpected character'', t))"

definition is_word :: "char \<Rightarrow> bool" where
  "is_word c \<longleftrightarrow> is_alnum c \<or> c = CHR ''_''"

definition lex_word :: "Lex \<Rightarrow> Token \<Rightarrow> Lex \<times> Token" where
  "lex_word L t =
     (let s = lp L; p = dropWhile is_word s; n = length s - length p
      in (L\<lparr>lp := p\<rparr>, t\<lparr>tlen := n, kind := keyword_or_ident s n\<rparr>))"

definition lex_comment :: "Lex \<Rightarrow> Lex" where
  "lex_comment L0 =
     (let L = adv 2 L0;
          rest = (\<lambda>L. L\<lparr>lp := dropWhile (\<lambda>c. c \<noteq> LF) (lp L)\<rparr>) in
      if at (lp L) = CHR ''['' then
        (case try_open_long_bracket L of
           (Some level, L) \<Rightarrow> skip_long_comment L level
         | (None, L) \<Rightarrow> rest L)
      else rest L)"

text \<open>
  One round of the main loop: the next state and the token it pushes, if any. None is a write
  outside the buffer of a string literal. After an error of a string literal the code leaves the
  loop; as \<open>ok\<close> is then 0, the loop condition does the same.
\<close>

definition lex_step :: "fp_env \<Rightarrow> nat \<Rightarrow> Lex \<Rightarrow> (Lex \<times> Token option) option" where
  "lex_step fe W L =
     (let c = at (lp L); t = tok_zero\<lparr>tstart := lp L, tline := lline L\<rparr> in
      if c = LF then Some (adv 1 (L\<lparr>lline := lline L + 1\<rparr>), None)
      else if is_space c then Some (adv 1 L, None)
      else if c = CHR ''-'' \<and> at (drop 1 (lp L)) = CHR ''-'' then Some (lex_comment L, None)
      else if is_digit c then (case lex_number fe L t of (L, t) \<Rightarrow> Some (L, Some t))
      else if is_alpha c \<or> c = CHR ''_'' then (case lex_word L t of (L, t) \<Rightarrow> Some (L, Some t))
      else if c = DQUOTE \<or> c = SQUOTE then
        (case read_string W L c of
           (L, StrOk buf) \<Rightarrow>
             Some (L, Some (t\<lparr>str_buf := buf, kind := TOK_STRING, tlen := length (tstart t) - length (lp L)\<rparr>))
         | (L, StrErr) \<Rightarrow> Some (L, None)
         | (L, StrOverflow) \<Rightarrow> None)
      else (case lex_operator fe L t of (L, t) \<Rightarrow> Some (L, if lok L then Some t else None)))"

lemma scan_fraction_length: "scan_fraction d (f, p) = (f', p') \<Longrightarrow> length p' \<le> length p"
  by (auto simp: scan_fraction_def split: if_splits)
     (metis diff_le_self length_drop length_dropWhile_le order_trans One_nat_def drop_Suc drop_0)

lemma scan_exponent_length: "scan_exponent a b (f, p) = (f', p') \<Longrightarrow> length p' \<le> length p"
  by (auto simp: scan_exponent_def Let_def split: if_splits)
     (metis diff_le_self length_drop length_dropWhile_le order_trans One_nat_def drop_Suc drop_0)+

section \<open>Moving through the text\<close>

text \<open>
  Every operation of the lexer consumes a piece of the text and, in a text without carriage
  returns (whose variants of a line break count once), adds its line feeds to the line number.
\<close>

definition moves :: "Lex \<Rightarrow> Lex \<Rightarrow> bool" where
  "moves L L' \<longleftrightarrow>
     (\<exists>u. lp L = u @ lp L' \<and> (CR \<notin> set u \<longrightarrow> lline L' = lline L + count_list u LF))"

lemma movesI:
  "lp L = u @ lp L' \<Longrightarrow> (CR \<notin> set u \<Longrightarrow> lline L' = lline L + count_list u LF) \<Longrightarrow> moves L L'"
  by (auto simp: moves_def)

lemma moves_refl [simp]: "moves L L"
  by (rule movesI [of _ "[]"]) auto

lemma moves_error [simp]: "moves L (lex_error L' m) \<longleftrightarrow> moves L L'"
  by (simp add: moves_def)

lemma moves_trans [trans]:
  assumes "moves A B" and "moves B C"
  shows "moves A C"
proof -
  from assms obtain u v where "lp A = u @ lp B" "CR \<notin> set u \<longrightarrow> lline B = lline A + count_list u LF"
    "lp B = v @ lp C" "CR \<notin> set v \<longrightarrow> lline C = lline B + count_list v LF"
    unfolding moves_def by blast
  then show ?thesis by (intro movesI [of _ "u @ v"]) (auto simp: count_list_append)
qed

lemma moves_length: "moves L L' \<Longrightarrow> length (lp L') \<le> length (lp L)"
  by (auto simp: moves_def)

lemma moves_suffix: "moves L L' \<Longrightarrow> suffix (lp L') (lp L)"
  by (auto simp: moves_def suffix_def)

lemma no_LF_count: "LF \<notin> set u \<Longrightarrow> count_list u LF = 0"
  by (simp add: count_list_0_iff)

lemma moves_within: "lp L = u @ p \<Longrightarrow> LF \<notin> set u \<Longrightarrow> moves L (L\<lparr>lp := p\<rparr>)"
  by (rule movesI [of _ u]) (auto simp: no_LF_count)

lemma moves_adv1: "at (lp L) \<noteq> LF \<Longrightarrow> moves L (adv 1 L)"
  by (cases "lp L") (auto intro: moves_within [of _ "[]"] moves_within [of _ "[at (lp L)]"])

lemmas moves_adv1' = moves_adv1 [unfolded One_nat_def]

lemma moves_newline: "at (lp L) = LF \<Longrightarrow> moves L (adv 1 (L\<lparr>lline := lline L + 1\<rparr>))"
  by (rule movesI [of _ "[LF]"], cases "lp L") auto

lemma moves_adv2: "at (lp L) \<noteq> LF \<Longrightarrow> at (drop 1 (lp L)) \<noteq> LF \<Longrightarrow> moves L (adv 2 L)"
  using moves_trans [OF moves_adv1 moves_adv1 [of "adv 1 L"]] by (auto simp: numeral_2_eq_2)

lemma moves_adv3:
  "at (lp L) \<noteq> LF \<Longrightarrow> at (drop 1 (lp L)) \<noteq> LF \<Longrightarrow> at (drop 2 (lp L)) \<noteq> LF \<Longrightarrow> moves L (adv 3 L)"
  using moves_trans [OF moves_adv2 moves_adv1 [of "adv 2 L"]] by (auto simp: numeral_3_eq_3 numeral_2_eq_2)

lemma moves_dropWhile: "\<not> P LF \<Longrightarrow> moves L (L\<lparr>lp := dropWhile P (lp L)\<rparr>)"
  by (rule moves_within [of _ "takeWhile P (lp L)"]) (auto dest: set_takeWhileD)

lemma ctype_LF [simp]: "\<not> is_digit LF" "\<not> is_xdigit LF" "\<not> is_alnum LF" "\<not> is_word LF" "is_space LF"
  by (simp_all add: ctype_defs is_word_def)

lemma ctype_not_LF: "is_digit c \<Longrightarrow> c \<noteq> LF" "is_xdigit c \<Longrightarrow> c \<noteq> LF" "is_alpha c \<Longrightarrow> c \<noteq> LF"
  by (auto simp: ctype_defs)

lemma cp_digits_moves:
  "cp_digits W cp seen s = (r, p) \<Longrightarrow> \<exists>u. s = u @ p \<and> LF \<notin> set u"
proof (induction W cp seen s arbitrary: r p rule: cp_digits.induct)
  case (2 W cp seen c s)
  let ?cp = "take_bit W (push_bit 4 cp OR of_nat (hex_val c))"
  show ?case
  proof (cases "is_xdigit c \<and> \<not> ?cp > 0x7FFFFFFF")
    case True
    with 2 obtain u where "s = u @ p" "LF \<notin> set u" by (auto simp: Let_def)
    with True show ?thesis by (intro exI [of _ "c # u"]) (auto simp: ctype_not_LF)
  next
    case False
    with 2(2) show ?thesis by (auto simp: Let_def split: if_splits)
  qed
qed auto

lemma d_digits_moves: "d_digits n v s = (r, p) \<Longrightarrow> \<exists>u. s = u @ p \<and> LF \<notin> set u"
proof (induction n v s arbitrary: r p rule: d_digits.induct)
  case (3 n v c s)
  show ?case
  proof (cases "is_digit c")
    case True
    with 3 obtain u where "s = u @ p" "LF \<notin> set u" by auto
    with True show ?thesis by (intro exI [of _ "c # u"]) (auto simp: ctype_not_LF)
  qed (use 3 in auto)
qed auto

lemma skip_space_moves: "skip_space s l = (p, l') \<Longrightarrow> \<exists>u. s = u @ p \<and> l' = l + count_list u LF"
proof (induction s l arbitrary: p l' rule: skip_space.induct)
  case (2 c s l)
  show ?case
  proof (cases "is_space c")
    case True
    with 2 obtain u where "s = u @ p" "l' = (if c = LF then l + 1 else l) + count_list u LF" by auto
    then show ?thesis by (intro exI [of _ "c # u"]) auto
  qed (use 2 in auto)
qed auto

lemma at_char_not_LF: "at p = c \<Longrightarrow> c \<noteq> LF \<Longrightarrow> at p \<noteq> LF"
  by simp

lemma escape_x_moves: "at (lp L) = CHR ''x'' \<Longrightarrow> escape_x L = (L', r) \<Longrightarrow> moves L L'"
proof -
  assume "at (lp L) = CHR ''x''" "escape_x L = (L', r)"
  moreover from this(1) have "moves L (adv 1 L)" by (intro moves_adv1) simp
  moreover have "is_xdigit (at (lp (adv 1 L))) \<Longrightarrow> is_xdigit (at (drop 1 (lp (adv 1 L)))) \<Longrightarrow>
      moves (adv 1 L) (adv 2 (adv 1 L))"
    by (rule moves_adv2) (auto dest: ctype_not_LF)
  ultimately show ?thesis
    by (auto simp: escape_x_def Let_def split: if_splits intro: moves_trans)
qed

lemma escape_newline_moves:
  assumes "at (lp L) = LF \<or> at (lp L) = CR" and "escape_newline L = (L', r)"
  shows "moves L L'"
  using assms
  by (cases "lp L"; cases "drop 1 (lp L)")
     (auto simp: escape_newline_def Let_def split: if_splits
       intro: movesI [of _ "[LF]"] movesI [of _ "[CR]"] movesI [of _ "[CR, LF]"] movesI [of _ "[LF, CR]"])

lemma escape_u_moves:
  assumes "at (lp L) = CHR ''u''" and "escape_u W L = (L', r)"
  shows "moves L L'"
proof (cases "at (lp (adv 1 L)) = CHR ''{''")
  case False
  with assms have "L' = lex_error (adv 1 L) ([SQUOTE, CHR ''{'', SQUOTE] @ '' expected after '' @ [SQUOTE, BSLASH, CHR ''u'', SQUOTE])"
    by (simp add: escape_u_def)
  with assms(1) show ?thesis by (simp add: moves_adv1')
next
  case True
  define M where "M = adv 1 (adv 1 L)"
  from assms(1) True have "moves L M"
    unfolding M_def by (intro moves_trans [OF moves_adv1 moves_adv1]) simp_all
  obtain d p where u: "cp_digits W 0 False (lp M) = (d, p)" by fastforce
  from cp_digits_moves [OF this] obtain v where "lp M = v @ p" "LF \<notin> set v" by blast
  then have "moves M (M\<lparr>lp := p\<rparr>)" by (rule moves_within)
  with \<open>moves L M\<close> have N: "moves L (M\<lparr>lp := p\<rparr>)" by (rule moves_trans)
  have E: "at p = CHR ''}'' \<Longrightarrow> moves L (adv 1 (M\<lparr>lp := p\<rparr>))"
    by (rule moves_trans [OF N moves_adv1]) simp
  have "L' = lex_error (M\<lparr>lp := p\<rparr>) (''UTF-8 value too large in '' @ [SQUOTE, BSLASH] @ ''u{...}'' @ [SQUOTE])
    \<or> L' = lex_error (M\<lparr>lp := p\<rparr>) (''malformed '' @ [SQUOTE, BSLASH] @ ''u{...}'' @ [SQUOTE] @ '' escape'')
    \<or> at p = CHR ''}'' \<and> L' = adv 1 (M\<lparr>lp := p\<rparr>)"
    using assms(2) True u unfolding escape_u_def Let_def M_def
    by (cases d) (auto split: if_splits)
  with N E show ?thesis by auto
qed

lemma escape_ddd_moves: "escape_ddd L = (L', r) \<Longrightarrow> moves L L'"
  by (auto simp: escape_ddd_def Let_def split: if_splits prod.splits dest!: d_digits_moves
      intro: moves_within)

lemma simple_escapes_not_LF: "map_of simple_escapes e = Some c \<Longrightarrow> e \<noteq> LF"
  by (auto simp: simple_escapes_def split: if_splits)

lemma escape_moves:
  assumes "escape W L = (L', r)"
  shows "moves L L'"
proof (cases "map_of simple_escapes (at (lp L))")
  case (Some c)
  with assms simple_escapes_not_LF [OF Some] show ?thesis
    by (auto simp: escape_def intro: moves_adv1')
next
  case None
  note E = assms [unfolded escape_def Let_def None option.case]
  consider "at (lp L) = CHR ''x''" | "at (lp L) = CHR ''z''" | "at (lp L) = LF \<or> at (lp L) = CR"
    | "at (lp L) = CHR ''u''" | "is_digit (at (lp L)) \<and> at (lp L) \<notin> {CHR ''x'', CHR ''z'', LF, CR, CHR ''u''}"
    | "at (lp L) \<notin> {CHR ''x'', CHR ''z'', LF, CR, CHR ''u''} \<and> \<not> is_digit (at (lp L))" by blast
  then show ?thesis
  proof cases
    case 2
    obtain p l where s: "skip_space (drop 1 (lp L)) (lline L) = (p, l)" by fastforce
    from skip_space_moves [OF this] obtain u where "drop 1 (lp L) = u @ p" "l = lline L + count_list u LF"
      by blast
    then have "moves (adv 1 L) (L\<lparr>lp := p, lline := l\<rparr>)" by (intro movesI [of _ u]) auto
    moreover from 2 have "moves L (adv 1 L)" by (intro moves_adv1) simp
    ultimately show ?thesis using E 2 s by (auto intro: moves_trans)
  qed (use E in \<open>auto intro: escape_x_moves escape_newline_moves escape_u_moves escape_ddd_moves\<close>)
qed

lemma str_loop_moves: "str_loop W q room buf L = (L', r) \<Longrightarrow> moves L L'"
proof (induction W q room buf L rule: str_loop.induct)
  case (1 W q room buf L)
  consider "at (lp L) = NUL \<or> at (lp L) = q"
    | "\<not> (at (lp L) = NUL \<or> at (lp L) = q)" "at (lp L) = LF"
    | "\<not> (at (lp L) = NUL \<or> at (lp L) = q)" "at (lp L) \<noteq> LF" "at (lp L) \<noteq> BSLASH"
    | "\<not> (at (lp L) = NUL \<or> at (lp L) = q)" "at (lp L) = BSLASH" by blast
  then show ?case
  proof cases
    case 3
    then have "moves L (adv 1 L)" by (intro moves_adv1)
    with 3 1 show ?thesis
      by (subst (asm) (3) str_loop.simps) (auto split: if_splits intro: moves_trans)
  next
    case 4
    then have m: "moves L (adv 1 L)" by (intro moves_adv1) simp
    obtain M bs where e: "escape W (adv 1 L) = (M, bs)" by fastforce
    from m escape_moves [OF e] have "moves L M" by (rule moves_trans)
    with 4 1 e show ?thesis
      by (subst (asm) (3) str_loop.simps) (auto split: if_splits option.splits intro: moves_trans)
  qed (use 1(3) in \<open>auto simp: str_loop.simps [of _ _ _ _ L]\<close>)
qed

lemma read_string_moves:
  assumes "at (lp L) = q" and "q \<noteq> LF" and "read_string W L q = (L', r)"
  shows "moves L L'"
proof -
  obtain M s where l: "str_loop W q (str_cap q (lp (adv 1 L)) + 4) [] (adv 1 L) = (M, s)" by fastforce
  have m: "moves L M"
    by (rule moves_trans [OF moves_adv1 str_loop_moves [OF l]]) (use assms in simp)
  have "at (lp M) = q \<Longrightarrow> moves L (adv 1 M)"
    by (rule moves_trans [OF m moves_adv1]) (use assms in simp)
  with m assms(3) l show ?thesis
    by (auto simp: read_string_def Let_def split: str_result.splits if_splits)
qed

lemma eq_run_split: "replicate (eq_run p) (CHR ''='') @ drop (eq_run p) p = p"
  unfolding eq_run_def by (induction p) auto

lemma bracket_split:
  assumes "at p = c" and "c \<noteq> NUL" and "at (drop (1 + eq_run (drop 1 p)) p) = d" and "d \<noteq> NUL"
  shows "p = c # replicate (eq_run (drop 1 p)) (CHR ''='') @ d # drop (2 + eq_run (drop 1 p)) p"
proof -
  obtain s where p: "p = c # s" using assms(1,2) by (cases p) auto
  from assms(3,4) have "drop (eq_run s) s = d # drop (Suc (eq_run s)) s"
    using at_not_NUL [of "drop (eq_run s) s"] by (simp add: p)
  with eq_run_split [of s] have "replicate (eq_run s) (CHR ''='') @ d # drop (Suc (eq_run s)) s = s" by simp
  then show ?thesis by (simp add: p)
qed

lemma try_open_moves: "try_open_long_bracket L = (r, L') \<Longrightarrow> moves L L'"
proof -
  assume t: "try_open_long_bracket L = (r, L')"
  show ?thesis
  proof (cases "at (lp L) = CHR ''['' \<and> at (drop (1 + eq_run (drop 1 (lp L))) (lp L)) = CHR ''[''")
    case True
    define n where "n = eq_run (drop 1 (lp L))"
    have "lp L = (CHR ''['' # replicate n (CHR ''='') @ [CHR ''['']) @ drop (2 + n) (lp L)"
      using bracket_split [of "lp L" "CHR ''[''" "CHR ''[''"] True by (simp add: n_def)
    then have m: "moves L (adv (2 + n) L)" by (intro moves_within [of _ "CHR ''['' # replicate n (CHR ''='') @ [CHR ''['']"]) auto
    have "at (lp (adv (2 + n) L)) = LF \<Longrightarrow>
        moves L (adv 1 (adv (2 + n) L\<lparr>lline := lline L + 1\<rparr>))"
      using moves_trans [OF m moves_newline] by simp
    with m t True show ?thesis
      by (auto simp: try_open_long_bracket_def Let_def n_def split: if_splits)
  qed (use t in \<open>auto simp: try_open_long_bracket_def Let_def split: if_splits\<close>)
qed

lemma long_loop_moves: "long_loop n body L = (L', r) \<Longrightarrow> moves L L'"
proof (induction n body L rule: long_loop.induct)
  case (1 n body L)
  let ?M = "if at (lp L) = LF then L\<lparr>lline := lline L + 1\<rparr> else L"
  let ?hit = "at (lp L) = CHR '']'' \<and> eq_run (drop 1 (lp L)) = n \<and> at (drop (1 + n) (lp L)) = CHR '']''"
  consider "at (lp L) = NUL" | "at (lp L) \<noteq> NUL" "?hit" | "at (lp L) \<noteq> NUL" "\<not> ?hit" by blast
  then show ?case
  proof cases
    case 2
    then have "lp L = (CHR '']'' # replicate n (CHR ''='') @ [CHR '']'']) @ drop (2 + n) (lp L)"
      using bracket_split [of "lp L" "CHR '']''" "CHR '']''"] by simp
    then have "moves L (adv (2 + n) L)"
      by (intro moves_within [of _ "CHR '']'' # replicate n (CHR ''='') @ [CHR '']'']"]) auto
    with 1(2) 2 show ?thesis by (simp add: long_loop.simps [of _ _ L])
  next
    case 3
    have "moves L (adv 1 ?M)" using moves_adv1 [of L] moves_newline [of L] by auto
    moreover have "moves (adv 1 ?M) L'" by (rule 1(1)) (use 1(2) 3 in \<open>auto simp: long_loop.simps [of _ _ L]\<close>)
    ultimately show ?thesis by (rule moves_trans)
  qed (use 1(2) in \<open>simp add: long_loop.simps [of _ _ L]\<close>)
qed

lemma read_long_body_moves: "read_long_body L n = (L', r) \<Longrightarrow> moves L L'"
  unfolding read_long_body_def by (rule long_loop_moves)

lemma skip_long_comment_moves: "moves L (skip_long_comment L n)"
  by (auto simp: skip_long_comment_def split: prod.splits option.splits dest: read_long_body_moves)

lemma lex_comment_moves:
  assumes "at (lp L) = CHR ''-''" and "at (drop 1 (lp L)) = CHR ''-''"
  shows "moves L (lex_comment L)"
proof -
  have m: "moves L (adv 2 L)" by (rule moves_adv2) (use assms in simp_all)
  have r: "moves M (M\<lparr>lp := dropWhile (\<lambda>c. c \<noteq> LF) (lp M)\<rparr>)" for M by (rule moves_dropWhile) simp
  obtain lev M where t: "try_open_long_bracket (adv 2 L) = (lev, M)" by fastforce
  note M = moves_trans [OF m try_open_moves [OF t]]
  show ?thesis
  proof (cases "at (lp (adv 2 L)) = CHR ''[''")
    case True
    then have "lex_comment L = (case lev of Some n \<Rightarrow> skip_long_comment M n
        | None \<Rightarrow> M\<lparr>lp := dropWhile (\<lambda>c. c \<noteq> LF) (lp M)\<rparr>)"
      by (simp add: lex_comment_def Let_def t)
    then show ?thesis
      using moves_trans [OF M r] moves_trans [OF M skip_long_comment_moves] by (cases lev) simp_all
  next
    case False
    then have "lex_comment L = (adv 2 L)\<lparr>lp := dropWhile (\<lambda>c. c \<noteq> LF) (lp (adv 2 L))\<rparr>"
      by (simp add: lex_comment_def Let_def)
    with moves_trans [OF m r] show ?thesis by (simp only:)
  qed
qed

text \<open>\<open>skips p p'\<close>: \<open>p'\<close> is behind a piece of \<open>p\<close> without line feeds.\<close>

definition skips :: "string \<Rightarrow> string \<Rightarrow> bool" where
  "skips p p' \<longleftrightarrow> (\<exists>u. p = u @ p' \<and> LF \<notin> set u)"

lemma skips_trans [trans]: "skips p q \<Longrightarrow> skips q r \<Longrightarrow> skips p r"
  unfolding skips_def by (metis Un_iff append.assoc set_append)

lemma skips_refl [simp]: "skips p p"
  by (auto simp: skips_def)

lemma skips_drop1: "at p \<noteq> LF \<Longrightarrow> skips p (drop 1 p)"
  by (cases p) (auto simp: skips_def intro: exI [of _ "[at p]"])

lemma skips_dropWhile: "\<not> P LF \<Longrightarrow> skips p (dropWhile P p)"
  unfolding skips_def by (rule exI [of _ "takeWhile P p"]) (auto dest: set_takeWhileD)

lemma skips_length: "skips p p' \<Longrightarrow> length p' \<le> length p"
  by (auto simp: skips_def)

lemma skips_moves: "skips (lp L) p \<Longrightarrow> moves L (L\<lparr>lp := p\<rparr>)"
  by (auto simp: skips_def intro: moves_within)

lemma scan_fraction_skips:
  assumes "scan_fraction d (f, p) = (f', p')" and "\<not> d LF"
  shows "skips p p'"
  using assms skips_trans [OF skips_drop1 skips_dropWhile, of p d]
  by (auto simp: scan_fraction_def split: if_splits)

lemma scan_exponent_skips:
  assumes "scan_exponent a b (f, p) = (f', p')" and "a \<noteq> LF" and "b \<noteq> LF"
  shows "skips p p'"
proof (cases "at p = a \<or> at p = b")
  case True
  define s where "s = drop 1 p"
  define t where "t = (if at s = CHR ''+'' \<or> at s = CHR ''-'' then drop 1 s else s)"
  from True assms have "skips p s" unfolding s_def by (intro skips_drop1) auto
  moreover have "skips s t" unfolding t_def by (auto intro: skips_drop1 [unfolded One_nat_def])
  moreover have "skips t (dropWhile is_digit t)" by (rule skips_dropWhile) simp
  moreover from True assms have "p' = dropWhile is_digit t"
    by (auto simp: scan_exponent_def Let_def s_def t_def)
  ultimately show ?thesis by (auto intro: skips_trans)
next
  case False
  with assms show ?thesis by (auto simp: scan_exponent_def)
qed

definition advances :: "Lex \<Rightarrow> Lex \<Rightarrow> bool" where
  "advances L L' \<longleftrightarrow> moves L L' \<and> length (lp L') < length (lp L)"

lemma advances_adv1:
  assumes "at (lp L) \<noteq> NUL" and "at (lp L) \<noteq> LF" and "moves (adv 1 L) L'"
  shows "advances L L'"
  unfolding advances_def
proof
  show "moves L L'" using moves_trans [OF moves_adv1 [OF assms(2)] assms(3)] .
  show "length (lp L') < length (lp L)"
    using moves_length [OF assms(3)] length_drop_at [OF assms(1)] by simp
qed

lemma advances_skips:
  "at (lp L) \<noteq> NUL \<Longrightarrow> at (lp L) \<noteq> LF \<Longrightarrow> skips (drop 1 (lp L)) p \<Longrightarrow> advances L (L\<lparr>lp := p\<rparr>)"
  using skips_moves [of "adv 1 L" p] by (intro advances_adv1) auto

lemma lex_number_advances:
  assumes "is_digit (at (lp L))" and "lex_number fe L t = (L', t')"
  shows "advances L L'"
proof -
  have c: "at (lp L) \<noteq> NUL" "at (lp L) \<noteq> LF" using assms(1) by (auto dest: ctype_not_LF)
  define s where "s = lp L"
  define is_hex where "is_hex = (at s = CHR ''0'' \<and> (at (drop 1 s) = CHR ''x'' \<or> at (drop 1 s) = CHR ''X''))"
  define p0 where "p0 = (if is_hex then dropWhile is_xdigit (drop 2 s) else dropWhile is_digit s)"
  obtain f1 p1 where f: "scan_fraction (if is_hex then is_xdigit else is_digit) (False, p0) = (f1, p1)" by fastforce
  obtain f2 p2 where e: "scan_exponent (if is_hex then CHR ''p'' else CHR ''e'')
     (if is_hex then CHR ''P'' else CHR ''E'') (f1, p1) = (f2, p2)" by fastforce
  have L': "L' = L\<lparr>lp := p2\<rparr>"
    using assms(2) f e unfolding lex_number_def Let_def s_def is_hex_def p0_def
    by (auto split: if_splits prod.splits)
  have "skips (drop 1 s) p0"
  proof (cases is_hex)
    case True
    then have "at (drop 1 s) \<noteq> LF" by (auto simp: is_hex_def)
    from skips_drop1 [OF this] have "skips (drop 1 s) (drop 2 s)" by (simp add: numeral_2_eq_2)
    also have "skips (drop 2 s) p0" using True by (simp add: p0_def skips_dropWhile)
    finally show ?thesis .
  next
    case False
    with assms(1) c(1) have "p0 = dropWhile is_digit (drop 1 s)" by (cases s) (auto simp: p0_def s_def)
    then show ?thesis by (simp add: skips_dropWhile)
  qed
  also have "skips p0 p1" using scan_fraction_skips [OF f] by auto
  also have "skips p1 p2" using scan_exponent_skips [OF e] by auto
  finally show ?thesis unfolding L' s_def using c by (intro advances_skips)
qed

lemma lex_word_advances:
  assumes "is_alpha (at (lp L)) \<or> at (lp L) = CHR ''_''" and "lex_word L t = (L', t')"
  shows "advances L L'"
proof -
  from assms(1) have c: "at (lp L) \<noteq> NUL" "at (lp L) \<noteq> LF" "is_word (at (lp L))"
    by (auto simp: is_word_def is_alnum_def dest: ctype_not_LF)
  then have "dropWhile is_word (lp L) = dropWhile is_word (drop 1 (lp L))" by (cases "lp L") auto
  with assms(2) have "L' = L\<lparr>lp := dropWhile is_word (drop 1 (lp L))\<rparr>" by (auto simp: lex_word_def Let_def)
  with c advances_skips [of L "dropWhile is_word (drop 1 (lp L))"] show ?thesis by (simp add: skips_dropWhile)
qed

lemma lex_bracket_advances:
  assumes "at (lp L) = CHR ''[''" and "lex_bracket L t = (L', t')"
  shows "advances L L'"
proof -
  obtain r M where o: "try_open_long_bracket L = (r, M)" by fastforce
  show ?thesis
  proof (cases r)
    case None
    with o have "M = L" by (auto simp: try_open_long_bracket_def Let_def split: if_splits)
    with None o assms show ?thesis by (auto simp: lex_bracket_def ONE_def intro: advances_adv1)
  next
    case (Some n)
    obtain N body where r: "read_long_body M n = (N, body)" by fastforce
    have "length (lp M) < length (lp L)" using o Some assms(1)
      by (cases "lp L") (auto simp: try_open_long_bracket_def Let_def split: if_splits)
    with try_open_moves [OF o] read_long_body_moves [OF r] have "advances L N"
      by (auto simp: advances_def intro: moves_trans dest: moves_length)
    with o Some r assms(2) show ?thesis
      by (auto simp: lex_bracket_def advances_def split: option.splits)
  qed
qed

lemma lex_dot_advances:
  assumes "at (lp L) = CHR ''.''" and "lex_dot fe L t = (L', t')"
  shows "advances L L'"
proof -
  let ?s = "lp L"
  have c: "at ?s \<noteq> NUL" "at ?s \<noteq> LF" using assms(1) by simp_all
  have d: "at (drop 1 ?s) = CHR ''.'' \<Longrightarrow> skips (drop 1 ?s) (drop 2 ?s)"
    using skips_drop1 [of "drop 1 ?s"] by (simp add: numeral_2_eq_2)
  have e: "at (drop 2 ?s) = CHR ''.'' \<Longrightarrow> skips (drop 2 ?s) (drop 3 ?s)"
    using skips_drop1 [of "drop 2 ?s"] by (simp add: numeral_2_eq_2 numeral_3_eq_3)
  obtain f p where x: "scan_exponent (CHR ''e'') (CHR ''E'') (True, dropWhile is_digit (drop 1 ?s)) = (f, p)"
    by fastforce
  have "skips (drop 1 ?s) p"
    by (rule skips_trans [OF skips_dropWhile scan_exponent_skips [OF x]]) simp_all
  then have "skips (drop 1 ?s) (lp L') \<and> L' = L\<lparr>lp := lp L'\<rparr>"
    using assms(2) d e skips_trans [OF d e] x
    by (auto simp: lex_dot_def Let_def ONE_def TWO_def THREE_def split: if_splits)
  with c show ?thesis by (metis advances_skips)
qed

lemma advances_error [simp]: "advances L (lex_error L' m) \<longleftrightarrow> advances L L'"
  "advances (lex_error L m) L' \<longleftrightarrow> advances L L'"
  by (simp_all add: advances_def moves_def)

lemma advances_ONE_TWO:
  assumes "at (lp L) \<noteq> NUL" and "at (lp L) \<noteq> LF"
  shows "ONE k (L, t) = (L', t') \<Longrightarrow> advances L L'"
    and "TWO k (L, t) = (L', t') \<Longrightarrow> at (drop 1 (lp L)) \<noteq> LF \<Longrightarrow> advances L L'"
  using assms skips_drop1 [of "drop 1 (lp L)"]
  by (auto simp: ONE_def TWO_def numeral_2_eq_2 intro!: advances_skips)

lemma lex_operator_advances:
  assumes "at (lp L) \<noteq> NUL" and "at (lp L) \<noteq> LF" and "lex_operator fe L t = (L', t')"
  shows "advances L L'"
proof (cases "map_of one_ops (at (lp L))")
  case (Some k)
  with assms show ?thesis by (auto simp: lex_operator_def intro: advances_ONE_TWO(1))
next
  case None
  note X = assms(3) [unfolded lex_operator_def Let_def None option.case]
  consider "at (lp L) = CHR ''[''" | "at (lp L) = CHR ''.''"
    | "at (lp L) \<noteq> CHR ''[''" "at (lp L) \<noteq> CHR ''.''"
      "(\<exists>k. ONE k (L, t) = (L', t')) \<or> (\<exists>k. TWO k (L, t) = (L', t') \<and> at (drop 1 (lp L)) \<noteq> LF)
        \<or> ONE TOK_ERROR (lex_error L ''unexpected character'', t) = (L', t')"
    using X by (auto split: if_splits)
  then show ?thesis
  proof cases
    case 3
    then show ?thesis using advances_ONE_TWO [OF assms(1,2)]
        advances_ONE_TWO(1) [of "lex_error L ''unexpected character''" TOK_ERROR t L' t'] assms(1,2) by auto
  qed (use X in \<open>auto intro: lex_bracket_advances lex_dot_advances\<close>)
qed

lemma read_string_advances:
  assumes "at (lp L) = q" and "q = DQUOTE \<or> q = SQUOTE" and "read_string W L q = (L', r)"
  shows "advances L L'"
proof -
  obtain M s where l: "str_loop W q (str_cap q (lp (adv 1 L)) + 4) [] (adv 1 L) = (M, s)" by fastforce
  have "moves (adv 1 L) M" by (rule str_loop_moves [OF l])
  then have "length (lp M) < length (lp L)"
    using moves_length [of "adv 1 L" M] length_drop_at [of "lp L"] assms(1,2) by auto
  moreover have "length (lp L') \<le> length (lp M)"
    using assms(3) l by (auto simp: read_string_def Let_def split: str_result.splits if_splits)
  moreover have "moves L L'" using read_string_moves [OF assms(1) _ assms(3)] assms(2) by auto
  ultimately show ?thesis by (simp add: advances_def)
qed

lemma lex_comment_advances:
  assumes "at (lp L) = CHR ''-''" and "at (drop 1 (lp L)) = CHR ''-''"
  shows "advances L (lex_comment L)"
proof -
  let ?M = "adv 2 L" and ?rest = "\<lambda>L :: Lex. L\<lparr>lp := dropWhile (\<lambda>c. c \<noteq> LF) (lp L)\<rparr>"
  have r: "length (lp (?rest N)) \<le> length (lp N)" for N by (simp add: length_dropWhile_le)
  have "length (lp (lex_comment L)) \<le> length (lp ?M)"
  proof (cases "at (lp ?M) = CHR ''[''")
    case True
    obtain lev N where t: "try_open_long_bracket ?M = (lev, N)" by fastforce
    from moves_length [OF try_open_moves [OF t]] have N: "length (lp N) \<le> length (lp ?M)" .
    show ?thesis
    proof (cases lev)
      case None
      with True t have "lex_comment L = ?rest N" by (simp add: lex_comment_def Let_def)
      with r [of N] N show ?thesis by simp
    next
      case (Some n)
      with True t have "lex_comment L = skip_long_comment N n" by (simp add: lex_comment_def Let_def)
      with moves_length [OF skip_long_comment_moves [of N n]] N show ?thesis by simp
    qed
  next
    case False
    then have "lex_comment L = ?rest ?M" by (simp add: lex_comment_def Let_def)
    with r [of ?M] show ?thesis by simp
  qed
  moreover have "length (lp ?M) < length (lp L)" using assms(1) by (cases "lp L") auto
  ultimately show ?thesis using lex_comment_moves [OF assms] by (simp add: advances_def)
qed

lemma lex_step_advances:
  assumes "at (lp L) \<noteq> NUL" and "lex_step fe W L = Some (L', tk)"
  shows "advances L L'"
proof -
  let ?c = "at (lp L)" and ?t = "tok_zero\<lparr>tstart := lp L, tline := lline L\<rparr>"
  note X = assms(2) [unfolded lex_step_def Let_def]
  consider "?c = LF" | "?c \<noteq> LF" "is_space ?c" | "?c = CHR ''-''" "at (drop 1 (lp L)) = CHR ''-''"
    | "is_digit ?c" | "is_alpha ?c \<or> ?c = CHR ''_''" | "?c = DQUOTE \<or> ?c = SQUOTE"
    | "?c \<noteq> LF" "\<exists>t'. lex_operator fe L ?t = (L', t')"
    using X by (auto split: if_splits prod.splits)
  then show ?thesis
  proof cases
    case 1
    with X moves_newline [OF 1] show ?thesis by (cases "lp L") (auto simp: advances_def)
  next
    case 2
    with X assms(1) show ?thesis by (auto intro: advances_adv1 [where L = L])
  next
    case 3
    with X lex_comment_advances [OF 3] show ?thesis by (auto simp: is_space_def)
  next
    case 4
    with X show ?thesis by (auto simp: ctype_defs split: prod.splits if_splits intro: lex_number_advances)
  next
    case 5
    with X show ?thesis
      by (auto simp: ctype_defs split: prod.splits if_splits intro: lex_word_advances)
  next
    case 6
    with X show ?thesis
      by (auto simp: ctype_defs split: prod.splits if_splits str_result.splits intro: read_string_advances)
  next
    case 7
    with assms(1) show ?thesis by (auto intro: lex_operator_advances)
  qed
qed

section \<open>The main loop\<close>

function (sequential) lex_loop :: "fp_env \<Rightarrow> nat \<Rightarrow> TokVec \<Rightarrow> Lex \<Rightarrow> (TokVec \<times> Lex) option" where
  "lex_loop fe W v L =
     (if at (lp L) = NUL \<or> \<not> lok L then Some (v, L)
      else case lex_step fe W L of
             None \<Rightarrow> None
           | Some (L', tk) \<Rightarrow>
               lex_loop fe W (case tk of None \<Rightarrow> v | Some t \<Rightarrow> push_tok v t) L')"
  by pat_completeness auto
termination lex_loop
  by (relation "measure (\<lambda>(fe, W, v, L). length (lp L))")
     (auto dest!: lex_step_advances [rotated] simp: advances_def)

declare lex_loop.simps [simp del]

record TokenList =
  tl_items :: "Token list"
  tl_ok :: bool
  tl_err :: string

text \<open>
  The loop starts behind a first line that begins with \<open>#\<close>, and an EOF token closes the
  array in every case.
\<close>

definition lex_start :: "string \<Rightarrow> Lex" where
  "lex_start source =
     (let L = \<lparr>lp = cstr source, lline = 1, lok = True, lerr = []\<rparr> in
      if at (lp L) = CHR ''#'' then L\<lparr>lp := dropWhile (\<lambda>c. c \<noteq> LF) (lp L)\<rparr> else L)"

definition lex :: "fp_env \<Rightarrow> nat \<Rightarrow> string \<Rightarrow> TokenList option" where
  "lex fe W source =
     (case lex_loop fe W tokvec0 (lex_start source) of
        None \<Rightarrow> None
      | Some (v, L) \<Rightarrow>
          let v = push_tok v (tok_zero\<lparr>tstart := lp L, tline := lline L\<rparr>)
          in Some \<lparr>tl_items = toks v, tl_ok = lok L, tl_err = lerr L\<rparr>)"

end
