(* ===== verification/Parser_State.thy ===== *)
theory Parser_State
  imports Ast Builtins Lexer "HOL-Library.State_Monad"
begin

text \<open>
  The state of the parser (\<open>src/src/parser.c\<close>): token cursor, errors, function frames with their
  scopes, the globals table, labels and pending gotos, and the resolution of names. The frames are
  kept innermost first; the fixed arrays \<open>locals\<close>, \<open>upvalues\<close>, \<open>funcs\<close>, \<open>globals\<close> and \<open>frames\<close> are
  lists bounded by the checks of the code. \<open>captured\<close> is the array of 256 flags it is in C. Two
  flags belong to the model: \<open>oob\<close> records an access outside an array (or through a null pointer)
  and \<open>nofuel\<close> that the recursion bound of the model was hit; the theorems show when they stay off.
  Slots and indices that C marks with -1 are options.
\<close>

section \<open>Item buffers\<close>

text \<open>
  \<open>ItemBuf\<close>: a growing array of elements; \<open>ib_push\<close> returns a zeroed slot that the caller fills, so
  the element pushed is an argument here. \<open>ib_finish\<close> copies the elements into the pool.
\<close>

record 'a ItemBuf =
  idata :: "'a list"
  icount :: nat
  icap :: nat

definition ib_init :: "'a ItemBuf" where
  "ib_init = \<lparr>idata = [], icount = 0, icap = 0\<rparr>"

definition ib_push :: "'a ItemBuf \<Rightarrow> 'a \<Rightarrow> 'a ItemBuf" where
  "ib_push b x =
     (let b = (if icount b = icap b
               then let c = (if icap b \<noteq> 0 then icap b * 2 else 8)
                    in b\<lparr>icap := c, idata := take c (idata b) @ replicate (c - length (idata b)) x\<rparr>
               else b)
      in b\<lparr>idata := (idata b)[icount b := x], icount := icount b + 1\<rparr>)"

definition ib_finish :: "'a ItemBuf \<Rightarrow> 'a list" where
  "ib_finish b = take (icount b) (idata b)"

definition ib_ok :: "'a ItemBuf \<Rightarrow> bool" where
  "ib_ok b \<longleftrightarrow> icount b \<le> icap b \<and> length (idata b) = icap b"

lemma ib_init_ok: "ib_ok ib_init" "ib_finish ib_init = []"
  by (simp_all add: ib_ok_def ib_init_def ib_finish_def)

lemma ib_push_ok:
  assumes "ib_ok b"
  shows "ib_ok (ib_push b x)" and "ib_finish (ib_push b x) = ib_finish b @ [x]"
  using assms by (auto simp: ib_push_def Let_def ib_ok_def ib_finish_def take_Suc_conv_app_nth)

interpretation item_buf: growable "\<lambda>b x. Some (ib_push b x)" "\<lambda>x. [x]" ib_finish ib_ok
  by unfold_locales (simp add: ib_push_ok)

section \<open>Frames and the parser record\<close>

definition MAX_LOCALS_PER_FN :: nat where "MAX_LOCALS_PER_FN = 256"
definition MAX_UPVALS_PER_FN :: nat where "MAX_UPVALS_PER_FN = 64"
definition MAX_FRAME_DEPTH :: nat where "MAX_FRAME_DEPTH = 32"
definition MAX_FUNCS :: nat where "MAX_FUNCS = 256"
definition MAX_GLOBALS :: nat where "MAX_GLOBALS = 256"

lemmas max_defs = MAX_LOCALS_PER_FN_def MAX_UPVALS_PER_FN_def MAX_FRAME_DEPTH_def MAX_FUNCS_def
  MAX_GLOBALS_def

datatype DeclKind = DECL_LOCAL | DECL_GLOBAL | DECL_GLOBAL_ALL

record LocalSlot =
  ls_name :: string
  ls_slot :: "nat option"
  ls_attrib :: nat
  ls_kind :: DeclKind

record LabelRec =
  lr_name :: string
  lr_nactvar :: nat

record GotoRec =
  gr_name :: string
  gr_line :: nat
  gr_nactvar :: nat
  gr_resolved :: bool

record FuncFrame =
  locals :: "LocalSlot list"
  next_slot :: nat
  upvalues :: "UpvalueRef list"
  is_vararg :: bool
  vararg_slot :: "nat option"
  vararg_name :: string
  captured :: "bool list"

record Parser =
  ptoks :: "Token list"
  pos :: nat
  frames :: "FuncFrame list"
  funcs :: "LuaFunc list"
  cur_fn :: "nat option"
  globals :: "string list"
  labels :: "LabelRec list"
  gotos :: "GotoRec list"
  fn_labels :: nat
  fn_gotos :: nat
  blk_gotos :: nat
  blk_nactvar :: nat
  perror :: string
  pok :: bool
  oob :: bool
  nofuel :: bool

type_synonym 'a P = "(Parser, 'a) state"

abbreviation ret :: "'a \<Rightarrow> 'a P" where "ret \<equiv> State_Monad.return"

definition gets :: "(Parser \<Rightarrow> 'a) \<Rightarrow> 'a P" where
  "gets f = State (\<lambda>p. (f p, p))"

definition modify :: "(Parser \<Rightarrow> Parser) \<Rightarrow> unit P" where
  "modify f = State (\<lambda>p. ((), f p))"

fun index_from :: "nat \<Rightarrow> string list \<Rightarrow> string \<Rightarrow> nat option" where
  "index_from i [] name = None"
| "index_from i (g # gs) name = (if g = name then Some i else index_from (i + 1) gs name)"

definition globals_lookup :: "Parser \<Rightarrow> string \<Rightarrow> nat option" where
  "globals_lookup p name = index_from 0 (globals p) name"

definition globals_declare :: "string \<Rightarrow> Parser \<Rightarrow> nat option \<times> Parser" where
  "globals_declare name p =
     (case globals_lookup p name of
        Some g \<Rightarrow> (Some g, p)
      | None \<Rightarrow> if length (globals p) \<ge> MAX_GLOBALS then (None, p)
                else (Some (length (globals p)), p\<lparr>globals := globals p @ [name]\<rparr>))"

section \<open>Tokens and errors\<close>

definition tok_at :: "Parser \<Rightarrow> nat \<Rightarrow> Token" where
  "tok_at p i = (if i < length (ptoks p) then ptoks p ! i else tok_zero)"

text \<open>Reading outside the token array sets \<open>oob\<close>.\<close>

definition touch :: "nat \<Rightarrow> Parser \<Rightarrow> Parser" where
  "touch i p = (if i < length (ptoks p) then p else p\<lparr>oob := True\<rparr>)"

definition peek :: "Token P" where
  "peek = State (\<lambda>p. (tok_at p (pos p), touch (pos p) p))"

definition peek_at :: "Parser \<Rightarrow> nat \<Rightarrow> Token" where
  "peek_at p off =
     (let i = pos p + off; i = (if i \<ge> length (ptoks p) then length (ptoks p) - 1 else i) in tok_at p i)"

definition advance :: "Token P" where
  "advance = State (\<lambda>p. (tok_at p (pos p), (touch (pos p) p)\<lparr>pos := pos p + 1\<rparr>))"

definition last_line :: "nat P" where
  "last_line = State (\<lambda>p. let i = (if pos p \<noteq> 0 then pos p - 1 else pos p) in (tline (tok_at p i), touch i p))"

definition set_error_at :: "nat \<Rightarrow> string \<Rightarrow> Parser \<Rightarrow> Parser" where
  "set_error_at line msg p =
     (if \<not> pok p then p
      else p\<lparr>perror := take 255 (''line '' @ dec_str line @ '': '' @ msg), pok := False\<rparr>)"

definition set_error :: "string \<Rightarrow> Parser \<Rightarrow> Parser" where
  "set_error msg p = set_error_at (tline (tok_at p (pos p))) msg (touch (pos p) p)"

definition error :: "string \<Rightarrow> unit P" where
  "error msg = modify (set_error msg)"

definition match :: "TokKind \<Rightarrow> bool P" where
  "match k = do {
     t \<leftarrow> peek;
     if kind t = k then do { _ \<leftarrow> advance; ret True } else ret False }"

definition expect :: "TokKind \<Rightarrow> string \<Rightarrow> bool P" where
  "expect k what = do {
     m \<leftarrow> match k;
     if m then ret True
     else do {
       t \<leftarrow> peek;
       _ \<leftarrow> error (take 159 (''expected '' @ what @ '', got '' @ tok_kind_name (kind t)));
       ret False } }"

definition tok_text :: "Token \<Rightarrow> string" where
  "tok_text t = take (tlen t) (tstart t)"

section \<open>Frame operations\<close>

definition frame_init :: FuncFrame where
  "frame_init =
     \<lparr>locals = [], next_slot = 0, upvalues = [], is_vararg = False, vararg_slot = None,
      vararg_name = [], captured = replicate MAX_LOCALS_PER_FN False\<rparr>"

definition frame_mark :: "FuncFrame \<Rightarrow> nat" where
  "frame_mark f = length (locals f)"

definition frame_rewind :: "nat \<Rightarrow> FuncFrame \<Rightarrow> FuncFrame" where
  "frame_rewind mark f = f\<lparr>locals := take mark (locals f)\<rparr>"

definition frame_declare :: "string \<Rightarrow> FuncFrame \<Rightarrow> nat option \<times> FuncFrame" where
  "frame_declare name f =
     (if length (locals f) \<ge> MAX_LOCALS_PER_FN then (None, f)
      else (Some (next_slot f),
            f\<lparr>next_slot := next_slot f + 1,
              locals := locals f @ [\<lparr>ls_name = name, ls_slot = Some (next_slot f), ls_attrib = 0, ls_kind = DECL_LOCAL\<rparr>]\<rparr>))"

text \<open>\<open>name\<close> is None for the collective \<open>global *\<close>; the result is whether it succeeded.\<close>

definition frame_declare_global :: "string option \<Rightarrow> nat \<Rightarrow> FuncFrame \<Rightarrow> bool \<times> FuncFrame" where
  "frame_declare_global name attrib f =
     (if length (locals f) \<ge> MAX_LOCALS_PER_FN then (False, f)
      else (True,
            f\<lparr>locals := locals f @ [\<lparr>ls_name = (case name of Some n \<Rightarrow> n | None \<Rightarrow> []), ls_slot = None,
                ls_attrib = attrib, ls_kind = (case name of Some n \<Rightarrow> DECL_GLOBAL | None \<Rightarrow> DECL_GLOBAL_ALL)\<rparr>]\<rparr>))"

definition set_last_attrib :: "nat \<Rightarrow> FuncFrame \<Rightarrow> FuncFrame" where
  "set_last_attrib a f = f\<lparr>locals := butlast (locals f) @ [(last (locals f))\<lparr>ls_attrib := a\<rparr>]\<rparr>"

definition frame_mark_last_const :: "FuncFrame \<Rightarrow> FuncFrame" where
  "frame_mark_last_const f = (if locals f \<noteq> [] then set_last_attrib 1 f else f)"

text \<open>The scans from the last declaration: over the reversed list.\<close>

fun attrib_scan :: "LocalSlot list \<Rightarrow> nat \<Rightarrow> nat option" where
  "attrib_scan [] slot = None"
| "attrib_scan (d # ds) slot = (if ls_slot d = Some slot then Some (ls_attrib d) else attrib_scan ds slot)"

definition frame_local_attrib_by_slot :: "FuncFrame \<Rightarrow> nat \<Rightarrow> nat option" where
  "frame_local_attrib_by_slot f slot = attrib_scan (rev (locals f)) slot"

text \<open>The walk up the frames (innermost first) to the captured local.\<close>

fun upval_is_const :: "FuncFrame list \<Rightarrow> nat \<Rightarrow> bool" where
  "upval_is_const (f # g # fs) uv =
     (if uv < length (upvalues f) then
        let r = upvalues f ! uv in
        if usrc r = UPVAL_FROM_LOCAL then frame_local_attrib_by_slot g (uidx r) = Some 1
        else upval_is_const (g # fs) (uidx r)
      else False)"
| "upval_is_const _ uv = False"

datatype Collective = ALL_NONE | ALL_RW | ALL_CONST

record FreeNames =
  collective :: Collective
  voided :: bool

fun search_scan :: "LocalSlot list \<Rightarrow> string \<Rightarrow> FreeNames \<Rightarrow> LocalSlot option \<times> FreeNames" where
  "search_scan [] name fn = (None, fn)"
| "search_scan (d # ds) name fn =
     (if ls_kind d = DECL_GLOBAL_ALL then
        search_scan ds name
          (if collective fn = ALL_NONE
           then fn\<lparr>collective := (if ls_attrib d = 1 then ALL_CONST else ALL_RW)\<rparr> else fn)
      else if ls_name d = name then (Some d, fn)
      else search_scan ds name (if ls_kind d = DECL_GLOBAL then fn\<lparr>voided := True\<rparr> else fn))"

definition frame_search :: "FuncFrame \<Rightarrow> string \<Rightarrow> FreeNames \<Rightarrow> LocalSlot option \<times> FreeNames" where
  "frame_search f name fn = search_scan (rev (locals f)) name fn"

fun upval_find :: "nat \<Rightarrow> UpvalueRef list \<Rightarrow> UpvalueRef \<Rightarrow> nat option" where
  "upval_find i [] r = None"
| "upval_find i (u # us) r = (if usrc u = usrc r \<and> uidx u = uidx r then Some i else upval_find (i + 1) us r)"

definition frame_add_upvalue :: "UpvalSource \<Rightarrow> nat \<Rightarrow> FuncFrame \<Rightarrow> nat option \<times> FuncFrame" where
  "frame_add_upvalue src i f =
     (let r = \<lparr>usrc = src, uidx = i\<rparr> in
      case upval_find 0 (upvalues f) r of
        Some u \<Rightarrow> (Some u, f)
      | None \<Rightarrow> if length (upvalues f) \<ge> MAX_UPVALS_PER_FN then (None, f)
                else (Some (length (upvalues f)), f\<lparr>upvalues := upvalues f @ [r]\<rparr>))"

text \<open>\<open>captured[slot] = 1\<close>, a write outside the array when the slot is 256 or more.\<close>

definition mark_captured :: "nat \<Rightarrow> FuncFrame \<Rightarrow> bool \<times> FuncFrame" where
  "mark_captured slot f =
     (slot < length (captured f), f\<lparr>captured := (captured f)[slot := True]\<rparr>)"

section \<open>Name resolution\<close>

definition global_index :: "string \<Rightarrow> Parser \<Rightarrow> nat option \<times> Parser" where
  "global_index name p =
     (let (g, p) = (case globals_lookup p name of
                      Some g \<Rightarrow> (Some g, p)
                    | None \<Rightarrow> globals_declare name p)
      in (g, if g = None then set_error ''too many globals'' p else p))"

definition resolve_global :: "string \<Rightarrow> Parser \<Rightarrow> (VarKind \<times> nat) option \<times> Parser" where
  "resolve_global name p =
     (case lookup_builtin name of
        Some b \<Rightarrow> (Some (VAR_BUILTIN, b), p)
      | None \<Rightarrow> (case global_index name p of
                   (None, p) \<Rightarrow> (None, p)
                 | (Some g, p) \<Rightarrow> (Some (VAR_GLOBAL, g), p)))"

definition with_ro :: "bool \<Rightarrow> (VarKind \<times> nat) option \<Rightarrow> (VarKind \<times> nat \<times> bool) option" where
  "with_ro ro = map_option (\<lambda>(k, i). (k, i, ro))"

text \<open>
  The resolution from a frame outwards. The frames are a separate argument and result, as the
  recursion changes them from the outside in; the rest of the state changes by new globals and
  errors.
\<close>

fun resolve_in_frame ::
  "string \<Rightarrow> FreeNames \<Rightarrow> FuncFrame list \<Rightarrow> Parser \<Rightarrow>
     ((VarKind \<times> nat \<times> bool) option \<times> FuncFrame list) \<times> Parser" where
  "resolve_in_frame name fn [] p = ((None, []), p\<lparr>oob := True\<rparr>)"
| "resolve_in_frame name fn (f # fs) p =
     (case frame_search f name fn of
        (Some d, fn) \<Rightarrow>
          if ls_kind d = DECL_LOCAL
          then (case ls_slot d of
                  Some s \<Rightarrow> ((Some (VAR_LOCAL, s, False), f # fs), p)
                | None \<Rightarrow> ((None, f # fs), p\<lparr>oob := True\<rparr>))
          else (case resolve_global name p of
                  (r, p) \<Rightarrow> ((with_ro (ls_attrib d = 1) r, f # fs), p))
      | (None, fn) \<Rightarrow>
          if fs = [] then
            let env = (name = ''_ENV'') in
            if \<not> env \<and> collective fn = ALL_NONE \<and> voided fn
            then ((None, [f]),
                  set_error (take 159 (''variable '' @ [SQUOTE] @ name @ [SQUOTE] @ '' not declared'')) p)
            else (case resolve_global name p of
                    (r, p) \<Rightarrow> ((with_ro (\<not> env \<and> collective fn = ALL_CONST) r, [f]), p))
          else
            (case resolve_in_frame name fn fs p of
               ((None, gs), p) \<Rightarrow> ((None, f # gs), p)
             | ((Some (k, i, ro), gs), p) \<Rightarrow>
                 if k = VAR_BUILTIN \<or> k = VAR_GLOBAL then ((Some (k, i, ro), f # gs), p)
                 else
                   let src = (if k = VAR_LOCAL then UPVAL_FROM_LOCAL else UPVAL_FROM_UPVAL);
                       (inside, g) = (if src = UPVAL_FROM_LOCAL then mark_captured i (hd gs) else (True, hd gs));
                       gs = g # tl gs;
                       p = (if inside then p else p\<lparr>oob := True\<rparr>)
                   in case frame_add_upvalue src i f of
                        (None, f) \<Rightarrow> ((None, f # gs), set_error ''too many upvalues'' p)
                      | (Some u, f) \<Rightarrow> ((Some (VAR_UPVAL, u, ro), f # gs), p)))"

definition resolve_name :: "string \<Rightarrow> (VarKind \<times> nat \<times> bool) option P" where
  "resolve_name name = State (\<lambda>p.
     case resolve_in_frame name \<lparr>collective = ALL_NONE, voided = False\<rparr> (frames p) p of
       ((r, fs), p) \<Rightarrow> (r, p\<lparr>frames := fs\<rparr>))"

text \<open>Operations on the current frame.\<close>

definition on_frame :: "(FuncFrame \<Rightarrow> 'a \<times> FuncFrame) \<Rightarrow> 'a \<Rightarrow> 'a P" where
  "on_frame op dflt = State (\<lambda>p.
     case frames p of
       [] \<Rightarrow> (dflt, p\<lparr>oob := True\<rparr>)
     | f # fs \<Rightarrow> (case op f of (a, f) \<Rightarrow> (a, p\<lparr>frames := f # fs\<rparr>)))"

abbreviation upd_frame :: "(FuncFrame \<Rightarrow> FuncFrame) \<Rightarrow> unit P" where
  "upd_frame op \<equiv> on_frame (\<lambda>f. ((), op f)) ()"

definition local_count :: "nat P" where
  "local_count = on_frame (\<lambda>f. (length (locals f), f)) 0"

text \<open>\<open>scope_rewind\<close>: also the pending gotos of the function move out to the mark.\<close>

definition scope_rewind :: "nat \<Rightarrow> unit P" where
  "scope_rewind mark = do {
     _ \<leftarrow> upd_frame (frame_rewind mark);
     modify (\<lambda>p. p\<lparr>gotos := take (fn_gotos p) (gotos p) @
       map (\<lambda>g. if gr_nactvar g > mark then g\<lparr>gr_nactvar := mark\<rparr> else g) (drop (fn_gotos p) (gotos p))\<rparr>) }"

end
