(* ===== verification/Parser_Expr.thy ===== *)
theory Parser_Expr
  imports Parser_State
begin

text \<open>
  The expression parser of \<open>src/src/parser.c\<close>, in the state monad over \<open>Parser\<close>. The functions of the
  parser call each other recursively through three of them: \<open>parse_prec\<close>, \<open>parse_block\<close> and
  \<open>parse_function_body_ex\<close>. Each function takes these three as a record \<open>R\<close>; \<open>Parser_Stmt\<close> ties the
  knot by recursion on a bound. A NULL result is None; reading a field of a NULL result sets \<open>oob\<close>.
  A loop over the tokens takes \<open>rec_fuel R\<close> as its bound. Lists are built by appending, which is what
  the item buffers do.
\<close>

record rec_calls =
  rec_prec :: "nat \<Rightarrow> Expr option P"
  rec_block :: "TokKind list \<Rightarrow> Block P"
  rec_body :: "nat \<Rightarrow> bool \<Rightarrow> nat option P"
  rec_fuel :: nat

definition out_of_fuel :: "'a \<Rightarrow> 'a P" where
  "out_of_fuel a = do { _ \<leftarrow> modify (\<lambda>p. p\<lparr>nofuel := True\<rparr>); ret a }"

definition null_deref :: "unit \<Rightarrow> 'a option P" where
  "null_deref _ = do { _ \<leftarrow> modify (\<lambda>p. p\<lparr>oob := True\<rparr>); ret None }"

text \<open>\<open>if (!p->ok) return NULL;\<close> after a call, and the use of its result otherwise.\<close>

definition whenok :: "'a option P \<Rightarrow> 'a option P" where
  "whenok m = do { ok \<leftarrow> gets pok; if ok then m else ret None }"

definition on_ok :: "'a option \<Rightarrow> ('a \<Rightarrow> 'b option P) \<Rightarrow> 'b option P" where
  "on_ok r f = whenok (case r of Some x \<Rightarrow> f x | None \<Rightarrow> null_deref ())"

text \<open>\<open>set_error\<close> followed by \<open>return NULL\<close>.\<close>

definition fail :: "string \<Rightarrow> 'a option P" where
  "fail msg = do { _ \<leftarrow> error msg; ret None }"

section \<open>Operators\<close>

definition PREC_OR :: nat where "PREC_OR = 1"
definition PREC_UNARY :: nat where "PREC_UNARY = 11"

fun prec_of :: "TokKind \<Rightarrow> nat" where
  "prec_of TOK_KW_OR = 1"
| "prec_of TOK_KW_AND = 2"
| "prec_of TOK_EQ = 3"
| "prec_of TOK_NEQ = 3"
| "prec_of TOK_LT = 3"
| "prec_of TOK_LE = 3"
| "prec_of TOK_GT = 3"
| "prec_of TOK_GE = 3"
| "prec_of TOK_PIPE = 4"
| "prec_of TOK_TILDE = 5"
| "prec_of TOK_AMP = 6"
| "prec_of TOK_SHL = 7"
| "prec_of TOK_SHR = 7"
| "prec_of TOK_CONCAT = 8"
| "prec_of TOK_PLUS = 9"
| "prec_of TOK_MINUS = 9"
| "prec_of TOK_STAR = 10"
| "prec_of TOK_SLASH = 10"
| "prec_of TOK_DSLASH = 10"
| "prec_of TOK_PERCENT = 10"
| "prec_of TOK_CARET = 12"
| "prec_of _ = 0"

text \<open>None is \<open>__builtin_unreachable\<close>.\<close>

fun binop_of :: "TokKind \<Rightarrow> BinOp option" where
  "binop_of TOK_PLUS = Some BIN_ADD"
| "binop_of TOK_MINUS = Some BIN_SUB"
| "binop_of TOK_STAR = Some BIN_MUL"
| "binop_of TOK_SLASH = Some BIN_DIV"
| "binop_of TOK_DSLASH = Some BIN_FDIV"
| "binop_of TOK_PERCENT = Some BIN_MOD"
| "binop_of TOK_CARET = Some BIN_POW"
| "binop_of TOK_AMP = Some BIN_BAND"
| "binop_of TOK_PIPE = Some BIN_BOR"
| "binop_of TOK_TILDE = Some BIN_BXOR"
| "binop_of TOK_SHL = Some BIN_SHL"
| "binop_of TOK_SHR = Some BIN_SHR"
| "binop_of TOK_CONCAT = Some BIN_CONCAT"
| "binop_of TOK_EQ = Some BIN_EQ"
| "binop_of TOK_NEQ = Some BIN_NEQ"
| "binop_of TOK_LT = Some BIN_LT"
| "binop_of TOK_LE = Some BIN_LE"
| "binop_of TOK_GT = Some BIN_GT"
| "binop_of TOK_GE = Some BIN_GE"
| "binop_of TOK_KW_AND = Some BIN_AND"
| "binop_of TOK_KW_OR = Some BIN_OR"
| "binop_of _ = None"

definition parse_expr :: "rec_calls \<Rightarrow> Expr option P" where
  "parse_expr R = rec_prec R PREC_OR"

section \<open>Primaries\<close>

definition make_index :: "Expr \<Rightarrow> Token \<Rightarrow> Expr" where
  "make_index base name =
     EXPR_INDEX (tline name, False) base (EXPR_STRING (tline name, False) (tok_text name))"

definition string_expr :: "Token \<Rightarrow> Expr" where
  "string_expr t = EXPR_STRING (tline t, False) (str_buf t)"

definition parse_name :: "Token \<Rightarrow> Expr option P" where
  "parse_name t = do {
     _ \<leftarrow> advance;
     r \<leftarrow> resolve_name (tok_text t);
     case r of
       None \<Rightarrow> fail (take 159 (''undefined variable `'' @ tok_text t @ ''`''))
     | Some (k, i, ro) \<Rightarrow> ret (Some (EXPR_VAR (tline t, False) (tok_text t) k i ro)) }"

definition parse_vararg :: "nat \<Rightarrow> Expr option P" where
  "parse_vararg line = do {
     _ \<leftarrow> advance;
     f \<leftarrow> on_frame (\<lambda>f. (f, f)) frame_init;
     if \<not> is_vararg f then fail ''cannot use `...` outside a vararg function''
     else ret (Some (EXPR_VARARG (line, False)
            (map_option (\<lambda>s. EXPR_VAR (line, False) (vararg_name f) VAR_LOCAL s False) (vararg_slot f)) False)) }"

definition parse_paren :: "rec_calls \<Rightarrow> Expr option P" where
  "parse_paren R = do {
     _ \<leftarrow> advance;
     inner \<leftarrow> parse_expr R;
     whenok (do {
       _ \<leftarrow> expect TOK_RPAREN '')'';
       on_ok inner (\<lambda>e. ret (Some (with_paren e))) }) }"

definition table_entry :: "rec_calls \<Rightarrow> TableEntry option P" where
  "table_entry R = do {
     t \<leftarrow> peek;
     if kind t = TOK_LBRACKET then do {
       _ \<leftarrow> advance;
       k \<leftarrow> parse_expr R;
       on_ok k (\<lambda>k. do {
         _ \<leftarrow> expect TOK_RBRACKET '']'';
         _ \<leftarrow> expect TOK_ASSIGN ''='';
         v \<leftarrow> parse_expr R;
         on_ok v (\<lambda>v. ret (Some (TENT_KEY_EXPR k v))) }) }
     else do {
       nxt \<leftarrow> gets (\<lambda>p. peek_at p 1);
       if kind t = TOK_IDENT \<and> kind nxt = TOK_ASSIGN then do {
         nm \<leftarrow> advance;
         _ \<leftarrow> advance;
         v \<leftarrow> parse_expr R;
         on_ok v (\<lambda>v. ret (Some (TENT_KEY_EXPR (EXPR_STRING (tline nm, False) (tok_text nm)) v))) }
       else do {
         v \<leftarrow> parse_expr R;
         on_ok v (\<lambda>v. ret (Some (TENT_POSITIONAL v))) } } }"

fun table_loop :: "rec_calls \<Rightarrow> nat \<Rightarrow> TableEntry list \<Rightarrow> TableEntry list option P" where
  "table_loop R 0 acc = out_of_fuel None"
| "table_loop R (Suc n) acc = do {
     t \<leftarrow> peek;
     if kind t = TOK_RBRACE \<or> kind t = TOK_EOF then ret (Some acc)
     else do {
       e \<leftarrow> table_entry R;
       case e of
         None \<Rightarrow> ret None
       | Some e \<Rightarrow> do {
           c \<leftarrow> match TOK_COMMA;
           s \<leftarrow> (if c then ret True else match TOK_SEMI);
           if s then table_loop R n (acc @ [e]) else ret (Some (acc @ [e])) } } }"

definition parse_table :: "rec_calls \<Rightarrow> nat \<Rightarrow> Expr option P" where
  "parse_table R line = do {
     _ \<leftarrow> advance;
     es \<leftarrow> table_loop R (rec_fuel R) [];
     case es of
       None \<Rightarrow> ret None
     | Some es \<Rightarrow> do {
         _ \<leftarrow> expect TOK_RBRACE ''}'';
         ret (Some (EXPR_TABLE (line, False) es)) } }"

definition parse_primary :: "rec_calls \<Rightarrow> Expr option P" where
  "parse_primary R = do {
     t \<leftarrow> peek;
     let h = (tline t, False);
     case kind t of
       TOK_KW_NIL \<Rightarrow> do { _ \<leftarrow> advance; ret (Some (EXPR_NIL h)) }
     | TOK_KW_TRUE \<Rightarrow> do { _ \<leftarrow> advance; ret (Some (EXPR_TRUE h)) }
     | TOK_KW_FALSE \<Rightarrow> do { _ \<leftarrow> advance; ret (Some (EXPR_FALSE h)) }
     | TOK_INT \<Rightarrow> do { _ \<leftarrow> advance; ret (Some (EXPR_INT h (i_val t))) }
     | TOK_FLOAT \<Rightarrow> do { _ \<leftarrow> advance; ret (Some (EXPR_FLOAT h (f_val t))) }
     | TOK_STRING \<Rightarrow> do { _ \<leftarrow> advance; ret (Some (string_expr t)) }
     | TOK_IDENT \<Rightarrow> parse_name t
     | TOK_LPAREN \<Rightarrow> parse_paren R
     | TOK_ELLIPSIS \<Rightarrow> parse_vararg (tline t)
     | TOK_KW_FUNCTION \<Rightarrow> do {
         _ \<leftarrow> advance;
         fn \<leftarrow> rec_body R (tline t) False;
         on_ok fn (\<lambda>fn. ret (Some (EXPR_FUNCTION h fn))) }
     | TOK_LBRACE \<Rightarrow> parse_table R (tline t)
     | _ \<Rightarrow> fail ''expected expression'' }"

section \<open>Postfix chains\<close>

text \<open>\<open>do \<open>parse_expr\<close> while (match (p, TOK_COMMA))\<close>\<close>

fun expr_list :: "rec_calls \<Rightarrow> nat \<Rightarrow> Expr list \<Rightarrow> Expr list option P" where
  "expr_list R 0 acc = out_of_fuel None"
| "expr_list R (Suc n) acc = do {
     e \<leftarrow> parse_expr R;
     on_ok e (\<lambda>e. do {
       c \<leftarrow> match TOK_COMMA;
       if c then expr_list R n (acc @ [e]) else ret (Some (acc @ [e])) }) }"

text \<open>The arguments behind \<open>(\<close>, up to and including \<open>)\<close>.\<close>

definition call_args :: "rec_calls \<Rightarrow> Expr list option P" where
  "call_args R = do {
     t \<leftarrow> peek;
     args \<leftarrow> (if kind t \<noteq> TOK_RPAREN then expr_list R (rec_fuel R) [] else ret (Some []));
     case args of
       None \<Rightarrow> ret None
     | Some args \<Rightarrow> do { _ \<leftarrow> expect TOK_RPAREN '')''; ret (Some args) } }"

definition method_args :: "rec_calls \<Rightarrow> Expr list option P" where
  "method_args R = do {
     t \<leftarrow> peek;
     if kind t = TOK_STRING then do { st \<leftarrow> advance; ret (Some [string_expr st]) }
     else if kind t = TOK_LBRACE then do {
       arg \<leftarrow> parse_primary R;
       on_ok arg (\<lambda>arg. ret (Some [arg])) }
     else do { _ \<leftarrow> expect TOK_LPAREN ''(''; call_args R } }"

text \<open>One postfix operator behind \<open>e\<close>.\<close>

definition chain_call :: "rec_calls \<Rightarrow> Expr \<Rightarrow> nat \<Rightarrow> Expr option P" where
  "chain_call R e line = do {
     _ \<leftarrow> advance;
     args \<leftarrow> call_args R;
     ret (map_option (EXPR_CALL (line, False) e) args) }"

definition chain_dot :: "Expr \<Rightarrow> Expr option P" where
  "chain_dot e = do {
     _ \<leftarrow> advance;
     t \<leftarrow> peek;
     if kind t \<noteq> TOK_IDENT then fail (''expected field name after '' @ [SQUOTE] @ ''.'' @ [SQUOTE])
     else do { nm \<leftarrow> advance; ret (Some (make_index e nm)) } }"

definition chain_index :: "rec_calls \<Rightarrow> Expr \<Rightarrow> nat \<Rightarrow> Expr option P" where
  "chain_index R e line = do {
     _ \<leftarrow> advance;
     key \<leftarrow> parse_expr R;
     on_ok key (\<lambda>key. do {
       _ \<leftarrow> expect TOK_RBRACKET '']'';
       ret (Some (EXPR_INDEX (line, False) e key)) }) }"

definition chain_arg :: "rec_calls \<Rightarrow> Expr \<Rightarrow> TokKind \<Rightarrow> nat \<Rightarrow> Expr option P" where
  "chain_arg R e k line = do {
     arg \<leftarrow> (if k = TOK_STRING then do { t \<leftarrow> advance; ret (Some (string_expr t)) } else parse_primary R);
     on_ok arg (\<lambda>arg. ret (Some (EXPR_CALL (line, False) e [arg]))) }"

definition chain_method :: "rec_calls \<Rightarrow> Expr \<Rightarrow> nat \<Rightarrow> Expr option P" where
  "chain_method R e line = do {
     _ \<leftarrow> advance;
     t \<leftarrow> peek;
     if kind t \<noteq> TOK_IDENT then fail (''expected method name after '' @ [SQUOTE] @ '':'' @ [SQUOTE])
     else do {
       nm \<leftarrow> advance;
       args \<leftarrow> method_args R;
       ret (map_option (EXPR_METHOD_CALL (line, False) e (tok_text nm)) args) } }"

definition chain_kinds :: "TokKind list" where
  "chain_kinds = [TOK_LPAREN, TOK_DOT, TOK_LBRACKET, TOK_STRING, TOK_LBRACE, TOK_COLON]"

definition chain_step :: "rec_calls \<Rightarrow> Expr \<Rightarrow> Token \<Rightarrow> Expr option P" where
  "chain_step R e t =
     (let k = kind t in
      if k = TOK_LPAREN then chain_call R e (tline t)
      else if k = TOK_DOT then chain_dot e
      else if k = TOK_LBRACKET then chain_index R e (tline t)
      else if k = TOK_STRING \<or> k = TOK_LBRACE then chain_arg R e k (tline t)
      else chain_method R e (tline t))"

fun chain_loop :: "rec_calls \<Rightarrow> nat \<Rightarrow> Expr \<Rightarrow> Expr option P" where
  "chain_loop R 0 e = out_of_fuel None"
| "chain_loop R (Suc n) e = do {
     t \<leftarrow> peek;
     if kind t \<in> set chain_kinds then do {
       r \<leftarrow> chain_step R e t;
       case r of None \<Rightarrow> ret None | Some e \<Rightarrow> chain_loop R n e }
     else ret (Some e) }"

definition parse_prefix_chain :: "rec_calls \<Rightarrow> Expr option P" where
  "parse_prefix_chain R = do {
     e \<leftarrow> parse_primary R;
     on_ok e (chain_loop R (rec_fuel R)) }"

section \<open>Precedence climbing\<close>

fun unop_of :: "TokKind \<Rightarrow> UnOp option" where
  "unop_of TOK_MINUS = Some UN_NEG"
| "unop_of TOK_KW_NOT = Some UN_NOT"
| "unop_of TOK_HASH = Some UN_LEN"
| "unop_of TOK_TILDE = Some UN_BNOT"
| "unop_of _ = None"

definition parse_unary :: "rec_calls \<Rightarrow> Expr option P" where
  "parse_unary R = do {
     t \<leftarrow> peek;
     case unop_of (kind t) of
       None \<Rightarrow> parse_prefix_chain R
     | Some u \<Rightarrow> do {
         _ \<leftarrow> advance;
         operand \<leftarrow> rec_prec R PREC_UNARY;
         on_ok operand (\<lambda>e. ret (Some (EXPR_UNOP (tline t, False) u e))) } }"

fun prec_loop :: "rec_calls \<Rightarrow> nat \<Rightarrow> nat \<Rightarrow> Expr \<Rightarrow> Expr option P" where
  "prec_loop R 0 min_prec lhs = out_of_fuel None"
| "prec_loop R (Suc n) min_prec lhs = do {
     t \<leftarrow> peek;
     let k = kind t;
     let prec = prec_of k;
     if prec < min_prec then ret (Some lhs)
     else do {
       _ \<leftarrow> advance;
       rhs \<leftarrow> rec_prec R (if k = TOK_CONCAT \<or> k = TOK_CARET then prec else prec + 1);
       on_ok rhs (\<lambda>rhs.
         case binop_of k of
           None \<Rightarrow> null_deref ()
         | Some b \<Rightarrow> prec_loop R n min_prec (EXPR_BINOP (tline t, False) b lhs rhs)) } }"

definition parse_prec :: "rec_calls \<Rightarrow> nat \<Rightarrow> Expr option P" where
  "parse_prec R min_prec = do {
     lhs \<leftarrow> parse_unary R;
     on_ok lhs (prec_loop R (rec_fuel R) min_prec) }"

end
