(* ===== verification/Parser_Stmt.thy ===== *)
theory Parser_Stmt
  imports Parser_Expr
begin

text \<open>
  The statement parser of \<open>src/src/parser.c\<close>, blocks and function bodies, and \<open>parse\<close> itself, which
  ties the recursion: \<open>parser_at n\<close> are the three recursive functions with at most \<open>n\<close> nested
  calls between them. \<open>Parser_Total\<close> shows that one more than the number of tokens is enough.
\<close>

section \<open>Declarations\<close>

definition is_block_end :: "TokKind \<Rightarrow> TokKind list \<Rightarrow> bool" where
  "is_block_end k stops \<longleftrightarrow> k = TOK_EOF \<or> k \<in> set stops"

definition parse_block1 :: "rec_calls \<Rightarrow> TokKind \<Rightarrow> Block P" where
  "parse_block1 R stop = rec_block R [stop]"

text \<open>The attribute code, 1 for const and 2 for close; None is the result -1.\<close>

definition parse_attribute :: "nat option P" where
  "parse_attribute = do {
     _ \<leftarrow> advance;
     t \<leftarrow> peek;
     if kind t \<noteq> TOK_IDENT then fail (''expected attribute name after '' @ [SQUOTE] @ ''<'' @ [SQUOTE])
     else do {
       a \<leftarrow> advance;
       case (if tok_text a = ''const'' then Some 1 else if tok_text a = ''close'' then Some 2 else None) of
         None \<Rightarrow> fail ''unknown attribute''
       | Some attrib \<Rightarrow> do {
           m \<leftarrow> match TOK_GT;
           if m then ret (Some attrib)
           else fail (''expected '' @ [SQUOTE] @ ''>'' @ [SQUOTE] @ '' after attribute'') } } }"

text \<open>An optional attribute behind a name, and the names of a \<open>local\<close> list from the first name on.\<close>

definition attrib_or :: "nat \<Rightarrow> nat option P" where
  "attrib_or dflt = do {
     t \<leftarrow> peek;
     if kind t = TOK_LT then parse_attribute else ret (Some dflt) }"

fun local_names :: "nat \<Rightarrow> nat \<Rightarrow> (Token \<times> nat) list \<Rightarrow> (Token \<times> nat) list option P" where
  "local_names 0 dflt acc = out_of_fuel None"
| "local_names (Suc n) dflt acc = do {
     nm \<leftarrow> advance;
     a \<leftarrow> attrib_or dflt;
     case a of
       None \<Rightarrow> ret None
     | Some a \<Rightarrow> do {
         c \<leftarrow> match TOK_COMMA;
         if c then do {
           t \<leftarrow> peek;
           if kind t \<noteq> TOK_IDENT then fail ''expected identifier''
           else local_names n dflt (acc @ [(nm, a)]) }
         else ret (Some (acc @ [(nm, a)])) } }"

text \<open>The optional \<open>= e1, e2, ...\<close>.\<close>

definition init_values :: "rec_calls \<Rightarrow> Expr list option P" where
  "init_values R = do {
     m \<leftarrow> match TOK_ASSIGN;
     if m then expr_list R (rec_fuel R) [] else ret (Some []) }"

fun declare_locals :: "(Token \<times> nat) list \<Rightarrow> nat list \<Rightarrow> nat list option P" where
  "declare_locals [] acc = ret (Some acc)"
| "declare_locals ((nm, a) # ns) acc = do {
     slot \<leftarrow> on_frame (frame_declare (tok_text nm)) None;
     case slot of
       None \<Rightarrow> fail ''too many locals''
     | Some s \<Rightarrow> do {
         _ \<leftarrow> (if a \<noteq> 0 then upd_frame (set_last_attrib a) else ret ());
         declare_locals ns (acc @ [s]) } }"

definition parse_local_function :: "rec_calls \<Rightarrow> nat \<Rightarrow> Stmt option P" where
  "parse_local_function R line = do {
     _ \<leftarrow> advance;
     t \<leftarrow> peek;
     if kind t \<noteq> TOK_IDENT then fail ''expected function name''
     else do {
       name \<leftarrow> advance;
       slot \<leftarrow> on_frame (frame_declare (tok_text name)) None;
       case slot of
         None \<Rightarrow> fail ''too many locals''
       | Some s \<Rightarrow> do {
           fn \<leftarrow> rec_body R line False;
           on_ok fn (\<lambda>fn. ret (Some (STMT_LOCAL_FUNC line (tok_text name) s fn))) } } }"

definition parse_local_list :: "rec_calls \<Rightarrow> nat \<Rightarrow> nat \<Rightarrow> Stmt option P" where
  "parse_local_list R line dflt = do {
     ns \<leftarrow> local_names (rec_fuel R) dflt [];
     case ns of
       None \<Rightarrow> ret None
     | Some ns \<Rightarrow>
         if length (filter (\<lambda>(nm, a). a = 2) ns) > 1
         then fail ''multiple to-be-closed variables in local list''
         else do {
           vals \<leftarrow> init_values R;
           case vals of
             None \<Rightarrow> ret None
           | Some vals \<Rightarrow> do {
               slots \<leftarrow> declare_locals ns [];
               case slots of
                 None \<Rightarrow> ret None
               | Some slots \<Rightarrow>
                   ret (Some (STMT_LOCAL line slots
                     (if \<exists>(nm, a)\<in>set ns. a \<noteq> 0
                      then Some (map snd ns, map (\<lambda>(nm, a). tok_text nm) ns) else None)
                     vals)) } } }"

definition parse_local :: "rec_calls \<Rightarrow> Stmt option P" where
  "parse_local R = do {
     t0 \<leftarrow> peek;
     let line = tline t0;
     _ \<leftarrow> advance;
     t \<leftarrow> peek;
     if kind t = TOK_KW_FUNCTION then parse_local_function R line
     else do {
       dflt \<leftarrow> attrib_or 0;
       case dflt of
         None \<Rightarrow> ret None
       | Some dflt \<Rightarrow> do {
           t \<leftarrow> peek;
           if kind t \<noteq> TOK_IDENT then fail ''expected identifier after `local`''
           else parse_local_list R line dflt } } }"

section \<open>Compound statements\<close>

text \<open>A block in its own scope.\<close>

definition scoped_block :: "rec_calls \<Rightarrow> TokKind list \<Rightarrow> Block P" where
  "scoped_block R stops = do {
     mark \<leftarrow> local_count;
     b \<leftarrow> rec_block R stops;
     _ \<leftarrow> scope_rewind mark;
     ret b }"

definition ARM_STOPS :: "TokKind list" where
  "ARM_STOPS = [TOK_KW_ELSE, TOK_KW_ELSEIF, TOK_KW_END]"

definition if_arm :: "rec_calls \<Rightarrow> (Expr \<times> Block) option P" where
  "if_arm R = do {
     _ \<leftarrow> advance;
     cond \<leftarrow> parse_expr R;
     on_ok cond (\<lambda>cond. do {
       _ \<leftarrow> expect TOK_KW_THEN ''then'';
       body \<leftarrow> scoped_block R ARM_STOPS;
       whenok (ret (Some (cond, body))) }) }"

fun if_arms :: "rec_calls \<Rightarrow> nat \<Rightarrow> (Expr \<times> Block) list \<Rightarrow> (Expr \<times> Block) list option P" where
  "if_arms R 0 acc = out_of_fuel None"
| "if_arms R (Suc n) acc = do {
     arm \<leftarrow> if_arm R;
     case arm of
       None \<Rightarrow> ret None
     | Some arm \<Rightarrow> do {
         t \<leftarrow> peek;
         if kind t = TOK_KW_ELSEIF then if_arms R n (acc @ [arm]) else ret (Some (acc @ [arm])) } }"

definition else_part :: "rec_calls \<Rightarrow> Block option option P" where
  "else_part R = do {
     m \<leftarrow> match TOK_KW_ELSE;
     if m then do { b \<leftarrow> scoped_block R [TOK_KW_END]; whenok (ret (Some (Some b))) }
     else ret (Some None) }"

definition parse_if :: "rec_calls \<Rightarrow> Stmt option P" where
  "parse_if R = do {
     t \<leftarrow> peek;
     arms \<leftarrow> if_arms R (rec_fuel R) [];
     case arms of
       None \<Rightarrow> ret None
     | Some arms \<Rightarrow> do {
         els \<leftarrow> else_part R;
         case els of
           None \<Rightarrow> ret None
         | Some els \<Rightarrow> do {
             _ \<leftarrow> expect TOK_KW_END ''end (of if)'';
             ret (Some (STMT_IF (tline t) arms els)) } } }"

definition parse_while :: "rec_calls \<Rightarrow> Stmt option P" where
  "parse_while R = do {
     t \<leftarrow> peek;
     _ \<leftarrow> advance;
     cond \<leftarrow> parse_expr R;
     on_ok cond (\<lambda>cond. do {
       _ \<leftarrow> expect TOK_KW_DO ''do'';
       body \<leftarrow> scoped_block R [TOK_KW_END];
       _ \<leftarrow> expect TOK_KW_END ''end (of while)'';
       whenok (ret (Some (STMT_WHILE (tline t) cond body))) }) }"

definition parse_do :: "rec_calls \<Rightarrow> Stmt option P" where
  "parse_do R = do {
     t \<leftarrow> peek;
     _ \<leftarrow> advance;
     body \<leftarrow> scoped_block R [TOK_KW_END];
     _ \<leftarrow> expect TOK_KW_END ''end (of do)'';
     whenok (ret (Some (STMT_DO (tline t) body))) }"

definition looks_like_block_end :: "TokKind \<Rightarrow> bool" where
  "looks_like_block_end k \<longleftrightarrow>
     k \<in> {TOK_EOF, TOK_KW_END, TOK_KW_ELSE, TOK_KW_ELSEIF, TOK_KW_UNTIL, TOK_SEMI}"

definition parse_return :: "rec_calls \<Rightarrow> Stmt option P" where
  "parse_return R = do {
     t \<leftarrow> peek;
     _ \<leftarrow> advance;
     t' \<leftarrow> peek;
     vals \<leftarrow> (if looks_like_block_end (kind t') then ret (Some []) else expr_list R (rec_fuel R) []);
     case vals of
       None \<Rightarrow> ret None
     | Some vals \<Rightarrow> do { _ \<leftarrow> match TOK_SEMI; ret (Some (STMT_RETURN (tline t) vals)) } }"

section \<open>Assignments\<close>

text \<open>Whether a target is const is decided on the state; the result is whether it may be assigned.\<close>

definition target_const :: "VarKind \<Rightarrow> nat \<Rightarrow> bool \<Rightarrow> Parser \<Rightarrow> bool" where
  "target_const k i ro p =
     (case k of
        VAR_LOCAL \<Rightarrow> frame_local_attrib_by_slot (hd (frames p)) i = Some 1
      | VAR_UPVAL \<Rightarrow> upval_is_const (frames p) i
      | _ \<Rightarrow> ro)"

definition check_assignable :: "Expr \<Rightarrow> bool P" where
  "check_assignable e =
     (case e of
        EXPR_VAR h name k i ro \<Rightarrow> do {
          c \<leftarrow> gets (target_const k i ro);
          if \<not> c then ret True
          else do {
            _ \<leftarrow> error (take 159 (''attempt to assign to const variable '' @ [SQUOTE] @ name @ [SQUOTE]));
            ret False } }
      | _ \<Rightarrow> ret True)"

text \<open>None where the expression is neither a variable nor an index (the C code would read the wrong
  member of the union).\<close>

definition expr_to_target :: "Expr \<Rightarrow> AssignTarget option" where
  "expr_to_target e =
     (case e of
        EXPR_VAR h name k i ro \<Rightarrow> Some (TGT_VAR k i)
      | EXPR_INDEX h t k \<Rightarrow> Some (TGT_INDEX t k)
      | _ \<Rightarrow> None)"

definition is_call :: "Expr \<Rightarrow> bool" where
  "is_call e = (case e of EXPR_CALL h f as \<Rightarrow> True | EXPR_METHOD_CALL h r m as \<Rightarrow> True | _ \<Rightarrow> False)"

definition one_target :: "string \<Rightarrow> Expr \<Rightarrow> AssignTarget option P" where
  "one_target msg e =
     (case expr_to_target e of
        None \<Rightarrow> fail msg
      | Some t \<Rightarrow> do { c \<leftarrow> check_assignable e; ret (if c then Some t else None) })"

fun more_targets :: "rec_calls \<Rightarrow> nat \<Rightarrow> AssignTarget list \<Rightarrow> AssignTarget list option P" where
  "more_targets R 0 acc = out_of_fuel None"
| "more_targets R (Suc n) acc = do {
     c \<leftarrow> match TOK_COMMA;
     if \<not> c then ret (Some acc)
     else do {
       e \<leftarrow> parse_prefix_chain R;
       on_ok e (\<lambda>e. do {
         t \<leftarrow> one_target ''invalid assignment target'' e;
         case t of None \<Rightarrow> ret None | Some t \<Rightarrow> more_targets R n (acc @ [t]) }) } }"

definition parse_assign :: "rec_calls \<Rightarrow> nat \<Rightarrow> Expr \<Rightarrow> Stmt option P" where
  "parse_assign R line first = do {
     t \<leftarrow> one_target ''expression statement must be a call or assignment'' first;
     case t of
       None \<Rightarrow> ret None
     | Some t \<Rightarrow> do {
         ts \<leftarrow> more_targets R (rec_fuel R) [t];
         case ts of
           None \<Rightarrow> ret None
         | Some ts \<Rightarrow> do {
             _ \<leftarrow> expect TOK_ASSIGN ''= (assignment)'';
             whenok (do {
               vals \<leftarrow> expr_list R (rec_fuel R) [];
               ret (map_option (STMT_ASSIGN line ts) vals) }) } } }"

definition parse_ident_stmt :: "rec_calls \<Rightarrow> Stmt option P" where
  "parse_ident_stmt R = do {
     t \<leftarrow> peek;
     first \<leftarrow> parse_prefix_chain R;
     on_ok first (\<lambda>first.
       if is_call first then ret (Some (STMT_EXPR (tline t) first))
       else parse_assign R (tline t) first) }"

section \<open>Loops\<close>

text \<open>The numeric loop: start, stop and step, then the body with its variable.\<close>

definition for_bounds :: "rec_calls \<Rightarrow> (Expr \<times> Expr \<times> Expr option) option P" where
  "for_bounds R = do {
     start \<leftarrow> parse_expr R;
     on_ok start (\<lambda>start. do {
       _ \<leftarrow> expect TOK_COMMA '','';
       stop \<leftarrow> parse_expr R;
       on_ok stop (\<lambda>stop. do {
         c \<leftarrow> match TOK_COMMA;
         if c then do { step \<leftarrow> parse_expr R; on_ok step (\<lambda>step. ret (Some (start, stop, Some step))) }
         else ret (Some (start, stop, None)) }) }) }"

definition for_num_body :: "rec_calls \<Rightarrow> nat \<Rightarrow> Token \<Rightarrow> Expr \<Rightarrow> Expr \<Rightarrow> Expr option \<Rightarrow> Stmt option P" where
  "for_num_body R line first start stop step = do {
     _ \<leftarrow> expect TOK_KW_DO ''do'';
     mark \<leftarrow> local_count;
     slot \<leftarrow> on_frame (frame_declare (tok_text first)) None;
     case slot of
       None \<Rightarrow> fail ''too many locals''
     | Some slot \<Rightarrow> do {
         _ \<leftarrow> upd_frame frame_mark_last_const;
         body \<leftarrow> parse_block1 R TOK_KW_END;
         _ \<leftarrow> scope_rewind mark;
         _ \<leftarrow> expect TOK_KW_END ''end (of for)'';
         whenok (ret (Some (STMT_FOR_NUM line (tok_text first) slot start stop step body))) } }"

definition parse_for_num :: "rec_calls \<Rightarrow> nat \<Rightarrow> Token \<Rightarrow> Stmt option P" where
  "parse_for_num R line first = do {
     _ \<leftarrow> advance;
     b \<leftarrow> for_bounds R;
     case b of
       None \<Rightarrow> ret None
     | Some (start, stop, step) \<Rightarrow> for_num_body R line first start stop step }"

fun for_names :: "nat \<Rightarrow> Token list \<Rightarrow> Token list option P" where
  "for_names 0 acc = out_of_fuel None"
| "for_names (Suc n) acc = do {
     c \<leftarrow> match TOK_COMMA;
     if \<not> c then ret (Some acc)
     else do {
       t \<leftarrow> peek;
       if kind t \<noteq> TOK_IDENT then fail ''expected name''
       else do { nm \<leftarrow> advance; for_names n (acc @ [nm]) } } }"

text \<open>Only the first variable is const.\<close>

fun declare_for :: "bool \<Rightarrow> Token list \<Rightarrow> nat list \<Rightarrow> nat list option P" where
  "declare_for is_first [] acc = ret (Some acc)"
| "declare_for is_first (nm # ns) acc = do {
     slot \<leftarrow> on_frame (frame_declare (tok_text nm)) None;
     case slot of
       None \<Rightarrow> fail ''too many locals''
     | Some s \<Rightarrow> do {
         _ \<leftarrow> (if is_first then upd_frame frame_mark_last_const else ret ());
         declare_for False ns (acc @ [s]) } }"

definition for_gen_body :: "rec_calls \<Rightarrow> nat \<Rightarrow> Token list \<Rightarrow> Expr list \<Rightarrow> Stmt option P" where
  "for_gen_body R line names exprs = do {
     _ \<leftarrow> expect TOK_KW_DO ''do'';
     mark \<leftarrow> local_count;
     slots \<leftarrow> declare_for True names [];
     case slots of
       None \<Rightarrow> ret None
     | Some slots \<Rightarrow> do {
         body \<leftarrow> parse_block1 R TOK_KW_END;
         _ \<leftarrow> scope_rewind mark;
         _ \<leftarrow> expect TOK_KW_END ''end (of for)'';
         whenok (do {
           l \<leftarrow> last_line;
           ret (Some (STMT_FOR_GEN line (map tok_text names) slots exprs body l)) }) } }"

definition parse_for_gen :: "rec_calls \<Rightarrow> nat \<Rightarrow> Token \<Rightarrow> Stmt option P" where
  "parse_for_gen R line first = do {
     names \<leftarrow> for_names (rec_fuel R) [first];
     case names of
       None \<Rightarrow> ret None
     | Some names \<Rightarrow> do {
         _ \<leftarrow> expect TOK_KW_IN ''in'';
         exprs \<leftarrow> expr_list R (rec_fuel R) [];
         case exprs of
           None \<Rightarrow> ret None
         | Some exprs \<Rightarrow> for_gen_body R line names exprs } }"

definition parse_for :: "rec_calls \<Rightarrow> Stmt option P" where
  "parse_for R = do {
     t \<leftarrow> peek;
     _ \<leftarrow> advance;
     t' \<leftarrow> peek;
     if kind t' \<noteq> TOK_IDENT then fail ''expected identifier after `for`''
     else do {
       first \<leftarrow> advance;
       nxt \<leftarrow> peek;
       if kind nxt = TOK_ASSIGN then parse_for_num R (tline t) first
       else parse_for_gen R (tline t) first } }"

definition parse_repeat :: "rec_calls \<Rightarrow> Stmt option P" where
  "parse_repeat R = do {
     t \<leftarrow> peek;
     _ \<leftarrow> advance;
     mark \<leftarrow> local_count;
     body \<leftarrow> parse_block1 R TOK_KW_UNTIL;
     _ \<leftarrow> expect TOK_KW_UNTIL ''until'';
     cond \<leftarrow> parse_expr R;
     l \<leftarrow> last_line;
     _ \<leftarrow> scope_rewind mark;
     on_ok cond (\<lambda>cond. ret (Some (STMT_REPEAT (tline t) (Block (items body) l) cond))) }"

definition parse_break :: "Stmt option P" where
  "parse_break = do { t \<leftarrow> peek; _ \<leftarrow> advance; ret (Some (STMT_BREAK (tline t))) }"

section \<open>Goto and labels\<close>

definition label_visible :: "string \<Rightarrow> Parser \<Rightarrow> bool" where
  "label_visible name p \<longleftrightarrow> (\<exists>l\<in>set (drop (fn_labels p) (labels p)). lr_name l = name)"

text \<open>The scan ahead of a label: None when the bound \<open>n\<close> is hit.\<close>

fun label_ends_block :: "nat \<Rightarrow> nat \<Rightarrow> Parser \<Rightarrow> bool option" where
  "label_ends_block 0 i p = None"
| "label_ends_block (Suc n) i p =
     (let k = kind (peek_at p i) in
      if k = TOK_SEMI then label_ends_block n (i + 1) p
      else if k = TOK_DBLCOLON \<and> kind (peek_at p (i + 1)) = TOK_IDENT \<and> kind (peek_at p (i + 2)) = TOK_DBLCOLON
      then label_ends_block n (i + 3) p
      else Some (k = TOK_KW_END \<or> k = TOK_KW_ELSE \<or> k = TOK_KW_ELSEIF \<or> k = TOK_EOF))"

definition parse_goto :: "Stmt option P" where
  "parse_goto = do {
     t \<leftarrow> peek;
     _ \<leftarrow> advance;
     t' \<leftarrow> peek;
     if kind t' \<noteq> TOK_IDENT then fail ''expected identifier after `goto`''
     else do {
       nm \<leftarrow> advance;
       vis \<leftarrow> gets (label_visible (tok_text nm));
       n \<leftarrow> local_count;
       _ \<leftarrow> (if vis then ret ()
            else modify (\<lambda>p. p\<lparr>gotos := gotos p @
                   [\<lparr>gr_name = tok_text nm, gr_line = tline t, gr_nactvar = n, gr_resolved = False\<rparr>]\<rparr>));
       ret (Some (STMT_GOTO (tline t) (tok_text nm))) } }"

text \<open>The name of the declaration a goto would jump over.\<close>

definition decl_name :: "Parser \<Rightarrow> nat \<Rightarrow> string option" where
  "decl_name p i =
     (let ds = locals (hd (frames p)) in
      if i < length ds then Some (if ls_kind (ds ! i) = DECL_GLOBAL_ALL then ''*'' else ls_name (ds ! i))
      else None)"

text \<open>The pending gotos of the block that a label takes: resolved in order, up to the first that
  would enter the scope of a declaration.\<close>

fun take_gotos :: "string \<Rightarrow> nat \<Rightarrow> GotoRec list \<Rightarrow> GotoRec list \<times> GotoRec option" where
  "take_gotos name nactvar [] = ([], None)"
| "take_gotos name nactvar (g # gs) =
     (if gr_resolved g \<or> gr_name g \<noteq> name then
        (case take_gotos name nactvar gs of (gs, bad) \<Rightarrow> (g # gs, bad))
      else if gr_nactvar g < nactvar then (g # gs, Some g)
      else (case take_gotos name nactvar gs of (gs, bad) \<Rightarrow> (g\<lparr>gr_resolved := True\<rparr> # gs, bad)))"

definition place_label :: "nat \<Rightarrow> string \<Rightarrow> nat \<Rightarrow> Stmt option P" where
  "place_label line name nactvar = do {
     bad \<leftarrow> State (\<lambda>p.
       case take_gotos name nactvar (drop (blk_gotos p) (gotos p)) of
         (gs, bad) \<Rightarrow> (bad, p\<lparr>gotos := take (blk_gotos p) (gotos p) @ gs\<rparr>));
     case bad of
       Some g \<Rightarrow> do {
         d \<leftarrow> gets (\<lambda>p. decl_name p (gr_nactvar g));
         case d of
           None \<Rightarrow> null_deref ()
         | Some d \<Rightarrow> fail (take 255 (''<goto '' @ name @ ''> at line '' @ dec_str (gr_line g) @
                       '' jumps into the scope of '' @ [SQUOTE] @ d @ [SQUOTE])) }
     | None \<Rightarrow> do {
         _ \<leftarrow> modify (\<lambda>p. p\<lparr>labels := labels p @ [\<lparr>lr_name = name, lr_nactvar = nactvar\<rparr>]\<rparr>);
         ret (Some (STMT_LABEL line name)) } }"

definition parse_label :: "Stmt option P" where
  "parse_label = do {
     t \<leftarrow> peek;
     _ \<leftarrow> advance;
     t' \<leftarrow> peek;
     if kind t' \<noteq> TOK_IDENT then fail ''expected identifier inside `::...::`''
     else do {
       nm \<leftarrow> advance;
       t'' \<leftarrow> peek;
       if kind t'' \<noteq> TOK_DBLCOLON then fail ''expected `::` after label name''
       else do {
         _ \<leftarrow> advance;
         ends \<leftarrow> gets (\<lambda>p. label_ends_block (length (ptoks p) + 1) 0 p);
         case ends of
           None \<Rightarrow> out_of_fuel None
         | Some ends \<Rightarrow> do {
             blk \<leftarrow> gets blk_nactvar;
             n \<leftarrow> local_count;
             place_label (tline t) (tok_text nm) (if ends then blk else n) } } } }"

section \<open>Global declarations\<close>

definition global_idx :: "string \<Rightarrow> nat option P" where
  "global_idx name = State (global_index name)"

definition parse_global_function :: "rec_calls \<Rightarrow> nat \<Rightarrow> Stmt option P" where
  "parse_global_function R line = do {
     t \<leftarrow> peek;
     if kind t \<noteq> TOK_IDENT then fail ''expected function name''
     else do {
       fname \<leftarrow> advance;
       gi \<leftarrow> global_idx (tok_text fname);
       case gi of
         None \<Rightarrow> ret None
       | Some gi \<Rightarrow> do {
           d \<leftarrow> on_frame (frame_declare_global (Some (tok_text fname)) 0) False;
           if \<not> d then fail ''too many declarations''
           else do {
             fn \<leftarrow> rec_body R line False;
             on_ok fn (\<lambda>fn. ret (Some (STMT_GLOBAL line [gi] [EXPR_FUNCTION (line, False) fn]))) } } } }"

fun global_names :: "nat \<Rightarrow> nat \<Rightarrow> (Token \<times> nat) list \<Rightarrow> (Token \<times> nat) list option P" where
  "global_names 0 dflt acc = out_of_fuel None"
| "global_names (Suc n) dflt acc = do {
     t \<leftarrow> peek;
     if kind t \<noteq> TOK_IDENT then fail ''expected identifier''
     else do {
       nm \<leftarrow> advance;
       a \<leftarrow> attrib_or dflt;
       case a of
         None \<Rightarrow> ret None
       | Some a \<Rightarrow>
           if a = 2 then do {
             _ \<leftarrow> modify (set_error_at (tline nm) ''global variables cannot be to-be-closed'');
             ret None }
           else do {
             c \<leftarrow> match TOK_COMMA;
             if c then global_names n dflt (acc @ [(nm, a)]) else ret (Some (acc @ [(nm, a)])) } } }"

fun global_indices :: "(Token \<times> nat) list \<Rightarrow> nat list \<Rightarrow> nat list option P" where
  "global_indices [] acc = ret (Some acc)"
| "global_indices ((nm, a) # ns) acc = do {
     g \<leftarrow> global_idx (tok_text nm);
     case g of None \<Rightarrow> ret None | Some g \<Rightarrow> global_indices ns (acc @ [g]) }"

fun declare_globals :: "(Token \<times> nat) list \<Rightarrow> unit option P" where
  "declare_globals [] = ret (Some ())"
| "declare_globals ((nm, a) # ns) = do {
     d \<leftarrow> on_frame (frame_declare_global (Some (tok_text nm)) a) False;
     if d then declare_globals ns else fail ''too many declarations'' }"

definition parse_global_list :: "rec_calls \<Rightarrow> nat \<Rightarrow> nat \<Rightarrow> Stmt option P" where
  "parse_global_list R line dflt = do {
     ns \<leftarrow> global_names (rec_fuel R) dflt [];
     case ns of
       None \<Rightarrow> ret None
     | Some ns \<Rightarrow> do {
         gs \<leftarrow> global_indices ns [];
         case gs of
           None \<Rightarrow> ret None
         | Some gs \<Rightarrow> do {
             vals \<leftarrow> init_values R;
             case vals of
               None \<Rightarrow> ret None
             | Some vals \<Rightarrow> do {
                 d \<leftarrow> declare_globals ns;
                 case d of None \<Rightarrow> ret None | Some _ \<Rightarrow> ret (Some (STMT_GLOBAL line gs vals)) } } } }"

text \<open>The collective \<open>global *\<close> makes no statement: a NULL result without an error.\<close>

definition parse_global :: "rec_calls \<Rightarrow> Stmt option P" where
  "parse_global R = do {
     t0 \<leftarrow> peek;
     let line = tline t0;
     _ \<leftarrow> advance;
     f \<leftarrow> match TOK_KW_FUNCTION;
     if f then parse_global_function R line
     else do {
       dflt \<leftarrow> attrib_or 0;
       case dflt of
         None \<Rightarrow> ret None
       | Some dflt \<Rightarrow>
           if dflt = 2 then fail ''global variables cannot be to-be-closed''
           else do {
             star \<leftarrow> match TOK_STAR;
             if star then do {
               d \<leftarrow> on_frame (frame_declare_global None dflt) False;
               if d then ret None else fail ''too many declarations'' }
             else do {
               t \<leftarrow> peek;
               if kind t \<noteq> TOK_IDENT then fail ''expected identifier after `global`''
               else parse_global_list R line dflt } } } }"

section \<open>Function statements\<close>

fun dotted_path :: "nat \<Rightarrow> Expr \<Rightarrow> Expr option P" where
  "dotted_path 0 base = out_of_fuel None"
| "dotted_path (Suc n) base = do {
     t \<leftarrow> peek;
     if kind t \<noteq> TOK_DOT then ret (Some base)
     else do {
       _ \<leftarrow> advance;
       t \<leftarrow> peek;
       if kind t \<noteq> TOK_IDENT then fail (''expected name after '' @ [SQUOTE] @ ''.'' @ [SQUOTE])
       else do { nm \<leftarrow> advance; dotted_path n (make_index base nm) } } }"

text \<open>The optional \<open>:NAME\<close>: the target and whether the function takes \<open>self\<close>.\<close>

definition method_suffix :: "Expr \<Rightarrow> (Expr \<times> bool) option P" where
  "method_suffix base = do {
     t \<leftarrow> peek;
     if kind t \<noteq> TOK_COLON then ret (Some (base, False))
     else do {
       _ \<leftarrow> advance;
       t \<leftarrow> peek;
       if kind t \<noteq> TOK_IDENT then fail (''expected name after '' @ [SQUOTE] @ '':'' @ [SQUOTE])
       else do { nm \<leftarrow> advance; ret (Some (make_index base nm, True)) } } }"

definition function_target :: "rec_calls \<Rightarrow> nat \<Rightarrow> Expr \<Rightarrow> Stmt option P" where
  "function_target R line var = do {
     base \<leftarrow> dotted_path (rec_fuel R) var;
     case base of
       None \<Rightarrow> ret None
     | Some base \<Rightarrow> do {
         ms \<leftarrow> method_suffix base;
         case ms of
           None \<Rightarrow> ret None
         | Some (base, with_self) \<Rightarrow>
             (case expr_to_target base of
                None \<Rightarrow> null_deref ()
              | Some target \<Rightarrow> do {
                  fn \<leftarrow> rec_body R line with_self;
                  on_ok fn (\<lambda>fn. ret (Some (STMT_ASSIGN line [target] [EXPR_FUNCTION (line, False) fn]))) }) } }"

definition parse_function_stmt :: "rec_calls \<Rightarrow> Stmt option P" where
  "parse_function_stmt R = do {
     t0 \<leftarrow> peek;
     let line = tline t0;
     _ \<leftarrow> advance;
     t \<leftarrow> peek;
     if kind t \<noteq> TOK_IDENT then fail ''expected function name''
     else do {
       first \<leftarrow> advance;
       let name = tok_text first;
       r \<leftarrow> resolve_name name;
       case r of
         None \<Rightarrow> fail (take 159 (''function `'' @ name @ ''` is not declared (add `global '' @ name @
                   ''` first or use `local function`)''))
       | Some (k, i, ro) \<Rightarrow> do {
           let var = EXPR_VAR (line, False) name k i ro;
           nxt \<leftarrow> peek;
           c \<leftarrow> (if kind nxt \<noteq> TOK_DOT \<and> kind nxt \<noteq> TOK_COLON then check_assignable var else ret True);
           if c then function_target R line var else ret None } } }"

section \<open>Statements and blocks\<close>

definition starts_global :: "Token \<Rightarrow> Parser \<Rightarrow> bool" where
  "starts_global t p \<longleftrightarrow> tok_text t = ''global''
     \<and> kind (peek_at p 1) \<in> {TOK_IDENT, TOK_KW_FUNCTION, TOK_LT, TOK_STAR}"

definition parse_stmt :: "rec_calls \<Rightarrow> Stmt option P" where
  "parse_stmt R = do {
     t \<leftarrow> peek;
     case kind t of
       TOK_SEMI \<Rightarrow> do { _ \<leftarrow> advance; ret None }
     | TOK_KW_LOCAL \<Rightarrow> parse_local R
     | TOK_KW_FUNCTION \<Rightarrow> parse_function_stmt R
     | TOK_KW_IF \<Rightarrow> parse_if R
     | TOK_KW_WHILE \<Rightarrow> parse_while R
     | TOK_KW_DO \<Rightarrow> parse_do R
     | TOK_KW_RETURN \<Rightarrow> parse_return R
     | TOK_KW_FOR \<Rightarrow> parse_for R
     | TOK_KW_REPEAT \<Rightarrow> parse_repeat R
     | TOK_KW_BREAK \<Rightarrow> parse_break
     | TOK_KW_GOTO \<Rightarrow> parse_goto
     | TOK_DBLCOLON \<Rightarrow> parse_label
     | TOK_LPAREN \<Rightarrow> parse_ident_stmt R
     | TOK_IDENT \<Rightarrow> do {
         g \<leftarrow> gets (starts_global t);
         if g then parse_global R else parse_ident_stmt R }
     | _ \<Rightarrow> fail ''expected a statement'' }"

fun block_loop :: "rec_calls \<Rightarrow> nat \<Rightarrow> TokKind list \<Rightarrow> Stmt list \<Rightarrow> Stmt list P" where
  "block_loop R 0 stops acc = out_of_fuel acc"
| "block_loop R (Suc n) stops acc = do {
     ok \<leftarrow> gets pok;
     if \<not> ok then ret acc
     else do {
       t \<leftarrow> peek;
       if is_block_end (kind t) stops then ret acc
       else do {
         st \<leftarrow> parse_stmt R;
         ok \<leftarrow> gets pok;
         if \<not> ok then ret acc
         else block_loop R n stops (case st of None \<Rightarrow> acc | Some s \<Rightarrow> acc @ [s]) } } }"

definition parse_block :: "rec_calls \<Rightarrow> TokKind list \<Rightarrow> Block P" where
  "parse_block R stops = do {
     outer \<leftarrow> gets (\<lambda>p. (length (labels p), blk_gotos p, blk_nactvar p));
     n \<leftarrow> local_count;
     _ \<leftarrow> modify (\<lambda>p. p\<lparr>blk_gotos := length (gotos p), blk_nactvar := n\<rparr>);
     sts \<leftarrow> block_loop R (rec_fuel R) stops [];
     l \<leftarrow> last_line;
     _ \<leftarrow> modify (\<lambda>p. case outer of (ls, bg, bn) \<Rightarrow>
            p\<lparr>labels := take ls (labels p), blk_gotos := bg, blk_nactvar := bn\<rparr>);
     ret (Block sts l) }"

section \<open>Function bodies\<close>

definition vararg_decl :: "FuncFrame \<Rightarrow> nat \<Rightarrow> nat \<Rightarrow> Stmt" where
  "vararg_decl f slot line =
     STMT_LOCAL line [slot] (Some ([1], [vararg_name f])) [EXPR_VARARG (line, False) None True]"

definition prepend_vararg_decl :: "Block \<Rightarrow> FuncFrame \<Rightarrow> nat \<Rightarrow> Block" where
  "prepend_vararg_decl body f line =
     (case vararg_slot f of
        None \<Rightarrow> body
      | Some s \<Rightarrow> Block (vararg_decl f s line # items body) (end_line body))"

definition vararg_param :: "unit P" where
  "vararg_param = do {
     _ \<leftarrow> advance;
     _ \<leftarrow> upd_frame (\<lambda>f. f\<lparr>is_vararg := True\<rparr>);
     t \<leftarrow> peek;
     if kind t \<noteq> TOK_IDENT then ret ()
     else do {
       vn \<leftarrow> advance;
       s \<leftarrow> on_frame (frame_declare (tok_text vn)) None;
       _ \<leftarrow> upd_frame (\<lambda>f. f\<lparr>vararg_slot := s\<rparr>);
       if s = None then error ''too many locals''
       else upd_frame (\<lambda>f. (frame_mark_last_const f)\<lparr>vararg_name := tok_text vn\<rparr>) } }"

text \<open>The parameter list; the result is the number of parameters.\<close>

fun param_loop :: "nat \<Rightarrow> nat \<Rightarrow> nat P" where
  "param_loop 0 n_params = out_of_fuel n_params"
| "param_loop (Suc n) n_params = do {
     t \<leftarrow> peek;
     if kind t = TOK_ELLIPSIS then do { _ \<leftarrow> vararg_param; ret n_params }
     else if kind t \<noteq> TOK_IDENT then do { _ \<leftarrow> error ''expected parameter name''; ret n_params }
     else do {
       pn \<leftarrow> advance;
       s \<leftarrow> on_frame (frame_declare (tok_text pn)) None;
       if s = None then do { _ \<leftarrow> error ''too many params''; ret n_params }
       else do {
         c \<leftarrow> match TOK_COMMA;
         if c then param_loop n (n_params + 1) else ret (n_params + 1) } } }"

text \<open>The registration of a new function: its index, or None with an error.\<close>

definition enter_function :: "nat \<Rightarrow> nat option P" where
  "enter_function line = do {
     full \<leftarrow> gets (\<lambda>p. length (funcs p) \<ge> MAX_FUNCS);
     if full then fail ''too many functions''
     else do {
       i \<leftarrow> gets (\<lambda>p. length (funcs p));
       _ \<leftarrow> modify (\<lambda>p. p\<lparr>funcs := funcs p @ [(func_new line)\<lparr>lf_parent := cur_fn p\<rparr>]\<rparr>);
       deep \<leftarrow> gets (\<lambda>p. length (frames p) \<ge> MAX_FRAME_DEPTH);
       if deep then fail ''function nesting too deep''
       else do {
         _ \<leftarrow> modify (\<lambda>p. p\<lparr>cur_fn := Some i, frames := frame_init # frames p\<rparr>);
         ret (Some i) } } }"

text \<open>The final values of the node. Copying \<open>captured\<close> reads \<open>n_locals\<close> flags of an array of 256.\<close>

definition finish_function :: "nat \<Rightarrow> nat \<Rightarrow> Block \<Rightarrow> Parser \<Rightarrow> Parser" where
  "finish_function i n_params body p =
     (let f = hd (frames p) in
      p\<lparr>funcs := (funcs p)[i := (funcs p ! i)
          \<lparr>lf_n_params := n_params, lf_n_locals := next_slot f, lf_body := body,
           lf_is_vararg := is_vararg f, lf_upvalues := upvalues f,
           lf_captured := take (next_slot f) (captured f)\<rparr>],
        oob := oob p \<or> next_slot f > length (captured f) \<or> frames p = []\<rparr>)"

text \<open>The body, after a parameter list of \<open>n\<close> names, and the final record of function \<open>i\<close>.\<close>

definition function_code :: "rec_calls \<Rightarrow> nat \<Rightarrow> nat \<Rightarrow> nat \<Rightarrow> nat option P" where
  "function_code R line i n = do {
     outer \<leftarrow> gets (\<lambda>p. (fn_labels p, fn_gotos p));
     _ \<leftarrow> modify (\<lambda>p. p\<lparr>fn_labels := length (labels p), fn_gotos := length (gotos p)\<rparr>);
     body \<leftarrow> parse_block1 R TOK_KW_END;
     _ \<leftarrow> modify (\<lambda>p. p\<lparr>gotos := take (fn_gotos p) (gotos p), fn_labels := fst outer, fn_gotos := snd outer\<rparr>);
     _ \<leftarrow> expect TOK_KW_END ''end (of function)'';
     l \<leftarrow> last_line;
     ok \<leftarrow> gets pok;
     f \<leftarrow> on_frame (\<lambda>f. (f, f)) frame_init;
     let body = Block (items body) l;
     _ \<leftarrow> modify (finish_function i n (if ok then prepend_vararg_decl body f line else body));
     ret (Some i) }"

definition function_rest :: "rec_calls \<Rightarrow> nat \<Rightarrow> bool \<Rightarrow> nat \<Rightarrow> nat option P" where
  "function_rest R line with_self i = do {
     _ \<leftarrow> (if with_self then on_frame (frame_declare ''self'') None else ret None);
     _ \<leftarrow> expect TOK_LPAREN ''( in function declaration'';
     t \<leftarrow> peek;
     n \<leftarrow> (if kind t \<noteq> TOK_RPAREN then param_loop (rec_fuel R) (if with_self then 1 else 0)
          else ret (if with_self then 1 else 0));
     _ \<leftarrow> expect TOK_RPAREN '')'';
     function_code R line i n }"

definition parse_function_body_ex :: "rec_calls \<Rightarrow> nat \<Rightarrow> bool \<Rightarrow> nat option P" where
  "parse_function_body_ex R line with_self = do {
     prev \<leftarrow> gets cur_fn;
     i \<leftarrow> enter_function line;
     case i of
       None \<Rightarrow> ret None
     | Some i \<Rightarrow> do {
         r \<leftarrow> function_rest R line with_self i;
         _ \<leftarrow> modify (\<lambda>p. p\<lparr>frames := tl (frames p), cur_fn := prev\<rparr>);
         ret r } }"

section \<open>The whole parser\<close>

fun parser_at :: "nat \<Rightarrow> rec_calls" where
  "parser_at 0 =
     \<lparr>rec_prec = \<lambda>m. out_of_fuel None, rec_block = \<lambda>s. out_of_fuel (Block [] 0),
      rec_body = \<lambda>l s. out_of_fuel None, rec_fuel = 1\<rparr>"
| "parser_at (Suc n) =
     (let R = parser_at n in
      \<lparr>rec_prec = parse_prec R, rec_block = parse_block R, rec_body = parse_function_body_ex R,
       rec_fuel = n + 2\<rparr>)"

declare parser_at.simps [simp del]

lemma parser_at_0 [simp]:
  "rec_prec (parser_at 0) m = out_of_fuel None"
  "rec_block (parser_at 0) stops = out_of_fuel (Block [] 0)"
  "rec_body (parser_at 0) line self = out_of_fuel None"
  "rec_fuel (parser_at 0) = 1"
  by (simp_all add: parser_at.simps)

lemma parser_at_Suc [simp]:
  "rec_prec (parser_at (Suc n)) = parse_prec (parser_at n)"
  "rec_block (parser_at (Suc n)) = parse_block (parser_at n)"
  "rec_body (parser_at (Suc n)) = parse_function_body_ex (parser_at n)"
  "rec_fuel (parser_at (Suc n)) = n + 2"
  by (simp_all add: parser_at.simps Let_def)

definition predeclared :: "string list" where
  "predeclared =
     [''math'', ''string'', ''io'', ''table'', ''utf8'', ''debug'', ''package'', ''os'',
      ''coroutine'', ''_VERSION'', ''_G'']"

definition declare_all :: "string list \<Rightarrow> Parser \<Rightarrow> Parser" where
  "declare_all names p = fold (\<lambda>n p. snd (globals_declare n p)) names p"

definition parser_init :: "Token list \<Rightarrow> Parser" where
  "parser_init ts =
     declare_all predeclared
       \<lparr>ptoks = ts, pos = 0, frames = [frame_init], funcs = [], cur_fn = None, globals = [],
        labels = [], gotos = [], fn_labels = 0, fn_gotos = 0, blk_gotos = 0, blk_nactvar = 0,
        perror = [], pok = True, oob = False, nofuel = False\<rparr>"

record ParseResult =
  main_body :: Block
  main_n_locals :: nat
  main_captured :: "bool list"
  pr_funcs :: "LuaFunc list"
  pr_globals :: "string list"
  pr_error :: string
  pr_ok :: bool

datatype parse_outcome = ParseDone ParseResult | ParseUndefined | ParseFuel

text \<open>
  \<open>ParseUndefined\<close>: the run accessed memory outside an array; \<open>ParseFuel\<close>: the bound of the model was
  too small. The main chunk's \<open>captured\<close> is copied like a function's.
\<close>

definition parse_bounded :: "nat \<Rightarrow> Token list \<Rightarrow> parse_outcome" where
  "parse_bounded n ts =
     (case run_state (parse_block (parser_at n) [TOK_EOF]) (parser_init ts) of
        (main, p) \<Rightarrow>
          let f = hd (frames p) in
          if nofuel p then ParseFuel
          else if oob p \<or> next_slot f > length (captured f) then ParseUndefined
          else ParseDone \<lparr>main_body = main, main_n_locals = next_slot f,
                 main_captured = take (next_slot f) (captured f), pr_funcs = funcs p,
                 pr_globals = globals p, pr_error = perror p, pr_ok = pok p\<rparr>)"

definition parse :: "Token list \<Rightarrow> parse_outcome" where
  "parse ts = parse_bounded (length ts + 1) ts"

end
