(* ===== verification/Parser_Inv.thy ===== *)
theory Parser_Inv
  imports Parser_Stmt "HOL-Library.Sublist"
begin

text \<open>
  What holds of the parser at every moment. \<open>wp\<close> is the weakest precondition of a run of the state
  monad. \<open>wf_expr\<close>, \<open>wf_stmt\<close> and \<open>wf_block\<close> say that every variable, function and slot of a tree exists in the
  function it stands in. \<open>inv\<close> is the invariant of the parser's state and \<open>ext\<close> the order in
  which it moves on: nothing declared, captured or finished is lost. The lemmas show that every
  primitive operation of the parser respects both.
\<close>

section \<open>Weakest preconditions\<close>

definition wp :: "'a P \<Rightarrow> ('a \<Rightarrow> Parser \<Rightarrow> bool) \<Rightarrow> Parser \<Rightarrow> bool" where
  "wp m Q p = (case run_state m p of (a, q) \<Rightarrow> Q a q)"

lemma wp_return [simp]: "wp (ret a) Q p = Q a p"
  by (simp add: wp_def State_Monad.return_def)

lemma wp_bind [simp]: "wp (m \<bind> f) Q p = wp m (\<lambda>a. wp (f a) Q) p"
  by (simp add: wp_def State_Monad.bind_def split: prod.split)

lemma wp_gets [simp]: "wp (gets f) Q p = Q (f p) p"
  by (simp add: wp_def gets_def)

lemma wp_modify [simp]: "wp (modify f) Q p = Q () (f p)"
  by (simp add: wp_def modify_def)

lemma wp_State: "wp (State f) Q p = (case f p of (a, q) \<Rightarrow> Q a q)"
  by (simp add: wp_def)

lemma wp_if [simp]: "wp (if b then m else m') Q p = (if b then wp m Q p else wp m' Q p)"
  by simp

lemma wp_mono: "wp m Q p \<Longrightarrow> (\<And>a q. Q a q \<Longrightarrow> Q' a q) \<Longrightarrow> wp m Q' p"
  by (auto simp: wp_def)

lemma wp_run: "wp m Q p \<Longrightarrow> run_state m p = (a, q) \<Longrightarrow> Q a q"
  by (simp add: wp_def)

lemma wp_whenok [simp]: "wp (whenok m) Q p = (if pok p then wp m Q p else Q None p)"
  by (simp add: whenok_def)

lemma wp_error [simp]: "wp (Parser_State.error msg) Q p = Q () (set_error msg p)"
  by (simp add: Parser_State.error_def)

lemma wp_fail [simp]: "wp (Parser_Expr.fail msg) Q p = Q None (set_error msg p)"
  by (simp add: Parser_Expr.fail_def)

lemma wp_on_ok:
  assumes "pok p \<longrightarrow> r \<noteq> None"
  shows "wp (on_ok r f) Q p = (if pok p then wp (f (the r)) Q p else Q None p)"
  using assms by (auto simp: on_ok_def)

section \<open>Well-scoped trees\<close>

text \<open>
  What the code of a function may refer to: its number of slots and of upvalues, the globals table and
  the functions directly inside it.
\<close>

record env =
  e_slots :: nat
  e_upvals :: nat
  e_globals :: "string list"
  e_kids :: "nat set"

definition env_le :: "env \<Rightarrow> env \<Rightarrow> bool" where
  "env_le a b \<longleftrightarrow> e_slots a \<le> e_slots b \<and> e_upvals a \<le> e_upvals b
     \<and> prefix (e_globals a) (e_globals b) \<and> e_kids a \<subseteq> e_kids b"

fun idx_ok :: "env \<Rightarrow> VarKind \<Rightarrow> nat \<Rightarrow> bool" where
  "idx_ok v VAR_LOCAL i = (i < e_slots v)"
| "idx_ok v VAR_UPVAL i = (i < e_upvals v)"
| "idx_ok v VAR_GLOBAL i = (i < length (e_globals v))"
| "idx_ok v VAR_BUILTIN i = (i < builtin_count)"

fun name_ok :: "env \<Rightarrow> string \<Rightarrow> VarKind \<Rightarrow> nat \<Rightarrow> bool" where
  "name_ok v n VAR_GLOBAL i = (e_globals v ! i = n)"
| "name_ok v n VAR_BUILTIN i = (builtin_name i = Some n)"
| "name_ok v n k i = True"

fun wf_expr :: "env \<Rightarrow> Expr \<Rightarrow> bool" and wf_entry :: "env \<Rightarrow> TableEntry \<Rightarrow> bool" where
  "wf_expr v (EXPR_VAR h n k i ro) = (idx_ok v k i \<and> name_ok v n k i)"
| "wf_expr v (EXPR_CALL h f as) = (wf_expr v f \<and> (\<forall>a\<in>set as. wf_expr v a))"
| "wf_expr v (EXPR_BINOP h b x y) = (wf_expr v x \<and> wf_expr v y)"
| "wf_expr v (EXPR_UNOP h u x) = wf_expr v x"
| "wf_expr v (EXPR_FUNCTION h i) = (i \<in> e_kids v)"
| "wf_expr v (EXPR_INDEX h t k) = (wf_expr v t \<and> wf_expr v k)"
| "wf_expr v (EXPR_TABLE h es) = (\<forall>e\<in>set es. wf_entry v e)"
| "wf_expr v (EXPR_METHOD_CALL h r n as) = (wf_expr v r \<and> (\<forall>a\<in>set as. wf_expr v a))"
| "wf_expr v (EXPR_VARARG h t p) = (case t of Some e \<Rightarrow> wf_expr v e | None \<Rightarrow> True)"
| "wf_expr v e = True"
| "wf_entry v (TENT_POSITIONAL e) = wf_expr v e"
| "wf_entry v (TENT_KEY_EXPR k e) = (wf_expr v k \<and> wf_expr v e)"

fun wf_target :: "env \<Rightarrow> AssignTarget \<Rightarrow> bool" where
  "wf_target v (TGT_VAR k i) = idx_ok v k i"
| "wf_target v (TGT_INDEX t k) = (wf_expr v t \<and> wf_expr v k)"

fun wf_stmt :: "env \<Rightarrow> Stmt \<Rightarrow> bool" and wf_block :: "env \<Rightarrow> Block \<Rightarrow> bool" where
  "wf_stmt v (STMT_LOCAL l slots ats es) = ((\<forall>s\<in>set slots. s < e_slots v) \<and> (\<forall>e\<in>set es. wf_expr v e))"
| "wf_stmt v (STMT_ASSIGN l ts es) = ((\<forall>t\<in>set ts. wf_target v t) \<and> (\<forall>e\<in>set es. wf_expr v e))"
| "wf_stmt v (STMT_EXPR l e) = wf_expr v e"
| "wf_stmt v (STMT_IF l arms els) =
     ((\<forall>(c, b)\<in>set arms. wf_expr v c \<and> wf_block v b) \<and> (case els of Some b \<Rightarrow> wf_block v b | None \<Rightarrow> True))"
| "wf_stmt v (STMT_WHILE l c b) = (wf_expr v c \<and> wf_block v b)"
| "wf_stmt v (STMT_DO l b) = wf_block v b"
| "wf_stmt v (STMT_RETURN l es) = (\<forall>e\<in>set es. wf_expr v e)"
| "wf_stmt v (STMT_LOCAL_FUNC l n s i) = (s < e_slots v \<and> i \<in> e_kids v)"
| "wf_stmt v (STMT_FOR_NUM l n s a b c body) =
     (s < e_slots v \<and> wf_expr v a \<and> wf_expr v b \<and> (case c of Some e \<Rightarrow> wf_expr v e | None \<Rightarrow> True) \<and> wf_block v body)"
| "wf_stmt v (STMT_FOR_GEN l ns slots es body e) =
     ((\<forall>s\<in>set slots. s < e_slots v) \<and> (\<forall>e\<in>set es. wf_expr v e) \<and> wf_block v body)"
| "wf_stmt v (STMT_REPEAT l b c) = (wf_block v b \<and> wf_expr v c)"
| "wf_stmt v (STMT_GLOBAL l gs es) = ((\<forall>g\<in>set gs. g < length (e_globals v)) \<and> (\<forall>e\<in>set es. wf_expr v e))"
| "wf_stmt v s = True"
| "wf_block v (Block sts l) = (\<forall>s\<in>set sts. wf_stmt v s)"

lemma idx_ok_mono: "env_le a b \<Longrightarrow> idx_ok a k i \<Longrightarrow> idx_ok b k i"
  by (cases k) (auto simp: env_le_def dest: prefix_length_le)

lemma name_ok_mono: "env_le a b \<Longrightarrow> idx_ok a k i \<Longrightarrow> name_ok a n k i \<Longrightarrow> name_ok b n k i"
  by (cases k) (auto simp: env_le_def prefix_def nth_append)

lemma wf_expr_mono: "wf_expr a e \<Longrightarrow> env_le a b \<Longrightarrow> wf_expr b e"
  and wf_entry_mono: "wf_entry a t \<Longrightarrow> env_le a b \<Longrightarrow> wf_entry b t"
proof (induction a e and a t rule: wf_expr_wf_entry.induct)
  case (5 v h i)
  then show ?case by (auto simp: env_le_def)
qed (auto intro: idx_ok_mono name_ok_mono split: option.splits)

lemma wf_target_mono: "wf_target a t \<Longrightarrow> env_le a b \<Longrightarrow> wf_target b t"
  by (cases t) (auto intro: idx_ok_mono wf_expr_mono)

lemma wf_stmt_mono: "wf_stmt a s \<Longrightarrow> env_le a b \<Longrightarrow> wf_stmt b s"
  and wf_block_mono: "wf_block a k \<Longrightarrow> env_le a b \<Longrightarrow> wf_block b k"
proof (induction a s and a k rule: wf_stmt_wf_block.induct)
  case (8 v l n s i)
  then show ?case by (auto simp: env_le_def)
next
  case (12 v l gs es)
  then show ?case by (fastforce simp: env_le_def dest: prefix_length_le intro: wf_expr_mono)
qed (fastforce intro: wf_expr_mono wf_target_mono simp: env_le_def split: option.splits)+

section \<open>The invariant\<close>

text \<open>The identifiers among the tokens consumed: every slot was allocated for one of them.\<close>

definition nid :: "Parser \<Rightarrow> nat" where
  "nid p = length (filter (\<lambda>t. kind t = TOK_IDENT) (take (pos p) (ptoks p)))"

definition fr_ok :: "nat \<Rightarrow> FuncFrame \<Rightarrow> bool" where
  "fr_ok k f \<longleftrightarrow> length (locals f) \<le> MAX_LOCALS_PER_FN \<and> length (captured f) = MAX_LOCALS_PER_FN
     \<and> length (upvalues f) \<le> MAX_UPVALS_PER_FN \<and> next_slot f \<le> k
     \<and> (\<forall>d\<in>set (locals f). ls_kind d = DECL_LOCAL \<longrightarrow> (\<exists>s<next_slot f. ls_slot d = Some s))
     \<and> (\<forall>s. vararg_slot f = Some s \<longrightarrow> s < next_slot f)"

text \<open>What an upvalue may refer to in the enclosing function: slots, upvalues and captured flags.\<close>

definition upv_ok :: "nat \<Rightarrow> nat \<Rightarrow> bool list \<Rightarrow> UpvalueRef \<Rightarrow> bool" where
  "upv_ok n m cs u \<longleftrightarrow>
     (if usrc u = UPVAL_FROM_LOCAL
      then uidx u < n \<and> (uidx u < MAX_LOCALS_PER_FN \<longrightarrow> uidx u < length cs \<and> cs ! uidx u)
      else uidx u < m)"

definition upvs_ok :: "FuncFrame \<Rightarrow> UpvalueRef list \<Rightarrow> bool" where
  "upvs_ok f us \<longleftrightarrow> (\<forall>u\<in>set us. upv_ok (next_slot f) (length (upvalues f)) (captured f) u)"

definition kids_of :: "LuaFunc list \<Rightarrow> nat option \<Rightarrow> nat set" where
  "kids_of Fs c = {i. i < length Fs \<and> lf_parent (Fs ! i) = c}"

text \<open>The open functions: frame and function index from the innermost on; the last is the main chunk.\<close>

fun chain_ok :: "LuaFunc list \<Rightarrow> nat option \<Rightarrow> FuncFrame list \<Rightarrow> bool" where
  "chain_ok Fs c [] = False"
| "chain_ok Fs c [f] = (c = None \<and> upvalues f = [] \<and> (\<forall>i\<in>kids_of Fs c. upvs_ok f (lf_upvalues (Fs ! i))))"
| "chain_ok Fs c (f # g # fs) =
     ((\<forall>i\<in>kids_of Fs c. upvs_ok f (lf_upvalues (Fs ! i))) \<and> upvs_ok g (upvalues f)
      \<and> (case c of None \<Rightarrow> False | Some i \<Rightarrow> i < length Fs \<and> chain_ok Fs (lf_parent (Fs ! i)) (g # fs)))"

fun opens :: "LuaFunc list \<Rightarrow> nat option \<Rightarrow> 'a list \<Rightarrow> nat set" where
  "opens Fs c [] = {}"
| "opens Fs c (f # fs) =
     (case c of None \<Rightarrow> {} | Some i \<Rightarrow> insert i (opens Fs (lf_parent (Fs ! i)) fs))"

text \<open>A function as it is recorded; \<open>d\<close> is that no slot has run past the flags.\<close>

definition fun_env :: "string list \<Rightarrow> LuaFunc list \<Rightarrow> nat \<Rightarrow> env" where
  "fun_env gs Fs i =
     \<lparr>e_slots = lf_n_locals (Fs ! i), e_upvals = length (lf_upvalues (Fs ! i)), e_globals = gs,
      e_kids = kids_of Fs (Some i)\<rparr>"

definition fun_ok :: "bool \<Rightarrow> string list \<Rightarrow> LuaFunc list \<Rightarrow> nat \<Rightarrow> bool" where
  "fun_ok d gs Fs i \<longleftrightarrow>
     (case lf_parent (Fs ! i) of None \<Rightarrow> True | Some k \<Rightarrow> k < i)
     \<and> length (lf_upvalues (Fs ! i)) \<le> MAX_UPVALS_PER_FN
     \<and> lf_n_params (Fs ! i) \<le> lf_n_locals (Fs ! i)
     \<and> (d \<longrightarrow> lf_n_locals (Fs ! i) \<le> MAX_LOCALS_PER_FN \<and> length (lf_captured (Fs ! i)) = lf_n_locals (Fs ! i))
     \<and> wf_block (fun_env gs Fs i) (lf_body (Fs ! i))"

text \<open>The upvalues of the functions inside a finished function \<open>i\<close>.\<close>

definition inner_ok :: "LuaFunc list \<Rightarrow> nat \<Rightarrow> bool" where
  "inner_ok Fs i \<longleftrightarrow> (\<forall>j\<in>kids_of Fs (Some i). \<forall>u\<in>set (lf_upvalues (Fs ! j)).
     upv_ok (lf_n_locals (Fs ! i)) (length (lf_upvalues (Fs ! i))) (lf_captured (Fs ! i)) u)"

definition funcs_ok :: "bool \<Rightarrow> string list \<Rightarrow> LuaFunc list \<Rightarrow> nat option \<Rightarrow> FuncFrame list \<Rightarrow> bool" where
  "funcs_ok d gs Fs c fs \<longleftrightarrow>
     length Fs \<le> MAX_FUNCS \<and> chain_ok Fs c fs \<and> (\<forall>i<length Fs. fun_ok d gs Fs i)
     \<and> (\<forall>i<length Fs. i \<in> opens Fs c fs \<or> inner_ok Fs i)"

definition inv :: "Parser \<Rightarrow> bool" where
  "inv p \<longleftrightarrow>
     pos p < length (ptoks p) \<and> kind (last (ptoks p)) = TOK_EOF
     \<and> \<not> nofuel p \<and> (oob p \<longrightarrow> MAX_LOCALS_PER_FN < nid p)
     \<and> length (frames p) \<le> MAX_FRAME_DEPTH \<and> (\<forall>f\<in>set (frames p). fr_ok (nid p) f)
     \<and> distinct (globals p) \<and> length (globals p) \<le> MAX_GLOBALS
     \<and> funcs_ok (\<not> oob p) (globals p) (funcs p) (cur_fn p) (frames p)"

definition cur :: "Parser \<Rightarrow> Token" where
  "cur p = ptoks p ! pos p"

definition rem :: "Parser \<Rightarrow> nat" where
  "rem p = length (ptoks p) - pos p"

definition slots :: "Parser \<Rightarrow> nat" where
  "slots p = next_slot (hd (frames p))"

definition locs :: "Parser \<Rightarrow> LocalSlot list" where
  "locs p = locals (hd (frames p))"

definition env_of :: "Parser \<Rightarrow> env" where
  "env_of p = \<lparr>e_slots = slots p, e_upvals = length (upvalues (hd (frames p))), e_globals = globals p,
     e_kids = kids_of (funcs p) (cur_fn p)\<rparr>"

lemmas env_sel [simp] = env.simps

lemma env_of_simps [simp]:
  "e_slots (env_of p) = slots p" "e_globals (env_of p) = globals p"
  "e_kids (env_of p) = kids_of (funcs p) (cur_fn p)"
  "e_upvals (env_of p) = length (upvalues (hd (frames p)))"
  by (simp_all add: env_of_def)

section \<open>How the state moves on\<close>

text \<open>An enclosing function only gets upvalues and captured flags; the current one also slots.\<close>

definition upv_le :: "FuncFrame \<Rightarrow> FuncFrame \<Rightarrow> bool" where
  "upv_le f g \<longleftrightarrow> prefix (upvalues f) (upvalues g) \<and> length (captured g) = length (captured f)
     \<and> (\<forall>i<length (captured f). captured f ! i \<longrightarrow> captured g ! i) \<and> next_slot f \<le> next_slot g"

definition cap_le :: "FuncFrame \<Rightarrow> FuncFrame \<Rightarrow> bool" where
  "cap_le f g \<longleftrightarrow> upv_le f g \<and> prefix (locals f) (locals g)"

definition outer_le :: "FuncFrame \<Rightarrow> FuncFrame \<Rightarrow> bool" where
  "outer_le f g \<longleftrightarrow> cap_le f g \<and> locals g = locals f \<and> next_slot g = next_slot f
     \<and> is_vararg g = is_vararg f \<and> vararg_slot g = vararg_slot f \<and> vararg_name g = vararg_name f"

definition ext0 :: "Parser \<Rightarrow> Parser \<Rightarrow> bool" where
  "ext0 p q \<longleftrightarrow> ptoks q = ptoks p \<and> pos p \<le> pos q \<and> (pok q \<longrightarrow> pok p) \<and> (oob p \<longrightarrow> oob q)
     \<and> blk_nactvar q = blk_nactvar p \<and> cur_fn q = cur_fn p
     \<and> prefix (globals p) (globals q) \<and> prefix (funcs p) (funcs q)
     \<and> length (frames q) = length (frames p)
     \<and> list_all2 outer_le (tl (frames p)) (tl (frames q))
     \<and> (frames p \<noteq> [] \<longrightarrow> cap_le (hd (frames p)) (hd (frames q)))"

lemma cap_le_refl [simp]: "cap_le f f"
  by (simp add: cap_le_def upv_le_def)

lemma upv_le_trans: "upv_le f g \<Longrightarrow> upv_le g h \<Longrightarrow> upv_le f h"
  by (fastforce simp: upv_le_def)

lemma cap_le_trans: "cap_le f g \<Longrightarrow> cap_le g h \<Longrightarrow> cap_le f h"
  by (auto simp: cap_le_def intro: upv_le_trans)

lemma outer_le_refl [simp]: "outer_le f f"
  by (simp add: outer_le_def)

lemma outer_le_trans: "outer_le f g \<Longrightarrow> outer_le g h \<Longrightarrow> outer_le f h"
  by (auto simp: outer_le_def intro: cap_le_trans)

lemma outer_le_all_refl [simp]: "list_all2 outer_le fs fs"
  by (simp add: list_all2_refl)

lemma ext0_refl [simp]: "ext0 p p"
  by (simp add: ext0_def)

lemma ext0_trans: "ext0 p q \<Longrightarrow> ext0 q r \<Longrightarrow> ext0 p r"
  unfolding ext0_def
  by (auto intro: cap_le_trans elim: list_all2_trans [of outer_le outer_le outer_le, rotated] outer_le_trans)

text \<open>The states that may follow \<open>p\<close>; \<open>q\<close> follows \<open>p\<close> when \<open>fut q \<subseteq> fut p\<close>.\<close>

definition fut :: "Parser \<Rightarrow> Parser set" where
  "fut p = {q. ext0 p q}"

lemma fut_iff: "fut q \<subseteq> fut p \<longleftrightarrow> ext0 p q"
proof
  have "q \<in> fut q" by (simp add: fut_def)
  moreover assume "fut q \<subseteq> fut p"
  ultimately have "q \<in> fut p" by blast
  then show "ext0 p q" by (simp add: fut_def)
qed (auto simp: fut_def intro: ext0_trans)

lemma fut_same:
  "ext0 p q \<Longrightarrow> fut q \<subseteq> fut p"
  by (simp add: fut_iff)

text \<open>What a tree may refer to only grows.\<close>

lemma kids_of_prefix: "prefix Fs Gs \<Longrightarrow> kids_of Fs c \<subseteq> kids_of Gs c"
  by (auto simp: kids_of_def prefix_def nth_append)

lemma env_of_mono:
  assumes "fut q \<subseteq> fut p" and "frames p \<noteq> []"
  shows "env_le (env_of p) (env_of q)"
proof -
  from assms have "ext0 p q" by (simp add: fut_iff)
  with assms(2) show ?thesis
    by (auto simp: env_le_def ext0_def cap_le_def upv_le_def slots_def prefix_length_le
        intro: kids_of_prefix [THEN subsetD])
qed

section \<open>The chain of open functions\<close>

lemma upv_ok_mono:
  assumes "upv_ok n m cs u" and "n \<le> n'" and "m \<le> m'"
    and "\<forall>i<length cs. i < MAX_LOCALS_PER_FN \<longrightarrow> cs ! i \<longrightarrow> i < length ds \<and> ds ! i"
  shows "upv_ok n' m' ds u"
  using assms by (auto simp: upv_ok_def split: if_splits)

lemma upvs_ok_mono: "upvs_ok f us \<Longrightarrow> upv_le f g \<Longrightarrow> upvs_ok g us"
  by (auto simp: upvs_ok_def upv_le_def dest: prefix_length_le elim!: upv_ok_mono)

lemma chain_ok_head:
  assumes "chain_ok Fs c (f # fs)" and "upv_le f g"
    and "fs = [] \<Longrightarrow> upvalues g = []" and "fs \<noteq> [] \<Longrightarrow> upvs_ok (hd fs) (upvalues g)"
  shows "chain_ok Fs c (g # fs)"
  using assms upvs_ok_mono [OF _ assms(2)] by (cases fs) auto

lemma chain_ok_outer:
  assumes "chain_ok Fs c (f # g # gs)" and "upv_le g h" and "chain_ok Fs (lf_parent (Fs ! the c)) (h # hs)"
  shows "chain_ok Fs c (f # h # hs)"
  using assms upvs_ok_mono [OF _ assms(2)] by (auto split: option.splits)

lemma chain_ok_same_upvalues:
  assumes "chain_ok Fs c (f # fs)" and "upv_le f g" and "upvalues g = upvalues f"
  shows "chain_ok Fs c (g # fs)"
proof (rule chain_ok_head [OF assms(1,2)])
  show "fs = [] \<Longrightarrow> upvalues g = []" using assms(1,3) by simp
  show "fs \<noteq> [] \<Longrightarrow> upvs_ok (hd fs) (upvalues g)" using assms(1,3) by (cases fs) auto
qed

lemma chain_ok_nonempty [dest]: "chain_ok Fs c fs \<Longrightarrow> fs \<noteq> []"
  by (cases fs) auto

lemma opens_length: "length gs = length fs \<Longrightarrow> opens Fs c gs = opens Fs c fs"
  by (induction fs arbitrary: gs c) (auto simp: length_Suc_conv split: option.splits)

lemma inv_frames [simp]: "inv p \<Longrightarrow> frames p \<noteq> []"
  by (auto simp: inv_def funcs_ok_def)

lemma funcs_ok_weaken: "funcs_ok d gs Fs c fs \<Longrightarrow> (e \<longrightarrow> d) \<Longrightarrow> funcs_ok e gs Fs c fs"
  by (auto simp: funcs_ok_def fun_ok_def)

lemma fun_env_mono: "prefix gs hs \<Longrightarrow> env_le (fun_env gs Fs i) (fun_env hs Fs i)"
  by (simp add: env_le_def fun_env_def)

lemma funcs_ok_globals: "funcs_ok d gs Fs c fs \<Longrightarrow> prefix gs hs \<Longrightarrow> funcs_ok d hs Fs c fs"
  by (auto simp: funcs_ok_def fun_ok_def intro: wf_block_mono fun_env_mono)

lemma funcs_ok_frames:
  "funcs_ok d gs Fs c fs \<Longrightarrow> chain_ok Fs c fs' \<Longrightarrow> length fs' = length fs \<Longrightarrow> funcs_ok d gs Fs c fs'"
  by (simp add: funcs_ok_def opens_length [of fs' fs])

lemma fr_ok_mono: "fr_ok k f \<Longrightarrow> k \<le> l \<Longrightarrow> fr_ok l f"
  by (auto simp: fr_ok_def)

section \<open>Tokens and errors\<close>

definition adv :: "Parser \<Rightarrow> Parser" where
  "adv p = p\<lparr>pos := pos p + 1\<rparr>"

lemma inv_pos: "inv p \<Longrightarrow> pos p < length (ptoks p)"
  by (simp add: inv_def)

lemma tok_at_cur [simp]: "inv p \<Longrightarrow> tok_at p (pos p) = cur p"
  by (simp add: tok_at_def cur_def inv_pos)

lemma wp_peek [simp]: "inv p \<Longrightarrow> wp Parser_State.peek Q p = Q (cur p) p"
  by (simp add: wp_def Parser_State.peek_def touch_def inv_pos)

lemma wp_advance [simp]: "inv p \<Longrightarrow> wp advance Q p = Q (cur p) (adv p)"
  by (simp add: wp_def advance_def touch_def inv_pos adv_def)

lemma wp_last_line: "inv p \<Longrightarrow> (\<And>l. Q l p) \<Longrightarrow> wp last_line Q p"
  by (auto simp: wp_def last_line_def touch_def Let_def dest: inv_pos)

lemma inv_rem: "inv p \<Longrightarrow> 0 < rem p"
  by (simp add: rem_def inv_pos)

lemma rem_adv [simp]: "inv p \<Longrightarrow> rem (adv p) = rem p - 1"
  by (simp add: rem_def adv_def)

lemma nid_adv [simp]: "inv p \<Longrightarrow> nid (adv p) = (if kind (cur p) = TOK_IDENT then Suc (nid p) else nid p)"
  by (simp add: nid_def adv_def cur_def take_Suc_conv_app_nth inv_pos)

lemma adv_same [simp]:
  "slots (adv p) = slots p" "locs (adv p) = locs p" "env_of (adv p) = env_of p" "pok (adv p) = pok p"
  "frames (adv p) = frames p" "funcs (adv p) = funcs p" "globals (adv p) = globals p" "cur_fn (adv p) = cur_fn p"
  "blk_nactvar (adv p) = blk_nactvar p" "ptoks (adv p) = ptoks p" "oob (adv p) = oob p"
  by (simp_all add: adv_def slots_def locs_def env_of_def)

lemma fut_adv [simp]: "fut (adv p) \<subseteq> fut p"
  by (simp add: fut_iff adv_def ext0_def)

lemma inv_adv [simp]:
  assumes "inv p" and "kind (cur p) \<noteq> TOK_EOF"
  shows "inv (adv p)"
proof -
  have l: "pos p < length (ptoks p)" by (rule inv_pos) fact
  have "Suc (pos p) < length (ptoks p)"
  proof (rule ccontr)
    assume "\<not> Suc (pos p) < length (ptoks p)"
    with l have "pos p = length (ptoks p) - 1" by simp
    then have "cur p = last (ptoks p)" using l by (cases "ptoks p = []") (simp_all add: cur_def last_conv_nth)
    with assms show False by (simp add: inv_def)
  qed
  with assms nid_adv [OF assms(1)] show ?thesis
    by (auto simp: inv_def adv_def intro: fr_ok_mono)
qed

definition err :: "string \<Rightarrow> Parser \<Rightarrow> Parser" where
  "err msg p = (if \<not> pok p then p else p\<lparr>perror := msg, pok := False\<rparr>)"

lemma set_error_at_err: "set_error_at l msg p = err (take 255 (''line '' @ dec_str l @ '': '' @ msg)) p"
  by (simp add: set_error_at_def err_def)

lemma set_error_err: "inv p \<Longrightarrow> \<exists>m. set_error msg p = err m p"
  by (auto simp: set_error_def set_error_at_err touch_def inv_pos)

lemma err_same [simp]:
  "slots (err m p) = slots p" "locs (err m p) = locs p" "env_of (err m p) = env_of p" "\<not> pok (err m p)"
  "frames (err m p) = frames p" "funcs (err m p) = funcs p" "globals (err m p) = globals p" "cur_fn (err m p) = cur_fn p"
  "blk_nactvar (err m p) = blk_nactvar p" "rem (err m p) = rem p" "nid (err m p) = nid p" "ptoks (err m p) = ptoks p"
  "oob (err m p) = oob p" "cur (err m p) = cur p"
  by (simp_all add: err_def slots_def locs_def env_of_def rem_def nid_def cur_def)

lemma inv_err [simp]: "inv (err m p) = inv p"
  by (simp add: inv_def err_def nid_def)

lemma fut_err [simp]: "fut (err m p) \<subseteq> fut p"
  by (simp add: fut_iff err_def ext0_def)

text \<open>The same of \<open>set_error\<close>, where the message is left open.\<close>

lemma set_error_same [simp]:
  assumes "inv p"
  shows "slots (set_error m p) = slots p" "locs (set_error m p) = locs p" "env_of (set_error m p) = env_of p"
    "\<not> pok (set_error m p)" "frames (set_error m p) = frames p" "funcs (set_error m p) = funcs p"
    "globals (set_error m p) = globals p" "cur_fn (set_error m p) = cur_fn p" "ptoks (set_error m p) = ptoks p"
    "blk_nactvar (set_error m p) = blk_nactvar p" "rem (set_error m p) = rem p" "nid (set_error m p) = nid p"
    "oob (set_error m p) = oob p" "cur (set_error m p) = cur p"
    "inv (set_error m p)" "fut (set_error m p) \<subseteq> fut p"
proof -
  obtain e where "set_error m p = err e p" using set_error_err [OF assms] by blast
  with assms show "slots (set_error m p) = slots p" "locs (set_error m p) = locs p" "env_of (set_error m p) = env_of p"
    "\<not> pok (set_error m p)" "frames (set_error m p) = frames p" "funcs (set_error m p) = funcs p"
    "globals (set_error m p) = globals p" "cur_fn (set_error m p) = cur_fn p" "ptoks (set_error m p) = ptoks p"
    "blk_nactvar (set_error m p) = blk_nactvar p" "rem (set_error m p) = rem p" "nid (set_error m p) = nid p"
    "oob (set_error m p) = oob p" "cur (set_error m p) = cur p"
    "inv (set_error m p)" "fut (set_error m p) \<subseteq> fut p" by simp_all
qed

lemma wp_match [simp]:
  "inv p \<Longrightarrow> wp (match k) Q p = (if kind (cur p) = k then Q True (adv p) else Q False p)"
  by (simp add: match_def)

text \<open>\<open>expect\<close> at most moves over a token of the kind it expects, and otherwise reports.\<close>

lemma wp_expect:
  assumes "inv p" and "k \<noteq> TOK_EOF"
    and "kind (cur p) = k \<Longrightarrow> Q True (adv p)"
    and "\<And>m. kind (cur p) \<noteq> k \<Longrightarrow> Q False (set_error m p)"
  shows "wp (expect k w) Q p"
  using assms by (simp add: expect_def)

text \<open>What most uses need of it.\<close>

lemma wp_expect':
  assumes "inv p" and "k \<noteq> TOK_EOF"
    and "\<And>b q. inv q \<Longrightarrow> fut q \<subseteq> fut p \<Longrightarrow> slots q = slots p \<Longrightarrow> locs q = locs p \<Longrightarrow> rem q \<le> rem p
      \<Longrightarrow> nid p \<le> nid q \<Longrightarrow> env_of q = env_of p \<Longrightarrow> (pok q \<Longrightarrow> pok p \<and> rem q < rem p) \<Longrightarrow> Q b q"
  shows "wp (expect k w) Q p"
proof (rule wp_expect [OF assms(1,2)])
  assume "kind (cur p) = k"
  with assms(1,2) inv_rem [OF assms(1)] show "Q True (adv p)" by (intro assms(3)) auto
next
  fix m
  from assms(1) show "Q False (set_error m p)" by (intro assms(3)) auto
qed

section \<open>Operations on the current frame\<close>

definition set_hd :: "FuncFrame \<Rightarrow> Parser \<Rightarrow> Parser" where
  "set_hd g p = p\<lparr>frames := g # tl (frames p)\<rparr>"

lemma wp_on_frame:
  "frames p \<noteq> [] \<Longrightarrow> wp (on_frame op d) Q p = (case op (hd (frames p)) of (a, f) \<Rightarrow> Q a (set_hd f p))"
  by (auto simp: wp_def on_frame_def set_hd_def split: list.split prod.split)

lemma set_hd_same [simp]:
  "locs (set_hd g p) = locals g" "slots (set_hd g p) = next_slot g" "rem (set_hd g p) = rem p" "nid (set_hd g p) = nid p"
  "pok (set_hd g p) = pok p" "cur (set_hd g p) = cur p" "blk_nactvar (set_hd g p) = blk_nactvar p"
  "funcs (set_hd g p) = funcs p" "globals (set_hd g p) = globals p" "cur_fn (set_hd g p) = cur_fn p"
  "frames (set_hd g p) = g # tl (frames p)" "oob (set_hd g p) = oob p" "ptoks (set_hd g p) = ptoks p"
  by (simp_all add: set_hd_def locs_def slots_def rem_def nid_def cur_def)

lemma set_hd_set_hd [simp]: "set_hd g (set_hd f p) = set_hd g p"
  by (simp add: set_hd_def)

lemma set_hd_id [simp]: "inv p \<Longrightarrow> set_hd (hd (frames p)) p = p"
  by (simp add: set_hd_def)

lemma inv_set_hd:
  assumes "inv p" and "upv_le (hd (frames p)) g" and "fr_ok (nid p) g" and "upvalues g = upvalues (hd (frames p))"
  shows "inv (set_hd g p)"
proof -
  obtain f fs where f: "frames p = f # fs" using inv_frames [OF assms(1)] by (cases "frames p") auto
  with assms(1) have "funcs_ok (\<not> oob p) (globals p) (funcs p) (cur_fn p) (f # fs)" by (simp add: inv_def)
  then have "funcs_ok (\<not> oob p) (globals p) (funcs p) (cur_fn p) (g # fs)"
    using f assms(2,4) by (auto simp: funcs_ok_def intro: chain_ok_same_upvalues)
  with assms f show ?thesis by (auto simp: inv_def set_hd_def nid_def)
qed

lemma fut_set_hd: "inv p \<Longrightarrow> cap_le (hd (frames p)) g \<Longrightarrow> fut (set_hd g p) \<subseteq> fut p"
  by (simp add: fut_iff ext0_def set_hd_def)

lemma inv_hd: "inv p \<Longrightarrow> fr_ok (nid p) (hd (frames p))"
  by (simp add: inv_def)

lemma inv_slots: "inv p \<Longrightarrow> slots p \<le> nid p"
  using inv_hd [of p] by (simp add: fr_ok_def slots_def)

lemma inv_locs: "inv p \<Longrightarrow> length (locs p) \<le> MAX_LOCALS_PER_FN"
  using inv_hd [of p] by (simp add: fr_ok_def locs_def)

lemma wp_local_count [simp]: "inv p \<Longrightarrow> wp local_count Q p = Q (length (locs p)) p"
  by (simp add: local_count_def wp_on_frame locs_def)

text \<open>A declaration takes the next slot.\<close>

definition decl :: "string \<Rightarrow> Parser \<Rightarrow> Parser" where
  "decl n p = set_hd (snd (frame_declare n (hd (frames p)))) p"

lemma wp_declare:
  "inv p \<Longrightarrow> wp (on_frame (frame_declare n) d) Q p =
     (if length (locs p) < MAX_LOCALS_PER_FN then Q (Some (slots p)) (decl n p) else Q None p)"
  by (auto simp: wp_on_frame decl_def frame_declare_def locs_def slots_def)

lemma decl_same:
  assumes "length (locs p) < MAX_LOCALS_PER_FN"
  shows "slots (decl n p) = Suc (slots p)"
    "locs (decl n p) = locs p @ [\<lparr>ls_name = n, ls_slot = Some (slots p), ls_attrib = 0, ls_kind = DECL_LOCAL\<rparr>]"
    "rem (decl n p) = rem p" "nid (decl n p) = nid p" "pok (decl n p) = pok p" "cur (decl n p) = cur p"
    "blk_nactvar (decl n p) = blk_nactvar p"
    "funcs (decl n p) = funcs p" "globals (decl n p) = globals p" "cur_fn (decl n p) = cur_fn p" "ptoks (decl n p) = ptoks p"
  using assms by (auto simp: decl_def frame_declare_def locs_def slots_def)

lemma inv_decl:
  assumes "inv p" and "slots p < nid p" and "length (locs p) < MAX_LOCALS_PER_FN"
  shows "inv (decl n p)"
  unfolding decl_def
proof (rule inv_set_hd [OF assms(1)])
  let ?f = "hd (frames p)"
  have f: "fr_ok (nid p) ?f" "length (locals ?f) < MAX_LOCALS_PER_FN" "next_slot ?f < nid p"
    using assms inv_hd by (auto simp: locs_def slots_def)
  show "upv_le ?f (snd (frame_declare n ?f))" by (simp add: upv_le_def frame_declare_def)
  show "fr_ok (nid p) (snd (frame_declare n ?f))" using f by (auto simp: fr_ok_def frame_declare_def less_Suc_eq)
  show "upvalues (snd (frame_declare n ?f)) = upvalues ?f" by (simp add: frame_declare_def)
qed

lemma fut_decl: "inv p \<Longrightarrow> fut (decl n p) \<subseteq> fut p"
  unfolding decl_def by (rule fut_set_hd) (auto simp: cap_le_def upv_le_def frame_declare_def)

text \<open>The attribute of the variable just declared.\<close>

definition decl_attr :: "nat \<Rightarrow> string \<Rightarrow> Parser \<Rightarrow> Parser" where
  "decl_attr a n p = set_hd (set_last_attrib a (snd (frame_declare n (hd (frames p))))) p"

lemma frames_decl [simp]: "frames (decl n p) = snd (frame_declare n (hd (frames p))) # tl (frames p)"
  by (simp add: decl_def)

lemma wp_attrib:
  assumes "inv (decl n p)"
  shows "wp (upd_frame (set_last_attrib a)) Q (decl n p) = Q () (decl_attr a n p)"
  using assms by (simp add: wp_on_frame decl_attr_def) (simp add: decl_def set_hd_def)

lemma wp_mark_const:
  assumes "inv (decl n p)" and "length (locs p) < MAX_LOCALS_PER_FN"
  shows "wp (upd_frame frame_mark_last_const) Q (decl n p) = Q () (decl_attr 1 n p)"
proof -
  have "frame_mark_last_const (snd (frame_declare n (hd (frames p)))) = set_last_attrib 1 (snd (frame_declare n (hd (frames p))))"
    using assms(2) by (simp add: frame_mark_last_const_def frame_declare_def locs_def)
  then show ?thesis using assms(1) by (simp add: wp_on_frame decl_attr_def) (simp add: decl_def set_hd_def)
qed

lemma decl_attr_same:
  assumes "length (locs p) < MAX_LOCALS_PER_FN"
  shows "slots (decl_attr a n p) = Suc (slots p)" "length (locs (decl_attr a n p)) = Suc (length (locs p))"
    "prefix (locs p) (locs (decl_attr a n p))"
    "rem (decl_attr a n p) = rem p" "nid (decl_attr a n p) = nid p" "pok (decl_attr a n p) = pok p"
    "blk_nactvar (decl_attr a n p) = blk_nactvar p"
    "funcs (decl_attr a n p) = funcs p" "globals (decl_attr a n p) = globals p" "cur_fn (decl_attr a n p) = cur_fn p"
  using assms by (auto simp: decl_attr_def set_last_attrib_def frame_declare_def locs_def slots_def)

lemma inv_decl_attr:
  assumes "inv p" and "slots p < nid p" and "length (locs p) < MAX_LOCALS_PER_FN"
  shows "inv (decl_attr a n p)"
  unfolding decl_attr_def
proof (rule inv_set_hd [OF assms(1)])
  let ?f = "hd (frames p)"
  have f: "fr_ok (nid p) ?f" "length (locals ?f) < MAX_LOCALS_PER_FN" "next_slot ?f < nid p"
    using assms inv_hd by (auto simp: locs_def slots_def)
  show "upv_le ?f (set_last_attrib a (snd (frame_declare n ?f)))"
    by (simp add: upv_le_def set_last_attrib_def frame_declare_def)
  show "fr_ok (nid p) (set_last_attrib a (snd (frame_declare n ?f)))"
    using f by (auto simp: fr_ok_def frame_declare_def set_last_attrib_def less_Suc_eq)
  show "upvalues (set_last_attrib a (snd (frame_declare n ?f))) = upvalues ?f"
    by (simp add: frame_declare_def set_last_attrib_def)
qed

lemma fut_decl_attr: "inv p \<Longrightarrow> length (locs p) < MAX_LOCALS_PER_FN \<Longrightarrow> fut (decl_attr a n p) \<subseteq> fut p"
  unfolding decl_attr_def
  by (rule fut_set_hd) (auto simp: cap_le_def upv_le_def frame_declare_def set_last_attrib_def locs_def)

text \<open>A global declaration takes no slot.\<close>

definition gdecl :: "string option \<Rightarrow> nat \<Rightarrow> Parser \<Rightarrow> Parser" where
  "gdecl n a p = set_hd (snd (frame_declare_global n a (hd (frames p)))) p"

lemma wp_declare_global:
  "inv p \<Longrightarrow> wp (on_frame (frame_declare_global n a) d) Q p =
     (if length (locs p) < MAX_LOCALS_PER_FN then Q True (gdecl n a p) else Q False p)"
  by (auto simp: wp_on_frame gdecl_def frame_declare_global_def locs_def)

lemma inv_gdecl:
  assumes "inv p" and "length (locs p) < MAX_LOCALS_PER_FN"
  shows "inv (gdecl n a p)"
  unfolding gdecl_def
proof (rule inv_set_hd [OF assms(1)])
  let ?f = "hd (frames p)"
  have f: "fr_ok (nid p) ?f" "length (locals ?f) < MAX_LOCALS_PER_FN"
    using assms inv_hd by (auto simp: locs_def slots_def)
  show "upv_le ?f (snd (frame_declare_global n a ?f))" by (simp add: upv_le_def frame_declare_global_def)
  show "fr_ok (nid p) (snd (frame_declare_global n a ?f))"
    using f by (auto simp: fr_ok_def frame_declare_global_def split: option.split)
  show "upvalues (snd (frame_declare_global n a ?f)) = upvalues ?f" by (simp add: frame_declare_global_def)
qed

lemma fut_gdecl: "inv p \<Longrightarrow> fut (gdecl n a p) \<subseteq> fut p"
  unfolding gdecl_def by (rule fut_set_hd) (auto simp: cap_le_def upv_le_def frame_declare_global_def)

lemma gdecl_same [simp]:
  "slots (gdecl n a p) = slots p" "rem (gdecl n a p) = rem p" "nid (gdecl n a p) = nid p" "pok (gdecl n a p) = pok p"
  "blk_nactvar (gdecl n a p) = blk_nactvar p" "globals (gdecl n a p) = globals p"
  by (simp_all add: gdecl_def frame_declare_global_def slots_def)

text \<open>Leaving a scope.\<close>

definition rewound :: "nat \<Rightarrow> Parser \<Rightarrow> Parser" where
  "rewound m p = snd (run_state (scope_rewind m) p)"

lemma rewound_eq:
  "inv p \<Longrightarrow> \<exists>gs. rewound m p = (set_hd (frame_rewind m (hd (frames p))) p)\<lparr>gotos := gs\<rparr>"
  using inv_frames [of p]
  by (auto simp: rewound_def scope_rewind_def on_frame_def set_hd_def modify_def State_Monad.bind_def split: list.split)

lemma wp_scope_rewind [simp]: "wp (scope_rewind m) Q p = Q () (rewound m p)"
  by (cases "run_state (scope_rewind m) p") (simp add: wp_def rewound_def)

lemma inv_gotos [simp]: "inv (p\<lparr>gotos := gs\<rparr>) = inv p"
  by (simp add: inv_def nid_def)

lemma gotos_same [simp]:
  "slots (p\<lparr>gotos := gs\<rparr>) = slots p" "locs (p\<lparr>gotos := gs\<rparr>) = locs p" "env_of (p\<lparr>gotos := gs\<rparr>) = env_of p"
  "rem (p\<lparr>gotos := gs\<rparr>) = rem p" "nid (p\<lparr>gotos := gs\<rparr>) = nid p" "cur (p\<lparr>gotos := gs\<rparr>) = cur p"
  by (simp_all add: slots_def locs_def env_of_def rem_def nid_def cur_def)

lemma fut_gotos [simp]: "fut (p\<lparr>gotos := gs\<rparr>) \<subseteq> fut p"
  by (simp add: fut_iff ext0_def)

lemma rewound_same:
  assumes "inv p"
  shows "slots (rewound m p) = slots p" "locs (rewound m p) = take m (locs p)" "env_of (rewound m p) = env_of p"
    "rem (rewound m p) = rem p" "nid (rewound m p) = nid p" "pok (rewound m p) = pok p" "inv (rewound m p)"
    "blk_nactvar (rewound m p) = blk_nactvar p"
proof -
  obtain gs where e: "rewound m p = (set_hd (frame_rewind m (hd (frames p))) p)\<lparr>gotos := gs\<rparr>"
    using rewound_eq [OF assms] by blast
  show "inv (rewound m p)" unfolding e inv_gotos
  proof (rule inv_set_hd [OF assms])
    show "fr_ok (nid p) (frame_rewind m (hd (frames p)))"
      using inv_hd [OF assms] by (auto simp: fr_ok_def frame_rewind_def dest: in_set_takeD)
  qed (simp_all add: upv_le_def frame_rewind_def)
  show "slots (rewound m p) = slots p" "locs (rewound m p) = take m (locs p)" "env_of (rewound m p) = env_of p"
    "rem (rewound m p) = rem p" "nid (rewound m p) = nid p" "pok (rewound m p) = pok p"
    "blk_nactvar (rewound m p) = blk_nactvar p"
    by (simp_all add: e) (simp_all add: frame_rewind_def slots_def locs_def env_of_def)
qed

text \<open>Back at the mark, only slots, captures and functions have been added.\<close>

lemma fut_rewound:
  assumes "inv p" and "inv q" and "fut q \<subseteq> fut p" and "m = length (locs p)"
  shows "fut (rewound m q) \<subseteq> fut p" "locs (rewound m q) = locs p"
proof -
  from assms(3) have e: "ext0 p q" by (simp add: fut_iff)
  then have pre: "prefix (locs p) (locs q)" using inv_frames [OF assms(1)] by (simp add: ext0_def cap_le_def locs_def)
  then show l: "locs (rewound m q) = locs p" using assms(2,4) by (auto simp: rewound_same prefix_def)
  obtain gs where r: "rewound m q = (set_hd (frame_rewind m (hd (frames q))) q)\<lparr>gotos := gs\<rparr>"
    using rewound_eq [OF assms(2)] by blast
  have "cap_le (hd (frames p)) (frame_rewind m (hd (frames q)))"
    using e l inv_frames [OF assms(1)] assms(2)
    by (auto simp: r ext0_def cap_le_def upv_le_def locs_def frame_rewind_def set_hd_def)
  then have "ext0 p (rewound m q)" using e inv_frames [OF assms(1)] inv_frames [OF assms(2)]
    by (auto simp: r ext0_def set_hd_def)
  then show "fut (rewound m q) \<subseteq> fut p" by (simp add: fut_iff)
qed

section \<open>Name resolution\<close>

text \<open>What resolution changes besides the frames: new globals, the error, and \<open>oob\<close> when a slot is
  past the flags.\<close>

definition names_le :: "nat \<Rightarrow> Parser \<Rightarrow> Parser \<Rightarrow> bool" where
  "names_le k p q \<longleftrightarrow>
     (\<exists>gs m ok b. q = p\<lparr>globals := gs, perror := m, pok := ok, oob := b\<rparr> \<and> prefix (globals p) gs
        \<and> (distinct (globals p) \<longrightarrow> distinct gs) \<and> (length (globals p) \<le> MAX_GLOBALS \<longrightarrow> length gs \<le> MAX_GLOBALS)
        \<and> (ok \<longrightarrow> pok p) \<and> (oob p \<longrightarrow> b) \<and> (b \<longrightarrow> oob p \<or> MAX_LOCALS_PER_FN < k))"

lemma names_leI:
  "q = p\<lparr>globals := gs, perror := m, pok := ok, oob := b\<rparr> \<Longrightarrow> prefix (globals p) gs \<Longrightarrow>
    (distinct (globals p) \<Longrightarrow> distinct gs) \<Longrightarrow> (length (globals p) \<le> MAX_GLOBALS \<Longrightarrow> length gs \<le> MAX_GLOBALS) \<Longrightarrow>
    (ok \<Longrightarrow> pok p) \<Longrightarrow> (oob p \<Longrightarrow> b) \<Longrightarrow> (b \<Longrightarrow> oob p \<or> MAX_LOCALS_PER_FN < k) \<Longrightarrow> names_le k p q"
  unfolding names_le_def by blast

lemma names_le_refl [simp]: "names_le k p p"
  by (rule names_leI [where gs = "globals p" and m = "perror p" and ok = "pok p" and b = "oob p"]) auto

lemma names_le_trans:
  assumes "names_le k p q" and "names_le k q r"
  shows "names_le k p r"
proof -
  from assms obtain gs m ok b hs m' ok' b' where
    q: "q = p\<lparr>globals := gs, perror := m, pok := ok, oob := b\<rparr>" "prefix (globals p) gs" "ok \<longrightarrow> pok p" "oob p \<longrightarrow> b"
      "b \<longrightarrow> oob p \<or> MAX_LOCALS_PER_FN < k" "distinct (globals p) \<longrightarrow> distinct gs"
      "length (globals p) \<le> MAX_GLOBALS \<longrightarrow> length gs \<le> MAX_GLOBALS"
    and r: "r = q\<lparr>globals := hs, perror := m', pok := ok', oob := b'\<rparr>" "prefix (globals q) hs" "ok' \<longrightarrow> pok q" "oob q \<longrightarrow> b'"
      "b' \<longrightarrow> oob q \<or> MAX_LOCALS_PER_FN < k" "distinct (globals q) \<longrightarrow> distinct hs"
      "length (globals q) \<le> MAX_GLOBALS \<longrightarrow> length hs \<le> MAX_GLOBALS"
    unfolding names_le_def by blast
  show ?thesis
    by (rule names_leI [where gs = hs and m = m' and ok = ok' and b = b'])
      (use q r in \<open>auto intro: prefix_order.trans\<close>)
qed

lemma names_le_err: "pos p < length (ptoks p) \<Longrightarrow> names_le k p (set_error m p) \<and> \<not> pok (set_error m p)"
proof -
  assume "pos p < length (ptoks p)"
  then obtain e where "set_error m p = err e p" by (auto simp: set_error_def set_error_at_err touch_def)
  then have e: "set_error m p = p\<lparr>globals := globals p, perror := (if pok p then e else perror p), pok := False, oob := oob p\<rparr>"
    by (simp add: err_def)
  have "names_le k p (set_error m p)" by (rule names_leI [OF e]) auto
  with e show ?thesis by simp
qed

lemma names_le_same:
  "names_le k p q \<Longrightarrow> ptoks q = ptoks p \<and> pos q = pos p \<and> frames q = frames p \<and> funcs q = funcs p \<and> cur_fn q = cur_fn p
    \<and> nofuel q = nofuel p \<and> blk_nactvar q = blk_nactvar p \<and> prefix (globals p) (globals q)"
  by (auto simp: names_le_def)

lemma index_from_Some: "index_from i gs n = Some g \<Longrightarrow> i \<le> g \<and> g < i + length gs \<and> gs ! (g - i) = n"
proof (induction i gs n rule: index_from.induct)
  case (2 i h gs n)
  show ?case
  proof (cases "h = n")
    case False
    with 2 have "i + 1 \<le> g \<and> g < i + 1 + length gs \<and> gs ! (g - (i + 1)) = n" by simp
    moreover from this have "g - i = Suc (g - (i + 1))" by linarith
    ultimately show ?thesis by simp
  qed (use 2 in simp)
qed simp

lemma index_from_None: "index_from i gs n = None \<longleftrightarrow> n \<notin> set gs"
  by (induction i gs n rule: index_from.induct) auto

lemma global_index_names:
  assumes "pos p < length (ptoks p)" and "global_index n p = (r, q)"
  shows "names_le k p q \<and> (case r of None \<Rightarrow> \<not> pok q | Some g \<Rightarrow> g < length (globals q) \<and> globals q ! g = n)"
proof (cases "globals_lookup p n")
  case (Some g)
  then have "r = Some g" "q = p" using assms by (simp_all add: global_index_def)
  with Some index_from_Some [of 0 "globals p" n g] show ?thesis by (simp add: globals_lookup_def)
next
  case None
  then have n: "n \<notin> set (globals p)" by (simp add: globals_lookup_def index_from_None)
  show ?thesis
  proof (cases "MAX_GLOBALS \<le> length (globals p)")
    case True
    with None assms names_le_err [OF assms(1), of k] show ?thesis
      by (auto simp: global_index_def globals_declare_def)
  next
    case False
    with None assms have q: "r = Some (length (globals p))" "q = p\<lparr>globals := globals p @ [n]\<rparr>"
      by (auto simp: global_index_def globals_declare_def)
    have "names_le k p q" unfolding q
      by (rule names_leI [where gs = "globals p @ [n]" and m = "perror p" and ok = "pok p" and b = "oob p"])
        (use n False in auto)
    then show ?thesis by (simp add: q)
  qed
qed

definition var_ok :: "string \<Rightarrow> string list \<Rightarrow> FuncFrame \<Rightarrow> VarKind \<Rightarrow> nat \<Rightarrow> bool" where
  "var_ok n gs f k i \<longleftrightarrow>
     (case k of
        VAR_LOCAL \<Rightarrow> i < next_slot f
      | VAR_UPVAL \<Rightarrow> i < length (upvalues f)
      | VAR_GLOBAL \<Rightarrow> i < length gs \<and> gs ! i = n
      | VAR_BUILTIN \<Rightarrow> i < builtin_count \<and> builtin_name i = Some n)"

lemma lookup_builtin_row: "lookup_builtin n = Some b \<Longrightarrow> b < builtin_count \<and> builtin_name b = Some n"
  using lookup_from_Some [of 0 BUILTINS n b]
  by (simp add: lookup_builtin_def builtin_name_def builtin_row_def builtin_count_def)

lemma resolve_global_names:
  assumes "pos p < length (ptoks p)" and "resolve_global n p = (r, q)"
  shows "names_le k p q \<and> (case r of None \<Rightarrow> \<not> pok q | Some (v, i) \<Rightarrow> (v = VAR_BUILTIN \<or> v = VAR_GLOBAL) \<and> var_ok n (globals q) f v i)"
proof (cases "lookup_builtin n")
  case (Some b)
  with assms lookup_builtin_row show ?thesis by (auto simp: resolve_global_def var_ok_def)
next
  case None
  obtain g s where g: "global_index n p = (g, s)" by fastforce
  from None assms global_index_names [OF assms(1) g, of k] g show ?thesis
    by (auto simp: resolve_global_def var_ok_def split: option.splits)
qed

lemma search_scan_Some:
  "search_scan ds n fn = (Some d, fn') \<Longrightarrow> d \<in> set ds \<and> ls_kind d \<noteq> DECL_GLOBAL_ALL \<and> ls_name d = n"
  by (induction ds n fn rule: search_scan.induct) (auto split: if_splits)

lemma frame_search_Some:
  "frame_search f n fn = (Some d, fn') \<Longrightarrow> d \<in> set (locals f) \<and> ls_kind d \<noteq> DECL_GLOBAL_ALL \<and> ls_name d = n"
  unfolding frame_search_def by (drule search_scan_Some) simp

lemma upval_find_Some: "upval_find i us r = Some u \<Longrightarrow> u < i + length us"
  by (induction i us r rule: upval_find.induct) (fastforce split: if_splits)+

text \<open>An upvalue is found or added; adding one that the enclosing frame provides keeps the chain.\<close>

lemma frame_add_upvalue_ok:
  assumes "frame_add_upvalue src i f = (r, f')" and "fr_ok k f" and "upvs_ok g (upvalues f)"
    and "upv_ok (next_slot g) (length (upvalues g)) (captured g) \<lparr>usrc = src, uidx = i\<rparr>"
  shows "fr_ok k f' \<and> outer_le f f' \<and> upvs_ok g (upvalues f') \<and> (\<forall>u. r = Some u \<longrightarrow> u < length (upvalues f'))"
  using assms upval_find_Some [of 0 "upvalues f" "\<lparr>usrc = src, uidx = i\<rparr>"]
  by (auto simp: frame_add_upvalue_def Let_def fr_ok_def outer_le_def cap_le_def upv_le_def upvs_ok_def
      split: option.splits if_splits)

lemma mark_captured_ok:
  assumes "mark_captured i g = (b, g')" and "fr_ok k g" and "i < next_slot g"
  shows "fr_ok k g' \<and> outer_le g g' \<and> upvalues g' = upvalues g \<and> (b \<or> MAX_LOCALS_PER_FN < k)
    \<and> upv_ok (next_slot g') m (captured g') \<lparr>usrc = UPVAL_FROM_LOCAL, uidx = i\<rparr>"
  using assms by (auto simp: mark_captured_def fr_ok_def outer_le_def cap_le_def upv_le_def upv_ok_def nth_list_update)

lemma outer_leD: "outer_le f g \<Longrightarrow> upv_le f g"
  by (simp add: outer_le_def cap_le_def)

lemma names_le_oob: "b \<or> MAX_LOCALS_PER_FN < k \<Longrightarrow> names_le k p (if b then p else p\<lparr>oob := True\<rparr>)"
  by (cases b) (auto intro!: names_leI [where gs = "globals p" and m = "perror p" and ok = "pok p" and b = True])

text \<open>The step of a captured variable from the enclosing frame (\<open>h\<close>) into a frame.\<close>

lemma capture_ok:
  assumes chain: "chain_ok Fs c (f # g # gs)" and above: "chain_ok Fs (lf_parent (Fs ! the c)) (h # hs)"
    and le: "outer_le g h" and frs: "fr_ok k f" "fr_ok k h"
    and var: "var_ok n gl h v i" "v = VAR_LOCAL \<or> v = VAR_UPVAL"
    and src: "src = (if v = VAR_LOCAL then UPVAL_FROM_LOCAL else UPVAL_FROM_UPVAL)"
    and mark: "(if src = UPVAL_FROM_LOCAL then mark_captured i h else (True, h)) = (b, h')"
    and add: "frame_add_upvalue src i f = (r, f')"
  shows "chain_ok Fs c (f' # h' # hs) \<and> fr_ok k f' \<and> fr_ok k h' \<and> outer_le f f' \<and> outer_le h h'
    \<and> (b \<or> MAX_LOCALS_PER_FN < k) \<and> (\<forall>u. r = Some u \<longrightarrow> u < length (upvalues f'))"
proof -
  have h': "fr_ok k h' \<and> outer_le h h' \<and> upvalues h' = upvalues h \<and> (b \<or> MAX_LOCALS_PER_FN < k)
      \<and> upv_ok (next_slot h') (length (upvalues h')) (captured h') \<lparr>usrc = src, uidx = i\<rparr>"
  proof (cases "v = VAR_LOCAL")
    case True
    with var(1) have "i < next_slot h" by (simp add: var_ok_def)
    with True src mark mark_captured_ok [of i h b h' k "length (upvalues h)"] frs(2) show ?thesis by simp
  next
    case False
    with var src mark frs(2) show ?thesis by (auto simp: var_ok_def upv_ok_def)
  qed
  have "chain_ok Fs (lf_parent (Fs ! the c)) (h' # hs)"
    by (rule chain_ok_same_upvalues [OF above]) (use h' outer_leD in auto)
  then have chain': "chain_ok Fs c (f # h' # hs)"
    using chain_ok_outer [OF chain] upv_le_trans [OF outer_leD [OF le], of h'] h' outer_leD by blast
  then have "upvs_ok h' (upvalues f)" by simp
  then have f': "fr_ok k f' \<and> outer_le f f' \<and> upvs_ok h' (upvalues f') \<and> (\<forall>u. r = Some u \<longrightarrow> u < length (upvalues f'))"
    using frame_add_upvalue_ok [OF add frs(1)] h' by blast
  have "chain_ok Fs c (f' # h' # hs)"
    by (rule chain_ok_head [OF chain']) (use f' outer_leD in auto)
  with f' h' show ?thesis by blast
qed

lemma names_le_pos: "names_le k p q \<Longrightarrow> pos p < length (ptoks p) \<Longrightarrow> pos q < length (ptoks q)"
  by (auto simp: names_le_def)

lemma names_le_fail:
  "names_le k p q \<Longrightarrow> pos p < length (ptoks p) \<Longrightarrow> names_le k p (set_error m q) \<and> \<not> pok (set_error m q)"
  by (meson names_le_err names_le_pos names_le_trans)

definition resolved :: "LuaFunc list \<Rightarrow> nat option \<Rightarrow> nat \<Rightarrow> string \<Rightarrow> FuncFrame list \<Rightarrow> Parser
    \<Rightarrow> (VarKind \<times> nat \<times> bool) option \<Rightarrow> FuncFrame list \<Rightarrow> Parser \<Rightarrow> bool" where
  "resolved Fs c k n fs p r gs q \<longleftrightarrow>
     chain_ok Fs c gs \<and> list_all2 outer_le fs gs \<and> (\<forall>f\<in>set gs. fr_ok k f) \<and> names_le k p q
     \<and> (case r of None \<Rightarrow> \<not> pok q | Some (v, i, ro) \<Rightarrow> var_ok n (globals q) (hd gs) v i)"

lemma resolved_global:
  assumes "pos p < length (ptoks p)" and "chain_ok Fs c fs" and "\<forall>f\<in>set fs. fr_ok k f"
    and "resolve_global n p = (r, q)"
  shows "resolved Fs c k n fs p (with_ro ro r) fs q"
  using resolve_global_names [OF assms(1,4), of k "hd fs"] assms(2,3)
  by (auto simp: resolved_def with_ro_def split: option.splits)

lemma resolve_in_frame_ok:
  "resolve_in_frame n fn fs p = ((r, gs), q) \<Longrightarrow> chain_ok Fs c fs \<Longrightarrow> \<forall>f\<in>set fs. fr_ok k f \<Longrightarrow>
    pos p < length (ptoks p) \<Longrightarrow> resolved Fs c k n fs p r gs q"
proof (induction fs arbitrary: fn p c r gs q)
  case (Cons f fs)
  obtain d fn' where s: "frame_search f n fn = (d, fn')" by fastforce
  show ?case
  proof (cases d)
    case (Some e)
    with s have e: "e \<in> set (locals f)" using frame_search_Some [of f n fn e fn'] by blast
    show ?thesis
    proof (cases "ls_kind e = DECL_LOCAL")
      case True
      with e Cons.prems(3) obtain i where "ls_slot e = Some i" "i < next_slot f" by (auto simp: fr_ok_def)
      with s Some True Cons.prems show ?thesis by (auto simp: resolved_def var_ok_def)
    next
      case False
      obtain x y where "resolve_global n p = (x, y)" by fastforce
      with s Some False Cons.prems resolved_global [OF Cons.prems(4,2,3) this] show ?thesis by auto
    qed
  next
    case None
    note d = None
    show ?thesis
    proof (cases "fs = []")
      case True
      obtain x y where g: "resolve_global n p = (x, y)" by fastforce
      from True d s g Cons.prems resolved_global [OF Cons.prems(4,2,3) g]
        names_le_err [OF Cons.prems(4), of k]
      show ?thesis by (auto simp: Let_def resolved_def split: if_splits)
    next
      case False
      then obtain g gs' where fs: "fs = g # gs'" by (cases fs) auto
      with Cons.prems(2) have up: "chain_ok Fs (lf_parent (Fs ! the c)) fs" by (auto split: option.splits)
      obtain r1 fs1 p1 where rec: "resolve_in_frame n fn' fs p = ((r1, fs1), p1)" by (metis prod.exhaust)
      have IH: "resolved Fs (lf_parent (Fs ! the c)) k n fs p r1 fs1 p1"
        by (rule Cons.IH [OF rec up]) (use Cons.prems in auto)
      then obtain h hs where h: "fs1 = h # hs" "outer_le g h" "list_all2 outer_le gs' hs"
        by (auto simp: resolved_def fs list_all2_Cons1)
      note IH' = IH [unfolded resolved_def h(1)]
      have chain: "chain_ok Fs c (f # h # hs)"
        by (rule chain_ok_outer [OF Cons.prems(2) [unfolded fs] outer_leD [OF h(2)]]) (use IH' in simp)
      have pos1: "pos p1 < length (ptoks p1)" using IH' Cons.prems(4) names_le_pos by blast
      show ?thesis
      proof (cases r1)
        case None
        then show ?thesis using rec d s fs False Cons.prems IH' h chain by (auto simp: resolved_def)
      next
        case (Some t)
        obtain v i ro where t: "t = (v, i, ro)" by (cases t) auto
        show ?thesis
        proof (cases "v = VAR_BUILTIN \<or> v = VAR_GLOBAL")
          case True
          then have "var_ok n (globals p1) f v i" using IH' Some t by (auto simp: var_ok_def)
          then show ?thesis using rec d s fs False Cons.prems IH' h chain True Some t by (auto simp: resolved_def)
        next
          case v: False
          let ?src = "if v = VAR_LOCAL then UPVAL_FROM_LOCAL else UPVAL_FROM_UPVAL"
          obtain b h' where m: "(if ?src = UPVAL_FROM_LOCAL then mark_captured i (hd fs1) else (True, hd fs1)) = (b, h')" by fastforce
          obtain u f' where a: "frame_add_upvalue ?src i f = (u, f')" by fastforce
          have v2: "v = VAR_LOCAL \<or> v = VAR_UPVAL" using v by (cases v) auto
          have C: "chain_ok Fs c (f' # h' # hs) \<and> fr_ok k f' \<and> fr_ok k h' \<and> outer_le f f' \<and> outer_le h h'
              \<and> (b \<or> MAX_LOCALS_PER_FN < k) \<and> (\<forall>w. u = Some w \<longrightarrow> w < length (upvalues f'))"
            by (rule capture_ok [OF Cons.prems(2) [unfolded fs] _ h(2) _ _ _ v2 refl m [unfolded h(1) list.sel(1)] a, where n = n and gl = "globals p1"])
              (use IH' Some t Cons.prems(3) in auto)
          let ?p2 = "if b then p1 else p1\<lparr>oob := True\<rparr>"
          have p2: "names_le k p ?p2" using C IH' names_le_trans [OF _ names_le_oob] by blast
          have res: "((r, gs), q) = (case (u, f') of (None, f) \<Rightarrow> ((None, f # h' # tl fs1), set_error ''too many upvalues'' ?p2)
              | (Some u, f) \<Rightarrow> ((Some (VAR_UPVAL, u, ro), f # h' # tl fs1), ?p2))"
            using Cons.prems(1) rec d s False Some t v m a by (simp add: Let_def)
          have le: "list_all2 outer_le (f # fs) (f' # h' # hs)" using C h fs outer_le_trans by auto
          have fr: "\<forall>x\<in>set (f' # h' # hs). fr_ok k x" using C IH' by auto
          show ?thesis
          proof (cases u)
            case None
            with res h(1) have "r = None" "gs = f' # h' # hs" "q = set_error ''too many upvalues'' ?p2" by auto
            with C le fr names_le_fail [OF p2 Cons.prems(4)] show ?thesis by (simp add: resolved_def)
          next
            case (Some w)
            with res h(1) have "r = Some (VAR_UPVAL, w, ro)" "gs = f' # h' # hs" "q = ?p2" by auto
            with C le fr p2 Some show ?thesis by (simp add: resolved_def var_ok_def)
          qed
        qed
      qed
    qed
  qed
qed (simp add: resolved_def)

section \<open>Steps\<close>

text \<open>A step of a statement, and a step of an expression, which declares nothing.\<close>

definition sst :: "Parser \<Rightarrow> Parser \<Rightarrow> bool" where
  "sst p q \<longleftrightarrow> inv q \<and> fut q \<subseteq> fut p \<and> rem q \<le> rem p \<and> nid p \<le> nid q"

definition est :: "Parser \<Rightarrow> Parser \<Rightarrow> bool" where
  "est p q \<longleftrightarrow> sst p q \<and> slots q = slots p \<and> locs q = locs p"

lemma sst_refl [simp]: "inv p \<Longrightarrow> sst p p"
  by (simp add: sst_def)

lemma sst_trans: "sst p q \<Longrightarrow> sst q r \<Longrightarrow> sst p r"
  by (auto simp: sst_def)

lemma est_refl [simp]: "inv p \<Longrightarrow> est p p"
  by (simp add: est_def)

lemma est_trans: "est p q \<Longrightarrow> est q r \<Longrightarrow> est p r"
  by (auto simp: est_def intro: sst_trans)

lemma inv_names:
  assumes "inv p" and "names_le (nid p) p q" and "chain_ok (funcs p) (cur_fn p) gs"
    and "list_all2 outer_le (frames p) gs" and "\<forall>f\<in>set gs. fr_ok (nid p) f"
  shows "est p (q\<lparr>frames := gs\<rparr>) \<and> rem (q\<lparr>frames := gs\<rparr>) = rem p \<and> cur (q\<lparr>frames := gs\<rparr>) = cur p"
proof -
  obtain hs m ok b where q: "q = p\<lparr>globals := hs, perror := m, pok := ok, oob := b\<rparr>" "prefix (globals p) hs"
    "distinct (globals p) \<longrightarrow> distinct hs" "length (globals p) \<le> MAX_GLOBALS \<longrightarrow> length hs \<le> MAX_GLOBALS"
    "ok \<longrightarrow> pok p" "oob p \<longrightarrow> b" "b \<longrightarrow> oob p \<or> MAX_LOCALS_PER_FN < nid p"
    using assms(2) unfolding names_le_def by blast
  have l: "length gs = length (frames p)" using assms(4) by (simp add: list_all2_lengthD)
  have ne: "frames p \<noteq> []" "gs \<noteq> []" using assms(1) l inv_frames [OF assms(1)] by auto
  have hd: "outer_le (hd (frames p)) (hd gs)" "list_all2 outer_le (tl (frames p)) (tl gs)"
    using assms(4) ne by (cases "frames p"; cases gs; simp)+
  have "funcs_ok (\<not> oob p) (globals p) (funcs p) (cur_fn p) (frames p)" using assms(1) by (simp add: inv_def)
  then have "funcs_ok (\<not> b) (globals p) (funcs p) (cur_fn p) (frames p)" by (rule funcs_ok_weaken) (use q(6) in blast)
  then have "funcs_ok (\<not> b) hs (funcs p) (cur_fn p) (frames p)" by (rule funcs_ok_globals) (rule q(2))
  then have "funcs_ok (\<not> b) hs (funcs p) (cur_fn p) gs" by (rule funcs_ok_frames) (use assms(3) l in auto)
  then have "inv (q\<lparr>frames := gs\<rparr>)" using assms(1,5) q l by (auto simp: inv_def nid_def)
  moreover have "ext0 p (q\<lparr>frames := gs\<rparr>)" using q l hd ne by (auto simp: ext0_def outer_le_def)
  ultimately show ?thesis using hd q by (auto simp: est_def sst_def fut_iff rem_def nid_def slots_def locs_def cur_def outer_le_def)
qed

lemma wp_resolve_name:
  assumes "inv p"
    and "\<And>r q. est p q \<Longrightarrow> rem q = rem p \<Longrightarrow> cur q = cur p \<Longrightarrow>
      (case r of None \<Rightarrow> \<not> pok q | Some (k, i, ro) \<Rightarrow> idx_ok (env_of q) k i \<and> name_ok (env_of q) n k i) \<Longrightarrow> Q r q"
  shows "wp (resolve_name n) Q p"
proof -
  obtain r gs q where r: "resolve_in_frame n \<lparr>collective = ALL_NONE, voided = False\<rparr> (frames p) p = ((r, gs), q)"
    by (metis prod.exhaust)
  have R: "resolved (funcs p) (cur_fn p) (nid p) n (frames p) p r gs q"
    by (rule resolve_in_frame_ok [OF r]) (use assms(1) in \<open>auto simp: inv_def funcs_ok_def\<close>)
  have I: "est p (q\<lparr>frames := gs\<rparr>) \<and> rem (q\<lparr>frames := gs\<rparr>) = rem p \<and> cur (q\<lparr>frames := gs\<rparr>) = cur p"
    by (rule inv_names [OF assms(1)]) (use R in \<open>auto simp: resolved_def\<close>)
  have "case r of None \<Rightarrow> \<not> pok (q\<lparr>frames := gs\<rparr>)
      | Some (k, i, ro) \<Rightarrow> idx_ok (env_of (q\<lparr>frames := gs\<rparr>)) k i \<and> name_ok (env_of (q\<lparr>frames := gs\<rparr>)) n k i"
  proof (cases r)
    case (Some t)
    obtain k i ro where t: "t = (k, i, ro)" by (cases t) auto
    from R Some t have "var_ok n (globals q) (hd gs) k i" by (simp add: resolved_def)
    with Some t show ?thesis by (cases k) (auto simp: var_ok_def slots_def)
  qed (use R in \<open>simp add: resolved_def\<close>)
  with I have "Q r (q\<lparr>frames := gs\<rparr>)" by (intro assms(2)) auto
  with r show ?thesis by (simp add: wp_def resolve_name_def)
qed

lemma wp_global_idx:
  assumes "inv p"
    and "\<And>r q. est p q \<Longrightarrow> rem q = rem p \<Longrightarrow>
      (case r of None \<Rightarrow> \<not> pok q | Some g \<Rightarrow> g < length (globals q) \<and> globals q ! g = n) \<Longrightarrow> Q r q"
  shows "wp (global_idx n) Q p"
proof -
  obtain r q where g: "global_index n p = (r, q)" by fastforce
  note G = global_index_names [OF inv_pos [OF assms(1)] g, of "nid p"]
  then have fr: "frames q = frames p" using names_le_same by blast
  have "est p (q\<lparr>frames := frames p\<rparr>) \<and> rem (q\<lparr>frames := frames p\<rparr>) = rem p \<and> cur (q\<lparr>frames := frames p\<rparr>) = cur p"
    by (rule inv_names [OF assms(1)]) (use G assms(1) in \<open>auto simp: inv_def funcs_ok_def list_all2_refl\<close>)
  then have "est p q" "rem q = rem p" using fr by (metis Parser.surjective Parser.update_convs(3))+
  with G have "Q r q" by (intro assms(2)) auto
  with g show ?thesis by (simp add: wp_def global_idx_def)
qed

section \<open>Opening and closing functions\<close>

definition entered :: "nat \<Rightarrow> Parser \<Rightarrow> Parser" where
  "entered line p = p\<lparr>funcs := funcs p @ [(func_new line)\<lparr>lf_parent := cur_fn p\<rparr>],
     cur_fn := Some (length (funcs p)), frames := frame_init # frames p\<rparr>"

definition left :: "Parser \<Rightarrow> nat \<Rightarrow> nat \<Rightarrow> Block \<Rightarrow> Parser \<Rightarrow> Parser" where
  "left p i n body q =
     (let r = finish_function i n body q in r\<lparr>frames := tl (frames r), cur_fn := cur_fn p\<rparr>)"

lemma kids_of_append:
  "kids_of (Fs @ [r]) c = (if lf_parent r = c then insert (length Fs) (kids_of Fs c) else kids_of Fs c)"
  by (auto simp: kids_of_def nth_append less_Suc_eq)

lemma lf_parent_update:
  assumes "lf_parent r = lf_parent (Fs ! i)"
  shows "lf_parent (Fs[i := r] ! k) = lf_parent (Fs ! k)"
proof (cases "i < length Fs \<and> k = i")
  case False
  then show ?thesis by (cases "i < length Fs") (auto simp: list_update_beyond)
qed (use assms in auto)

lemma kids_of_update:
  "lf_parent r = lf_parent (Fs ! i) \<Longrightarrow> kids_of (Fs[i := r]) c = kids_of Fs c"
  by (auto simp: kids_of_def lf_parent_update)

lemma kids_of_less: "i \<in> kids_of Fs c \<Longrightarrow> i < length Fs"
  by (simp add: kids_of_def)

lemma chain_ok_append:
  "chain_ok Fs c fs \<Longrightarrow> lf_upvalues r = [] \<Longrightarrow> chain_ok (Fs @ [r]) c fs \<and> opens (Fs @ [r]) c fs = opens Fs c fs"
proof (induction Fs c fs rule: chain_ok.induct)
  case (2 Fs c f)
  then show ?case by (auto simp: kids_of_append nth_append upvs_ok_def dest: kids_of_less)
next
  case (3 Fs c f g fs)
  then obtain i where i: "c = Some i" "i < length Fs" by (cases c) auto
  with 3 show ?case by (auto simp: kids_of_append nth_append upvs_ok_def dest: kids_of_less)
qed simp

definition depth :: "nat option \<Rightarrow> nat" where
  "depth c = (case c of None \<Rightarrow> 0 | Some i \<Rightarrow> Suc i)"

lemma chain_ok_update:
  "chain_ok Fs c fs \<Longrightarrow> \<forall>j<length Fs. depth (lf_parent (Fs ! j)) \<le> j \<Longrightarrow> lf_parent r = lf_parent (Fs ! i) \<Longrightarrow>
    depth c \<le> depth (lf_parent r) \<Longrightarrow> (lf_parent r = c \<Longrightarrow> upvs_ok (hd fs) (lf_upvalues r)) \<Longrightarrow> i < length Fs \<Longrightarrow>
    chain_ok (Fs[i := r]) c fs"
proof (induction Fs c fs rule: chain_ok.induct)
  case (2 Fs c f)
  then show ?case by (auto simp: kids_of_update kids_of_def nth_list_update)
next
  case (3 Fs c f g fs)
  then obtain k where k: "c = Some k" "k < length Fs" by (cases c) auto
  have par: "lf_parent (Fs[i := r] ! k) = lf_parent (Fs ! k)" using 3(4) by (rule lf_parent_update)
  have lt: "depth (lf_parent (Fs ! k)) < depth c" using 3(3) k by (auto simp: depth_def)
  have "chain_ok (Fs[i := r]) (lf_parent (Fs ! k)) (g # fs)"
    by (rule 3(1) [OF k(1)]) (use 3 k lt in auto)
  moreover have "\<forall>j\<in>kids_of Fs c. upvs_ok f (lf_upvalues (Fs[i := r] ! j))"
    using 3(2,4,6,7) by (auto simp: kids_of_def nth_list_update)
  ultimately show ?case using 3(2,4) k par by (simp add: kids_of_update)
qed simp

lemma opens_update: "lf_parent r = lf_parent (Fs ! i) \<Longrightarrow> opens (Fs[i := r]) c fs = opens Fs c fs"
proof (induction fs arbitrary: c)
  case (Cons f fs)
  then show ?case by (auto simp: lf_parent_update split: option.splits)
qed simp

lemma fr_ok_init [simp]: "fr_ok k frame_init"
  by (simp add: fr_ok_def frame_init_def max_defs)

lemma fun_ok_new: "(case c of None \<Rightarrow> True | Some k \<Rightarrow> k < length Fs) \<Longrightarrow>
    fun_ok d gs (Fs @ [(func_new line)\<lparr>lf_parent := c\<rparr>]) (length Fs)"
  by (simp add: fun_ok_def func_new_def)

lemma fun_env_append: "j < length Fs \<Longrightarrow> env_le (fun_env gs Fs j) (fun_env gs (Fs @ [r]) j)"
  by (auto simp: env_le_def fun_env_def nth_append kids_of_append)

lemma funcs_ok_append:
  assumes ok: "funcs_ok d gs Fs c fs" and room: "length Fs < MAX_FUNCS"
    and c: "case c of None \<Rightarrow> True | Some k \<Rightarrow> k < length Fs"
  shows "funcs_ok d gs (Fs @ [(func_new line)\<lparr>lf_parent := c\<rparr>]) c fs"
proof -
  let ?r = "(func_new line)\<lparr>lf_parent := c\<rparr>"
  have r: "lf_upvalues ?r = []" by (simp add: func_new_def)
  have F: "fun_ok d gs (Fs @ [?r]) i" if "i < length (Fs @ [?r])" for i
  proof (cases "i < length Fs")
    case True
    then have "fun_ok d gs Fs i" using ok by (simp add: funcs_ok_def)
    with True show ?thesis
      by (auto simp: fun_ok_def nth_append intro: wf_block_mono [OF _ fun_env_append])
  next
    case False
    with that have "i = length Fs" by simp
    with c show ?thesis by (simp add: fun_ok_new)
  qed
  have I: "i \<in> opens (Fs @ [?r]) c fs \<or> inner_ok (Fs @ [?r]) i" if "i < length (Fs @ [?r])" for i
  proof (cases "i < length Fs")
    case True
    then have "i \<in> opens Fs c fs \<or> inner_ok Fs i" using ok by (simp add: funcs_ok_def)
    moreover have "inner_ok Fs i \<Longrightarrow> inner_ok (Fs @ [?r]) i"
      using True r by (auto simp: inner_ok_def kids_of_append nth_append dest: kids_of_less split: if_splits)
    ultimately show ?thesis using chain_ok_append [of Fs c fs ?r] ok r by (auto simp: funcs_ok_def)
  next
    case False
    with that have "i = length Fs" by simp
    moreover have "kids_of (Fs @ [?r]) (Some (length Fs)) = {}"
    proof -
      have "j \<notin> kids_of Fs (Some (length Fs))" for j
        using ok by (auto simp: kids_of_def funcs_ok_def fun_ok_def split: option.splits)
      then show ?thesis using c by (auto simp: kids_of_append)
    qed
    ultimately show ?thesis by (simp add: inner_ok_def)
  qed
  show ?thesis using ok room F I chain_ok_append [OF _ r, of Fs c fs] by (simp add: funcs_ok_def)
qed

lemma chain_ok_cur: "chain_ok Fs c fs \<Longrightarrow> case c of None \<Rightarrow> True | Some k \<Rightarrow> k < length Fs"
  by (induction Fs c fs rule: chain_ok.induct) (auto split: option.splits)

lemma upvs_ok_Nil [simp]: "upvs_ok f []"
  by (simp add: upvs_ok_def)

lemma inv_entered:
  assumes "inv p" and "length (funcs p) < MAX_FUNCS" and "length (frames p) < MAX_FRAME_DEPTH"
  shows "inv (entered line p)"
proof -
  let ?r = "(func_new line)\<lparr>lf_parent := cur_fn p\<rparr>" and ?i = "length (funcs p)"
  let ?Fs = "funcs p @ [?r]"
  have ok: "funcs_ok (\<not> oob p) (globals p) (funcs p) (cur_fn p) (frames p)" using assms(1) by (simp add: inv_def)
  have c: "case cur_fn p of None \<Rightarrow> True | Some k \<Rightarrow> k < ?i"
    using ok chain_ok_cur by (auto simp: funcs_ok_def)
  note ok' = funcs_ok_append [OF ok assms(2) c, of line]
  have nokids: "kids_of ?Fs (Some ?i) = {}"
  proof -
    have "j \<notin> kids_of (funcs p) (Some ?i)" for j
      using ok by (auto simp: kids_of_def funcs_ok_def fun_ok_def split: option.splits)
    then show ?thesis using c by (auto simp: kids_of_append)
  qed
  have "chain_ok ?Fs (Some ?i) (frame_init # frames p)"
    using ok' nokids inv_frames [OF assms(1)]
    by (cases "frames p") (auto simp: funcs_ok_def frame_init_def)
  then have "funcs_ok (\<not> oob p) (globals p) ?Fs (Some ?i) (frame_init # frames p)"
    using ok' by (auto simp: funcs_ok_def)
  with assms show ?thesis by (auto simp: inv_def entered_def nid_def)
qed

lemma entered_same [simp]:
  "slots (entered line p) = 0" "locs (entered line p) = []" "rem (entered line p) = rem p" "nid (entered line p) = nid p"
  "pok (entered line p) = pok p" "cur (entered line p) = cur p" "oob (entered line p) = oob p"
  by (simp_all add: entered_def slots_def locs_def rem_def nid_def cur_def frame_init_def)

lemma wp_enter_function:
  assumes "inv p" and fail: "\<And>q. est p q \<Longrightarrow> \<not> pok q \<Longrightarrow> Q None q"
    and ok: "length (funcs p) < MAX_FUNCS \<Longrightarrow> length (frames p) < MAX_FRAME_DEPTH \<Longrightarrow>
      Q (Some (length (funcs p))) (entered line p)"
  shows "wp (enter_function line) Q p"
proof (cases "length (funcs p) < MAX_FUNCS")
  case False
  have "est p (set_error ''too many functions'' p)" using assms(1) by (simp add: est_def sst_def)
  with False assms(1) show ?thesis by (simp add: enter_function_def fail)
next
  case True
  let ?q = "p\<lparr>funcs := funcs p @ [(func_new line)\<lparr>lf_parent := cur_fn p\<rparr>]\<rparr>"
  have ok': "funcs_ok (\<not> oob p) (globals p) (funcs p) (cur_fn p) (frames p)" using assms(1) by (simp add: inv_def)
  then have c: "case cur_fn p of None \<Rightarrow> True | Some k \<Rightarrow> k < length (funcs p)"
    using chain_ok_cur by (auto simp: funcs_ok_def)
  have q: "inv ?q" using assms(1) funcs_ok_append [OF ok' True c, of line] by (simp add: inv_def nid_def)
  have "est p (set_error m ?q)" for m
    using set_error_same [OF q, of m] unfolding est_def sst_def fut_iff
    by (auto simp: ext0_def slots_def locs_def rem_def nid_def set_error_def set_error_at_def touch_def)
  moreover have "\<not> pok (set_error m ?q)" for m using set_error_same [OF q, of m] by simp
  ultimately show ?thesis using True fail ok by (simp add: enter_function_def entered_def)
qed

lemma funcs_ok_parent: "funcs_ok d gs Fs c fs \<Longrightarrow> j < length Fs \<Longrightarrow> depth (lf_parent (Fs ! j)) \<le> j"
  by (auto simp: funcs_ok_def fun_ok_def depth_def split: option.splits)

lemma upv_ok_take:
  assumes "upv_ok n m cs u" shows "upv_ok n m (take n cs) u"
  using assms by (auto simp: upv_ok_def split: if_splits)

text \<open>The record of a function takes over from its frame.\<close>

lemma funcs_ok_close:
  assumes ok: "funcs_ok d gs Fs (Some i) (f # g # fs)" and i: "i < length Fs" and par: "lf_parent (Fs ! i) = c"
    and n: "n \<le> next_slot f" and f: "fr_ok k f"
    and body: "wf_block \<lparr>e_slots = next_slot f, e_upvals = length (upvalues f), e_globals = gs, e_kids = kids_of Fs (Some i)\<rparr> body"
    and e: "e \<longrightarrow> d \<and> next_slot f \<le> length (captured f)"
    and r: "r = (Fs ! i)\<lparr>lf_n_params := n, lf_n_locals := next_slot f, lf_body := body, lf_is_vararg := v,
        lf_upvalues := upvalues f, lf_captured := take (next_slot f) (captured f)\<rparr>"
  shows "funcs_ok e gs (Fs[i := r]) c (g # fs)"
proof -
  have rp: "lf_parent r = lf_parent (Fs ! i)" by (simp add: r)
  note ku = kids_of_update [OF rp] and lu = lf_parent_update [OF rp]
  have ch: "chain_ok Fs (Some i) (f # g # fs)" using ok by (simp add: funcs_ok_def)
  have "chain_ok (Fs[i := r]) c (g # fs)"
    by (rule chain_ok_update) (use ch par i r rp funcs_ok_parent [OF ok] in auto)
  moreover have "fun_ok e gs (Fs[i := r]) j" if "j < length (Fs[i := r])" for j
  proof -
    have jok: "fun_ok d gs Fs j" using ok that by (simp add: funcs_ok_def)
    show ?thesis
    proof (cases "j = i")
      case True
      with jok f n body e i show ?thesis by (auto simp: fun_ok_def fun_env_def r ku [unfolded r] fr_ok_def)
    next
      case False
      then have "fun_env gs (Fs[i := r]) j = fun_env gs Fs j" by (simp add: fun_env_def ku)
      with jok False e show ?thesis by (auto simp: fun_ok_def)
    qed
  qed
  moreover have "j \<in> opens (Fs[i := r]) c (g # fs) \<or> inner_ok (Fs[i := r]) j" if "j < length (Fs[i := r])" for j
  proof (cases "j = i")
    case True
    have up: "upvs_ok f (lf_upvalues (Fs ! k))" if "k \<in> kids_of Fs (Some i)" for k using ch that by simp
    have old: "Fs[i := r] ! k = Fs ! k" if "k \<in> kids_of Fs (Some i)" for k
      using that funcs_ok_parent [OF ok, of k] by (auto simp: kids_of_def depth_def)
    have new: "Fs[i := r] ! i = r" using i by simp
    have "inner_ok (Fs[i := r]) i"
      unfolding inner_ok_def ku new using up by (simp add: old) (simp add: r upvs_ok_def upv_ok_take)
    with True show ?thesis by blast
  next
    case False
    show ?thesis
    proof (cases "Some j = c")
      case True
      then show ?thesis by auto
    next
      case nc: False
      have "j \<in> opens Fs (Some i) (f # g # fs) \<or> inner_ok Fs j" using ok that by (simp add: funcs_ok_def)
      then have "j \<in> opens Fs c (g # fs) \<or> inner_ok Fs j" using False par by simp
      moreover have "Fs[i := r] ! k = Fs ! k" if "k \<in> kids_of Fs (Some j)" for k
        using that nc par by (cases "k = i") (auto simp: kids_of_def)
      then have "inner_ok Fs j \<Longrightarrow> inner_ok (Fs[i := r]) j"
        unfolding inner_ok_def ku using False by simp
      ultimately show ?thesis by (auto simp: opens_update [OF rp] simp del: opens.simps)
    qed
  qed
  ultimately show ?thesis using ok by (simp add: funcs_ok_def)
qed

lemma left_ok:
  assumes p: "inv p" and q: "inv q" and le: "fut q \<subseteq> fut (entered line p)" and i: "i = length (funcs p)"
    and n: "n \<le> slots q" and body: "wf_block (env_of q) body" and "rem q \<le> rem p" and "nid p \<le> nid q"
  shows "est p (left p i n body q)" and "i \<in> kids_of (funcs (left p i n body q)) (cur_fn (left p i n body q))"
    and "pok (left p i n body q) = pok q" and "rem (left p i n body q) = rem q"
proof -
  let ?new = "(func_new line)\<lparr>lf_parent := cur_fn p\<rparr>" and ?l = "left p i n body q"
  have e: "ext0 (entered line p) q" using le by (simp add: fut_iff)
  then have pre: "prefix (funcs p @ [?new]) (funcs q)" and cq: "cur_fn q = Some i"
    and gq: "prefix (globals p) (globals q)" and fr: "list_all2 outer_le (frames p) (tl (frames q))"
    and oobq: "oob p \<longrightarrow> oob q" "pok q \<longrightarrow> pok p" "blk_nactvar q = blk_nactvar p" "ptoks q = ptoks p" "pos p \<le> pos q"
    by (auto simp: ext0_def entered_def i)
  have iq: "i < length (funcs q)" "funcs q ! i = ?new" using pre i by (auto simp: prefix_def nth_append)
  obtain f fs where f: "frames q = f # fs" using inv_frames [OF q] by (cases "frames q") auto
  obtain h hs where h: "frames p = h # hs" using inv_frames [OF p] by (cases "frames p") auto
  obtain g gs where g: "fs = g # gs" "outer_le h g" "list_all2 outer_le hs gs" using fr f h by (auto simp: list_all2_Cons1)
  let ?r = "(funcs q ! i)\<lparr>lf_n_params := n, lf_n_locals := next_slot f, lf_body := body, lf_is_vararg := is_vararg f,
      lf_upvalues := upvalues f, lf_captured := take (next_slot f) (captured f)\<rparr>"
  let ?o = "oob q \<or> next_slot f > length (captured f)"
  have l: "?l = q\<lparr>funcs := (funcs q)[i := ?r], oob := ?o, frames := fs, cur_fn := cur_fn p\<rparr>"
    using f by (simp add: left_def finish_function_def Let_def)
  have okq: "funcs_ok (\<not> oob q) (globals q) (funcs q) (Some i) (f # g # gs)" using q f g cq by (simp add: inv_def)
  have frf: "fr_ok (nid q) f" using q f by (simp add: inv_def)
  have "funcs_ok (\<not> ?o) (globals q) ((funcs q)[i := ?r]) (cur_fn p) (g # gs)"
    by (rule funcs_ok_close [OF okq iq(1) _ _ frf _ _ refl])
      (use iq n body f cq in \<open>auto simp: slots_def env_of_def\<close>)
  moreover have "?o \<longrightarrow> MAX_LOCALS_PER_FN < nid q" using q frf by (auto simp: inv_def fr_ok_def)
  ultimately have il: "inv ?l" using q f g by (auto simp: l inv_def nid_def)
  have "prefix (funcs p) ((funcs q)[i := ?r])" using pre i by (auto simp: prefix_def list_update_append)
  then have "ext0 p ?l" using g h gq oobq f list_all2_lengthD [OF g(3)] by (auto simp: l ext0_def outer_le_def)
  moreover have "slots ?l = slots p" "locs ?l = locs p" using g h by (auto simp: l slots_def locs_def outer_le_def)
  ultimately show "est p ?l" using il assms(7,8) by (auto simp: est_def sst_def fut_iff l rem_def nid_def)
  show "i \<in> kids_of (funcs ?l) (cur_fn ?l)" using iq by (simp add: l kids_of_def)
  show "pok ?l = pok q" "rem ?l = rem q" by (simp_all add: l rem_def)
qed

end
