(* ===== verification/Parser_Wf.thy ===== *)
theory Parser_Wf
  imports Parser_Inv
begin

text \<open>
  The functions of the parser keep the invariant: each one, run from a state that satisfies \<open>inv\<close>, ends in such a
  state, moves on by \<open>ext\<close>, consumes tokens, and returns a well-scoped tree or reports an error. The rules for the
  primitives have the form \<open>(\<And>r q. \<dots> \<Longrightarrow> Q r q) \<Longrightarrow> wp m Q p\<close>, so that the proofs are one
  pass of \<open>auto\<close> over the body. What is known of a tree is stated for all later states, since trees stay
  well-scoped. The bound on nested calls is the number of tokens left.
\<close>

declare wp_advance [simp del] wp_match [simp del] wp_fail [simp del] wp_error [simp del] wp_modify [simp del]
  set_error_same [simp del] table_loop.simps [simp del] expr_list.simps [simp del] chain_loop.simps [simp del]
  prec_loop.simps [simp del] local_names.simps [simp del] if_arms.simps [simp del] more_targets.simps [simp del]
  for_names.simps [simp del] global_names.simps [simp del] dotted_path.simps [simp del] block_loop.simps [simp del]
  param_loop.simps [simp del] wp_local_count [simp del] wp_scope_rewind [simp del]

section \<open>Results\<close>

abbreviation we :: "Parser \<Rightarrow> Expr \<Rightarrow> bool" where "we p e \<equiv> wf_expr (env_of p) e"
abbreviation wes :: "Parser \<Rightarrow> Expr list \<Rightarrow> bool" where "wes p es \<equiv> \<forall>e\<in>set es. wf_expr (env_of p) e"

text \<open>An expression-like step with a result that, if there is one, is good and took \<open>d\<close> tokens.\<close>

definition eres :: "nat \<Rightarrow> (Parser \<Rightarrow> 'a \<Rightarrow> bool) \<Rightarrow> Parser \<Rightarrow> 'a option \<Rightarrow> Parser \<Rightarrow> bool" where
  "eres d W p r q \<longleftrightarrow> est p q
     \<and> (case r of None \<Rightarrow> \<not> pok q | Some x \<Rightarrow> rem q + d \<le> rem p \<and> (\<forall>s. fut s \<subseteq> fut q \<longrightarrow> W s x))"

text \<open>The same of a statement step.\<close>

definition sres :: "nat \<Rightarrow> (Parser \<Rightarrow> 'a \<Rightarrow> bool) \<Rightarrow> Parser \<Rightarrow> 'a option \<Rightarrow> Parser \<Rightarrow> bool" where
  "sres d W p r q \<longleftrightarrow> sst p q
     \<and> (case r of None \<Rightarrow> \<not> pok q | Some x \<Rightarrow> rem q + d \<le> rem p \<and> (\<forall>s. fut s \<subseteq> fut q \<longrightarrow> W s x))"

text \<open>A statement: no tree, or a good one.\<close>

definition stres :: "Parser \<Rightarrow> Stmt option \<Rightarrow> Parser \<Rightarrow> bool" where
  "stres p r q \<longleftrightarrow> sst p q \<and> (pok q \<longrightarrow> rem q < rem p)
     \<and> (\<forall>x s. r = Some x \<longrightarrow> fut s \<subseteq> fut q \<longrightarrow> wf_stmt (env_of s) x)"

definition bres :: "Parser \<Rightarrow> Block \<Rightarrow> Parser \<Rightarrow> bool" where
  "bres p b q \<longleftrightarrow> sst p q \<and> (\<forall>s. fut s \<subseteq> fut q \<longrightarrow> wf_block (env_of s) b)"

abbreviation fres :: "Parser \<Rightarrow> nat option \<Rightarrow> Parser \<Rightarrow> bool" where
  "fres \<equiv> eres 0 (\<lambda>s i. i \<in> kids_of (funcs s) (cur_fn s))"

definition good :: "nat \<Rightarrow> rec_calls \<Rightarrow> bool" where
  "good m R \<longleftrightarrow> rec_fuel R = m + 1
     \<and> (\<forall>k p. 1 \<le> k \<longrightarrow> inv p \<longrightarrow> rem p < m \<longrightarrow> wp (rec_prec R k) (eres (Suc 0) we p) p)
     \<and> (\<forall>stops p. inv p \<longrightarrow> rem p < m \<or> \<not> pok p \<and> 0 < m \<longrightarrow> wp (rec_block R stops) (bres p) p)
     \<and> (\<forall>line self p. inv p \<longrightarrow> rem p < m \<longrightarrow> (self \<longrightarrow> 0 < nid p) \<longrightarrow> wp (rec_body R line self) (fres p) p)"

lemmas step_defs = est_def sst_def
lemmas res_defs = eres_def sres_def stres_def bres_def est_def sst_def

lemma wf_with_paren [simp]: "wf_expr v (with_paren e) = wf_expr v e"
  by (cases e) auto

lemma wf_up: "wf_expr (env_of p) e \<Longrightarrow> fut q \<subseteq> fut p \<Longrightarrow> inv p \<Longrightarrow> wf_expr (env_of q) e"
  by (rule wf_expr_mono [OF _ env_of_mono]) auto

lemma wf_block_up: "wf_block (env_of p) b \<Longrightarrow> fut q \<subseteq> fut p \<Longrightarrow> inv p \<Longrightarrow> wf_block (env_of q) b"
  by (rule wf_block_mono [OF _ env_of_mono]) auto

lemma slots_up: "fut q \<subseteq> fut p \<Longrightarrow> inv p \<Longrightarrow> slots p \<le> slots q"
  using env_of_mono [of q p] by (simp add: env_le_def)

section \<open>Rules\<close>

lemma eres_rule:
  assumes "wp m (eres d W p) p"
    and "\<And>r q. inv q \<Longrightarrow> fut q \<subseteq> fut p \<Longrightarrow> slots q = slots p \<Longrightarrow> locs q = locs p \<Longrightarrow> rem q \<le> rem p
      \<Longrightarrow> nid p \<le> nid q \<Longrightarrow> (\<And>x. r = Some x \<Longrightarrow> rem q + d \<le> rem p)
      \<Longrightarrow> (\<And>x s. r = Some x \<Longrightarrow> fut s \<subseteq> fut q \<Longrightarrow> W s x) \<Longrightarrow> (r = None \<Longrightarrow> \<not> pok q) \<Longrightarrow> Q r q"
  shows "wp m Q p"
  using assms(1) by (rule wp_mono) (rule assms(2), auto simp: eres_def step_defs)

lemma sres_rule:
  assumes "wp m (sres d W p) p"
    and "\<And>r q. inv q \<Longrightarrow> fut q \<subseteq> fut p \<Longrightarrow> rem q \<le> rem p \<Longrightarrow> nid p \<le> nid q
      \<Longrightarrow> (\<And>x. r = Some x \<Longrightarrow> rem q + d \<le> rem p)
      \<Longrightarrow> (\<And>x s. r = Some x \<Longrightarrow> fut s \<subseteq> fut q \<Longrightarrow> W s x) \<Longrightarrow> (r = None \<Longrightarrow> \<not> pok q) \<Longrightarrow> Q r q"
  shows "wp m Q p"
  using assms(1) by (rule wp_mono) (rule assms(2), auto simp: sres_def step_defs)

lemma bres_rule:
  assumes "wp m (bres p) p"
    and "\<And>b q. inv q \<Longrightarrow> fut q \<subseteq> fut p \<Longrightarrow> rem q \<le> rem p \<Longrightarrow> nid p \<le> nid q
      \<Longrightarrow> (\<And>s. fut s \<subseteq> fut q \<Longrightarrow> wf_block (env_of s) b) \<Longrightarrow> Q b q"
  shows "wp m Q p"
  using assms(1) by (rule wp_mono) (rule assms(2), auto simp: bres_def step_defs)

lemma good_prec:
  assumes "good m R" and "inv p" and "rem p < m" and "1 \<le> k"
  shows "wp (rec_prec R k) (eres (Suc 0) we p) p"
  using assms unfolding good_def by blast

lemma good_expr: "good m R \<Longrightarrow> inv p \<Longrightarrow> rem p < m \<Longrightarrow> wp (parse_expr R) (eres (Suc 0) we p) p"
  using good_prec [of m R p 1] by (simp add: parse_expr_def PREC_OR_def)

lemma good_block:
  assumes "good m R" and "inv p" and "rem p < m \<or> \<not> pok p \<and> 0 < m"
  shows "wp (rec_block R stops) (bres p) p"
  using assms unfolding good_def by blast

lemma good_body:
  assumes "good m R" and "inv p" and "rem p < m" and "self \<longrightarrow> 0 < nid p"
  shows "wp (rec_body R line self) (fres p) p"
  using assms unfolding good_def by blast

lemma good_fuel [simp]: "good m R \<Longrightarrow> rec_fuel R = Suc m"
  by (simp add: good_def)

lemmas expr_rule = good_expr [THEN eres_rule]
lemmas prec_rule = good_prec [THEN eres_rule]
lemmas block_rule = good_block [THEN bres_rule]
lemmas body_rule = good_body [THEN eres_rule]

lemma peek_at_adv: "inv p \<Longrightarrow> kind (cur p) \<noteq> TOK_EOF \<Longrightarrow> peek_at p (Suc 0) = cur (Parser_Inv.adv p)"
  using inv_pos [OF inv_adv, of p] by (simp add: peek_at_def tok_at_def cur_def Parser_Inv.adv_def)

lemma adv_rule:
  assumes "inv p" and "kind (cur p) \<noteq> TOK_EOF"
    and "\<And>q. inv q \<Longrightarrow> fut q \<subseteq> fut p \<Longrightarrow> slots q = slots p \<Longrightarrow> locs q = locs p \<Longrightarrow> rem q < rem p
      \<Longrightarrow> nid p \<le> nid q \<Longrightarrow> peek_at p (Suc 0) = cur q \<Longrightarrow> Q (cur p) q"
  shows "wp advance Q p"
  using assms inv_rem [of p] by (simp add: wp_advance assms(3) peek_at_adv)

lemma adv_ident_rule:
  assumes "inv p" and "kind (cur p) = TOK_IDENT"
    and "\<And>q. inv q \<Longrightarrow> fut q \<subseteq> fut p \<Longrightarrow> slots q = slots p \<Longrightarrow> locs q = locs p \<Longrightarrow> rem q < rem p
      \<Longrightarrow> nid q = Suc (nid p) \<Longrightarrow> Q (cur p) q"
  shows "wp advance Q p"
  using assms inv_rem [of p] by (simp add: wp_advance assms(3))

text \<open>With room for one more slot after an identifier.\<close>

lemma adv_slot_rule:
  assumes "inv p" and "kind (cur p) \<noteq> TOK_EOF"
    and "\<And>q. inv q \<Longrightarrow> fut q \<subseteq> fut p \<Longrightarrow> slots q = slots p \<Longrightarrow> locs q = locs p \<Longrightarrow> rem q < rem p
      \<Longrightarrow> nid p \<le> nid q \<Longrightarrow> (kind (cur p) = TOK_IDENT \<Longrightarrow> slots q < nid q) \<Longrightarrow> Q (cur p) q"
  shows "wp advance Q p"
  using assms inv_rem [of p] inv_slots [of p] by (simp add: wp_advance assms(3))

lemma match_rule:
  assumes "inv p" and "k \<noteq> TOK_EOF"
    and "\<And>q. kind (cur p) = k \<Longrightarrow> inv q \<Longrightarrow> fut q \<subseteq> fut p \<Longrightarrow> slots q = slots p \<Longrightarrow> locs q = locs p
      \<Longrightarrow> rem q < rem p \<Longrightarrow> nid p \<le> nid q \<Longrightarrow> Q True q"
    and "kind (cur p) \<noteq> k \<Longrightarrow> Q False p"
  shows "wp (match k) Q p"
  using assms inv_rem [of p] by (simp add: wp_match assms(3))

lemma expect_rule:
  assumes "inv p" and "k \<noteq> TOK_EOF"
    and "\<And>b q. inv q \<Longrightarrow> fut q \<subseteq> fut p \<Longrightarrow> slots q = slots p \<Longrightarrow> locs q = locs p \<Longrightarrow> rem q \<le> rem p
      \<Longrightarrow> nid p \<le> nid q \<Longrightarrow> (pok q \<Longrightarrow> pok p) \<Longrightarrow> Q b q"
  shows "wp (expect k w) Q p"
  using assms by (auto intro!: wp_expect')

lemma err_rule:
  assumes "inv p"
    and "\<And>q. inv q \<Longrightarrow> fut q \<subseteq> fut p \<Longrightarrow> slots q = slots p \<Longrightarrow> locs q = locs p \<Longrightarrow> rem q = rem p
      \<Longrightarrow> nid p = nid q \<Longrightarrow> \<not> pok q \<Longrightarrow> Q () q"
  shows "wp (Parser_State.error msg) Q p"
  using set_error_same [OF assms(1)] by (simp add: wp_error assms(2))

lemma fail_rule:
  assumes "inv p"
    and "\<And>q. inv q \<Longrightarrow> fut q \<subseteq> fut p \<Longrightarrow> slots q = slots p \<Longrightarrow> locs q = locs p \<Longrightarrow> rem q = rem p
      \<Longrightarrow> nid p = nid q \<Longrightarrow> \<not> pok q \<Longrightarrow> Q None q"
  shows "wp (Parser_Expr.fail msg) Q p"
  using set_error_same [OF assms(1)] by (simp add: wp_fail assms(2))

lemma on_ok_rule:
  assumes "r = None \<Longrightarrow> \<not> pok p" and "\<And>e. r = Some e \<Longrightarrow> pok p \<Longrightarrow> wp (f e) Q p" and "\<not> pok p \<Longrightarrow> Q None p"
  shows "wp (on_ok r f) Q p"
  using assms by (cases r) (auto simp: on_ok_def)

lemma resolve_rule:
  assumes "inv p"
    and "\<And>r q. inv q \<Longrightarrow> fut q \<subseteq> fut p \<Longrightarrow> slots q = slots p \<Longrightarrow> locs q = locs p \<Longrightarrow> rem q = rem p
      \<Longrightarrow> nid p \<le> nid q \<Longrightarrow> cur q = cur p \<Longrightarrow> (r = None \<Longrightarrow> \<not> pok q)
      \<Longrightarrow> (\<And>k i ro s. r = Some (k, i, ro) \<Longrightarrow> fut s \<subseteq> fut q \<Longrightarrow> idx_ok (env_of s) k i \<and> name_ok (env_of s) n k i)
      \<Longrightarrow> Q (r :: (VarKind \<times> nat \<times> bool) option) q"
  shows "wp (resolve_name n) Q p"
proof (rule wp_resolve_name [OF assms(1)])
  fix r :: "(VarKind \<times> nat \<times> bool) option" and q assume q: "est p q" "rem q = rem p" "cur q = cur p"
    and r: "case r of None \<Rightarrow> \<not> pok q | Some (k, i, ro) \<Rightarrow> idx_ok (env_of q) k i \<and> name_ok (env_of q) n k i"
  show "Q r q"
  proof (rule assms(2))
    fix k i ro s assume s: "r = Some (k, i, ro)" "fut s \<subseteq> fut q"
    have "env_le (env_of q) (env_of s)" by (rule env_of_mono [OF s(2)]) (use q in \<open>auto simp: step_defs\<close>)
    with s(1) r show "idx_ok (env_of s) k i \<and> name_ok (env_of s) n k i" by (auto intro: idx_ok_mono name_ok_mono)
  qed (use q r in \<open>auto simp: step_defs\<close>)
qed

text \<open>Reading the current frame.\<close>

lemma frame_rule:
  assumes "inv p" and "\<And>f. (\<And>i s. vararg_slot f = Some i \<Longrightarrow> fut s \<subseteq> fut p \<Longrightarrow> i < slots s) \<Longrightarrow> Q f p"
  shows "wp (on_frame (\<lambda>f. (f, f)) d) Q p"
proof -
  have "i < slots s" if "vararg_slot (hd (frames p)) = Some i" "fut s \<subseteq> fut p" for i s
    using inv_hd [OF assms(1)] that slots_up [OF that(2) assms(1)] by (auto simp: fr_ok_def slots_def)
  with assms show ?thesis by (simp add: wp_on_frame)
qed

lemmas rules = adv_rule match_rule expect_rule err_rule fail_rule on_ok_rule resolve_rule frame_rule

section \<open>Expressions\<close>

text \<open>What the kind of the token ahead allows.\<close>

lemma parse_name_spec:
  assumes "inv p" and "kind (cur p) \<noteq> TOK_EOF"
  shows "wp (parse_name t) (eres (Suc 0) we p) p"
  unfolding parse_name_def using assms
  by (auto simp: res_defs intro!: rules split: option.split del: subsetI; simp)

lemma parse_vararg_spec:
  assumes "inv p" and "kind (cur p) \<noteq> TOK_EOF"
  shows "wp (parse_vararg l) (eres (Suc 0) we p) p"
  unfolding parse_vararg_def using assms
  by (auto simp: res_defs intro!: rules split: option.split del: subsetI; simp)

lemma parse_paren_spec:
  assumes g: "good m R" and "inv p" and "rem p \<le> m" and "kind (cur p) \<noteq> TOK_EOF"
  shows "wp (parse_paren R) (eres (Suc 0) we p) p"
  unfolding parse_paren_def using assms
  by (auto simp: res_defs intro!: rules expr_rule [OF g] split: option.split del: subsetI; simp)

abbreviation wents :: "Parser \<Rightarrow> TableEntry list \<Rightarrow> bool" where "wents p es \<equiv> \<forall>e\<in>set es. wf_entry (env_of p) e"

lemma table_entry_spec:
  assumes g: "good m R" and "inv p" and "rem p < m"
  shows "wp (table_entry R) (eres (Suc 0) (\<lambda>s. wf_entry (env_of s)) p) p"
  unfolding table_entry_def using assms
  by (auto simp: res_defs intro!: rules expr_rule [OF g] split: option.split del: subsetI; simp)

lemma table_loop_spec:
  assumes g: "good m R"
  shows "inv p \<Longrightarrow> rem p < m \<Longrightarrow> rem p < n \<Longrightarrow> (\<And>s. fut s \<subseteq> fut p \<Longrightarrow> wents s acc) \<Longrightarrow>
    wp (table_loop R n acc) (eres 0 wents p) p"
proof (induction n arbitrary: p acc)
  case (Suc n)
  show ?case using Suc.prems
    by (auto simp: table_loop.simps res_defs intro!: rules table_entry_spec [OF g, THEN eres_rule] Suc.IH [THEN eres_rule]
        split: option.split del: subsetI; simp)
qed simp

lemma parse_table_spec:
  assumes g: "good m R" and "inv p" and "rem p \<le> m" and "kind (cur p) \<noteq> TOK_EOF"
  shows "wp (parse_table R l) (eres (Suc 0) we p) p"
  unfolding parse_table_def using assms
  by (auto simp: res_defs intro!: rules table_loop_spec [OF g, THEN eres_rule] split: option.split del: subsetI; simp)

lemma parse_primary_spec:
  assumes g: "good m R" and "inv p" and "rem p \<le> m"
  shows "wp (parse_primary R) (eres (Suc 0) we p) p"
proof (cases "kind (cur p)")
  case TOK_KW_FUNCTION
  with assms show ?thesis unfolding parse_primary_def
    by (auto simp: res_defs Let_def intro!: rules body_rule [OF g] split: option.split del: subsetI; simp)
next
  case TOK_IDENT
  with assms show ?thesis by (simp add: parse_primary_def Let_def parse_name_spec)
next
  case TOK_LPAREN
  with assms show ?thesis by (simp add: parse_primary_def Let_def parse_paren_spec)
next
  case TOK_ELLIPSIS
  with assms show ?thesis by (simp add: parse_primary_def Let_def parse_vararg_spec)
next
  case TOK_LBRACE
  with assms show ?thesis by (simp add: parse_primary_def Let_def parse_table_spec)
qed (use assms(2) in \<open>auto simp: res_defs parse_primary_def Let_def string_expr_def intro!: rules del: subsetI\<close>)

lemma expr_list_spec:
  assumes g: "good m R"
  shows "inv p \<Longrightarrow> rem p < m \<Longrightarrow> rem p < n \<Longrightarrow> (\<And>s. fut s \<subseteq> fut p \<Longrightarrow> wes s acc) \<Longrightarrow>
    wp (expr_list R n acc) (eres 0 wes p) p"
proof (induction n arbitrary: p acc)
  case (Suc n)
  show ?case using Suc.prems
    by (auto simp: expr_list.simps res_defs intro!: rules expr_rule [OF g] Suc.IH [THEN eres_rule]
        split: option.split del: subsetI; simp)
qed simp

lemma call_args_spec:
  assumes g: "good m R" and "inv p" and "rem p < m"
  shows "wp (call_args R) (eres 0 wes p) p"
  unfolding call_args_def using assms
  by (auto simp: res_defs intro!: rules expr_list_spec [OF g, THEN eres_rule] split: option.split del: subsetI; simp)

lemma wf_string_expr [simp]: "wf_expr v (string_expr t)"
  by (simp add: string_expr_def)

lemma wf_make_index [simp]: "wf_expr v (make_index e t) = wf_expr v e"
  by (simp add: make_index_def)

lemma method_args_spec:
  assumes g: "good m R" and "inv p" and "rem p < m"
  shows "wp (method_args R) (eres 0 wes p) p"
  unfolding method_args_def using assms
  by (auto simp: res_defs intro!: rules parse_primary_spec [OF g, THEN eres_rule] call_args_spec [OF g, THEN eres_rule]
      split: option.split del: subsetI; simp)

lemma chain_step_spec:
  assumes g: "good m R" and "inv p" and "rem p \<le> m" and "kind (cur p) \<noteq> TOK_EOF" and "t = cur p"
    and "kind (cur p) \<in> set chain_kinds" and e: "\<And>s. fut s \<subseteq> fut p \<Longrightarrow> we s e"
  shows "wp (chain_step R e t) (eres (Suc 0) we p) p"
proof -
  note rs = rules call_args_spec [OF g, THEN eres_rule] method_args_spec [OF g, THEN eres_rule]
    parse_primary_spec [OF g, THEN eres_rule] expr_rule [OF g]
  have "wp (chain_call R e l) (eres (Suc 0) we p) p" for l
    unfolding chain_call_def using assms(2-4) e
    by (auto simp: res_defs intro!: rs split: option.split del: subsetI; simp)
  moreover have "wp (chain_dot e) (eres (Suc 0) we p) p"
    unfolding chain_dot_def using assms(2-4) e
    by (auto simp: res_defs intro!: rs split: option.split del: subsetI; simp)
  moreover have "wp (chain_index R e l) (eres (Suc 0) we p) p" for l
    unfolding chain_index_def using assms(2-4) e
    by (auto simp: res_defs intro!: rs split: option.split del: subsetI; simp)
  moreover have "wp (chain_arg R e k l) (eres (Suc 0) we p) p" if "k = kind (cur p)" for k l
    unfolding chain_arg_def using assms(2-4) e
    by (auto simp: res_defs intro!: rs split: option.split del: subsetI; simp)
  moreover have "wp (chain_method R e l) (eres (Suc 0) we p) p" for l
    unfolding chain_method_def using assms(2-4) e
    by (auto simp: res_defs intro!: rs split: option.split del: subsetI; simp)
  ultimately show ?thesis using assms(5) by (simp add: chain_step_def Let_def)
qed

lemma chain_loop_spec:
  assumes g: "good m R"
  shows "inv p \<Longrightarrow> rem p \<le> m \<Longrightarrow> rem p < n \<Longrightarrow> (\<And>s. fut s \<subseteq> fut p \<Longrightarrow> we s e) \<Longrightarrow>
    wp (chain_loop R n e) (eres 0 we p) p"
proof (induction n arbitrary: p e)
  case (Suc n)
  have "kind (cur p) \<noteq> TOK_EOF" if "kind (cur p) \<in> set chain_kinds" using that by (auto simp: chain_kinds_def)
  with Suc.prems show ?case
    by (auto simp: chain_loop.simps res_defs intro!: rules chain_step_spec [OF g, THEN eres_rule] Suc.IH [THEN eres_rule]
        split: option.split del: subsetI; simp)
qed simp

lemma parse_prefix_chain_spec:
  assumes g: "good m R" and "inv p" and "rem p \<le> m"
  shows "wp (parse_prefix_chain R) (eres (Suc 0) we p) p"
  unfolding parse_prefix_chain_def using assms
  by (auto simp: res_defs intro!: rules parse_primary_spec [OF g, THEN eres_rule] chain_loop_spec [OF g, THEN eres_rule]
      split: option.split del: subsetI; simp)

lemma parse_unary_spec:
  assumes g: "good m R" and "inv p" and "rem p \<le> m"
  shows "wp (parse_unary R) (eres (Suc 0) we p) p"
proof (cases "unop_of (kind (cur p))")
  case None
  with assms show ?thesis by (simp add: parse_unary_def parse_prefix_chain_spec)
next
  case (Some u)
  then have "kind (cur p) \<noteq> TOK_EOF" by auto
  with Some assms show ?thesis unfolding parse_unary_def
    by (auto simp: res_defs PREC_UNARY_def intro!: rules prec_rule [OF g] split: option.split del: subsetI; simp)
qed

lemma prec_binop: "prec_of k \<noteq> 0 \<Longrightarrow> k \<noteq> TOK_EOF \<and> (\<exists>b. binop_of k = Some b)"
  by (cases k) auto

lemma prec_loop_spec:
  assumes g: "good m R" and k: "1 \<le> k"
  shows "inv p \<Longrightarrow> rem p \<le> m \<Longrightarrow> rem p < n \<Longrightarrow> (\<And>s. fut s \<subseteq> fut p \<Longrightarrow> we s e) \<Longrightarrow>
    wp (prec_loop R n k e) (eres 0 we p) p"
proof (induction n arbitrary: p e)
  case (Suc n)
  show ?case
  proof (cases "prec_of (kind (cur p)) < k")
    case True
    with Suc.prems show ?thesis by (simp add: prec_loop.simps Let_def res_defs)
  next
    case False
    with k have pr: "1 \<le> prec_of (kind (cur p))" by simp
    then obtain b where b: "kind (cur p) \<noteq> TOK_EOF" "binop_of (kind (cur p)) = Some b"
      using prec_binop [of "kind (cur p)"] by auto
    from Suc.prems pr b False show ?thesis
      by (auto simp: prec_loop.simps Let_def res_defs intro!: rules prec_rule [OF g] Suc.IH [THEN eres_rule]
        split: option.split del: subsetI; simp)
  qed
qed simp

lemma parse_prec_spec:
  assumes g: "good m R" and "inv p" and "rem p \<le> m" and "1 \<le> k"
  shows "wp (parse_prec R k) (eres (Suc 0) we p) p"
  unfolding parse_prec_def using assms
  by (auto simp: res_defs intro!: rules parse_unary_spec [OF g, THEN eres_rule] prec_loop_spec [OF g, THEN eres_rule]
      split: option.split del: subsetI; simp)

section \<open>Rules for statements\<close>

text \<open>A mark stands for the number of declarations at a state.\<close>

definition mark :: "Parser \<Rightarrow> nat" where
  "mark p = length (locs p)"

lemma count_rule: "inv p \<Longrightarrow> Q (mark p) p \<Longrightarrow> wp local_count Q p"
  by (simp add: mark_def wp_local_count)

lemma stres_rule:
  assumes "wp m (stres p) p"
    and "\<And>r q. inv q \<Longrightarrow> fut q \<subseteq> fut p \<Longrightarrow> rem q \<le> rem p \<Longrightarrow> nid p \<le> nid q \<Longrightarrow> (pok q \<Longrightarrow> rem q < rem p)
      \<Longrightarrow> (\<And>x s. r = Some x \<Longrightarrow> fut s \<subseteq> fut q \<Longrightarrow> wf_stmt (env_of s) x) \<Longrightarrow> Q r q"
  shows "wp m Q p"
  using assms(1) by (rule wp_mono) (rule assms(2), auto simp: stres_def step_defs)

text \<open>Names with the count of the identifiers consumed for them.\<close>

definition nres :: "nat \<Rightarrow> Parser \<Rightarrow> 'a list option \<Rightarrow> Parser \<Rightarrow> bool" where
  "nres a p r q \<longleftrightarrow> est p q \<and> (case r of None \<Rightarrow> \<not> pok q | Some xs \<Rightarrow> length xs + nid p \<le> nid q + a)"

lemma nres_rule:
  assumes "wp m (nres a p) p"
    and "\<And>r q. inv q \<Longrightarrow> fut q \<subseteq> fut p \<Longrightarrow> slots q = slots p \<Longrightarrow> locs q = locs p \<Longrightarrow> rem q \<le> rem p
      \<Longrightarrow> nid p \<le> nid q \<Longrightarrow> (\<And>xs. r = Some xs \<Longrightarrow> length xs + nid p \<le> nid q + a) \<Longrightarrow> (r = None \<Longrightarrow> \<not> pok q) \<Longrightarrow> Q r q"
  shows "wp m Q p"
  using assms(1) by (rule wp_mono) (rule assms(2), auto simp: nres_def step_defs)

lemma declare_rule:
  assumes "inv p" and "slots p < nid p"
    and "length (locs p) < MAX_LOCALS_PER_FN \<Longrightarrow> inv (decl n p) \<Longrightarrow> fut (decl n p) \<subseteq> fut p \<Longrightarrow> slots (decl n p) = Suc (slots p)
      \<Longrightarrow> rem (decl n p) = rem p \<Longrightarrow> nid (decl n p) = nid p \<Longrightarrow> pok (decl n p) = pok p
      \<Longrightarrow> (\<And>s. fut s \<subseteq> fut (decl n p) \<Longrightarrow> slots p < slots s) \<Longrightarrow> Q (Some (slots p)) (decl n p)"
    and "Q None p"
  shows "wp (on_frame (frame_declare n) d) Q p"
  unfolding wp_declare [OF assms(1)]
proof (rule if_splits(1) [THEN iffD2], intro conjI impI)
  assume l: "length (locs p) < MAX_LOCALS_PER_FN"
  have i: "inv (decl n p)" using inv_decl [OF assms(1,2) l] .
  have "slots p < slots s" if "fut s \<subseteq> fut (decl n p)" for s
    using slots_up [OF that i] decl_same(1) [OF l, of n] by simp
  then show "Q (Some (slots p)) (decl n p)"
    by (intro assms(3)) (use l i decl_same [OF l, of n] fut_decl [OF assms(1), of n] in simp_all)
qed (rule assms(4))

lemma attrib_rules:
  assumes "inv p" and "slots p < nid p" and "length (locs p) < MAX_LOCALS_PER_FN"
    and "\<And>q. inv q \<Longrightarrow> fut q \<subseteq> fut p \<Longrightarrow> slots q = Suc (slots p) \<Longrightarrow> rem q = rem p \<Longrightarrow> nid q = nid p \<Longrightarrow> pok q = pok p
      \<Longrightarrow> (\<And>s. fut s \<subseteq> fut q \<Longrightarrow> slots p < slots s) \<Longrightarrow> Q () q"
  shows "wp (upd_frame (set_last_attrib a)) Q (decl n p)" and "wp (upd_frame frame_mark_last_const) Q (decl n p)"
proof -
  have i: "inv (decl n p)" using inv_decl [OF assms(1,2,3)] .
  have "Q () (decl_attr a n p)" for a
  proof -
    have j: "inv (decl_attr a n p)" using inv_decl_attr [OF assms(1,2,3)] .
    have "slots p < slots s" if "fut s \<subseteq> fut (decl_attr a n p)" for s
      using slots_up [OF that j] decl_attr_same(1) [OF assms(3), of a n] by simp
    then show ?thesis
      by (intro assms(4)) (use j decl_attr_same [OF assms(3), of a n] fut_decl_attr [OF assms(1,3), of a n] in simp_all)
  qed
  then show "wp (upd_frame (set_last_attrib a)) Q (decl n p)" "wp (upd_frame frame_mark_last_const) Q (decl n p)"
    by (simp_all add: wp_attrib [OF i] wp_mark_const [OF i assms(3)])
qed

lemma rewind_rule:
  assumes "inv p" and "inv q" and "fut q \<subseteq> fut p"
    and "\<And>s. inv s \<Longrightarrow> fut s \<subseteq> fut p \<Longrightarrow> locs s = locs p \<Longrightarrow> slots s = slots q \<Longrightarrow> rem s = rem q \<Longrightarrow> nid s = nid q
      \<Longrightarrow> pok s = pok q \<Longrightarrow> (\<And>b x. fut x \<subseteq> fut s \<Longrightarrow> wf_block (env_of q) b \<Longrightarrow> wf_block (env_of x) b)
      \<Longrightarrow> (\<And>e x. fut x \<subseteq> fut s \<Longrightarrow> wf_expr (env_of q) e \<Longrightarrow> wf_expr (env_of x) e)
      \<Longrightarrow> (\<And>i x. fut x \<subseteq> fut s \<Longrightarrow> i < slots q \<Longrightarrow> i < slots x) \<Longrightarrow> Q () s"
  shows "wp (scope_rewind (mark p)) Q q"
proof -
  let ?s = "rewound (mark p) q"
  note s = rewound_same [OF assms(2), of "mark p"]
  have f: "fut ?s \<subseteq> fut p" "locs ?s = locs p" using fut_rewound [OF assms(1-3) mark_def] by auto
  have "Q () ?s"
  proof (rule assms(4))
    fix b x assume "wf_block (env_of q) b" "fut x \<subseteq> fut ?s"
    then show "wf_block (env_of x) b" using wf_block_up [of ?s b x] s by simp
  next
    fix e x assume "wf_expr (env_of q) e" "fut x \<subseteq> fut ?s"
    then show "wf_expr (env_of x) e" using wf_up [of ?s e x] s by simp
  next
    fix i x assume "i < slots q" "fut x \<subseteq> fut ?s"
    then show "i < slots x" using slots_up [of x ?s] s by simp
  qed (use s f in auto)
  then show ?thesis by (simp add: wp_scope_rewind)
qed

text \<open>Changes of the label and goto lists.\<close>

definition quiet :: "Parser \<Rightarrow> Parser \<Rightarrow> bool" where
  "quiet p q \<longleftrightarrow> ptoks q = ptoks p \<and> pos q = pos p \<and> frames q = frames p \<and> funcs q = funcs p
     \<and> cur_fn q = cur_fn p \<and> globals q = globals p \<and> blk_nactvar q = blk_nactvar p \<and> pok q = pok p
     \<and> oob q = oob p \<and> nofuel q = nofuel p"

lemma quiet_same:
  assumes "quiet p q" and "inv p"
  shows "inv q" "fut q \<subseteq> fut p" "slots q = slots p" "locs q = locs p" "rem q = rem p" "nid q = nid p" "pok q = pok p"
    "cur q = cur p" "env_of q = env_of p" "blk_nactvar q = blk_nactvar p"
proof -
  note e = assms(1) [unfolded quiet_def]
  show "blk_nactvar q = blk_nactvar p" using e by simp
  show "inv q" using assms(2) e by (simp add: inv_def nid_def)
  show "fut q \<subseteq> fut p" using e by (simp add: fut_iff ext0_def)
  show "slots q = slots p" "locs q = locs p" "rem q = rem p" "nid q = nid p" "pok q = pok p" "cur q = cur p" "env_of q = env_of p"
    using e by (simp_all add: slots_def locs_def rem_def nid_def cur_def env_of_def)
qed

lemma modify_rule:
  assumes "inv p" and "quiet p (f p)"
    and "\<And>q. inv q \<Longrightarrow> fut q \<subseteq> fut p \<Longrightarrow> slots q = slots p \<Longrightarrow> locs q = locs p \<Longrightarrow> rem q = rem p
      \<Longrightarrow> nid q = nid p \<Longrightarrow> pok q = pok p \<Longrightarrow> Q () q"
  shows "wp (modify f) Q p"
  using quiet_same [OF assms(2,1)] by (simp add: wp_modify assms(3))

lemma gdecl_rule:
  assumes "inv p"
    and "\<And>q. inv q \<Longrightarrow> fut q \<subseteq> fut p \<Longrightarrow> slots q = slots p \<Longrightarrow> rem q = rem p \<Longrightarrow> nid q = nid p \<Longrightarrow> pok q = pok p \<Longrightarrow> Q True q"
    and "Q False p"
  shows "wp (on_frame (frame_declare_global n a) d) Q p"
  using assms inv_gdecl fut_gdecl by (simp add: wp_declare_global)

lemma globals_up: "fut q \<subseteq> fut p \<Longrightarrow> length (globals p) \<le> length (globals q)"
  by (simp add: fut_iff ext0_def prefix_length_le)

lemma nid_up: "fut q \<subseteq> fut p \<Longrightarrow> nid p \<le> nid q"
proof -
  assume "fut q \<subseteq> fut p"
  then have "ptoks q = ptoks p" "pos p \<le> pos q" by (simp_all add: fut_iff ext0_def)
  then obtain d where "take (pos q) (ptoks q) = take (pos p) (ptoks p) @ d"
    by (metis le_Suc_ex take_add)
  then show ?thesis by (simp add: nid_def)
qed

lemma global_idx_rule:
  assumes "inv p"
    and "\<And>r q. inv q \<Longrightarrow> fut q \<subseteq> fut p \<Longrightarrow> slots q = slots p \<Longrightarrow> locs q = locs p \<Longrightarrow> rem q = rem p \<Longrightarrow> nid p \<le> nid q
      \<Longrightarrow> (r = None \<Longrightarrow> \<not> pok q) \<Longrightarrow> (\<And>g s. r = Some g \<Longrightarrow> fut s \<subseteq> fut q \<Longrightarrow> g < length (globals s)) \<Longrightarrow> Q r q"
  shows "wp (global_idx n) Q p"
proof (rule wp_global_idx [OF assms(1)])
  fix r q assume q: "est p q" "rem q = rem p" and r: "case r of None \<Rightarrow> \<not> pok q | Some g \<Rightarrow> g < length (globals q) \<and> globals q ! g = n"
  show "Q r q"
    by (rule assms(2)) (use q r globals_up [of _ q] in \<open>auto simp: step_defs split: option.splits intro: less_le_trans\<close>)
qed

lemmas stmt_rules = adv_rule match_rule expect_rule err_rule fail_rule on_ok_rule resolve_rule frame_rule
  count_rule declare_rule attrib_rules rewind_rule gdecl_rule global_idx_rule wp_last_line

section \<open>Declarations\<close>

lemma parse_attribute_spec:
  assumes "inv p" and "kind (cur p) \<noteq> TOK_EOF"
  shows "wp parse_attribute (eres (Suc 0) (\<lambda>s a. True) p) p"
  unfolding parse_attribute_def using assms
  by (auto simp: res_defs intro!: stmt_rules split: option.split del: subsetI; simp)

lemma attrib_or_spec:
  assumes "inv p"
  shows "wp (attrib_or d) (eres 0 (\<lambda>s a. True) p) p"
  unfolding attrib_or_def using assms
  by (auto simp: res_defs intro!: stmt_rules parse_attribute_spec [THEN eres_rule] split: option.split del: subsetI; simp)

lemma local_names_spec:
  "inv p \<Longrightarrow> kind (cur p) = TOK_IDENT \<Longrightarrow> rem p < n \<Longrightarrow> wp (local_names n d acc) (nres (length acc) p) p"
proof (induction n arbitrary: p acc)
  case (Suc n)
  show ?case using Suc.prems
    by (auto simp: local_names.simps nres_def step_defs intro!: adv_ident_rule match_rule fail_rule attrib_or_spec [THEN eres_rule] Suc.IH [THEN nres_rule]
        split: option.split del: subsetI; simp)
qed simp

lemma init_values_spec:
  assumes g: "good m R" and "inv p" and "rem p \<le> m"
  shows "wp (init_values R) (eres 0 wes p) p"
  unfolding init_values_def using assms
  by (auto simp: res_defs intro!: stmt_rules expr_list_spec [OF g, THEN eres_rule] split: option.split del: subsetI; simp)

abbreviation wslots :: "Parser \<Rightarrow> nat list \<Rightarrow> bool" where "wslots p xs \<equiv> \<forall>x\<in>set xs. x < slots p"

lemma declare_locals_spec:
  "inv p \<Longrightarrow> slots p + length ns \<le> nid p \<Longrightarrow> (\<And>s. fut s \<subseteq> fut p \<Longrightarrow> wslots s acc) \<Longrightarrow>
    wp (declare_locals ns acc) (sres 0 wslots p) p"
proof (induction ns acc arbitrary: p rule: declare_locals.induct)
  case (2 nm a ns acc)
  show ?case using "2.prems"
    by (auto simp: res_defs intro!: declare_rule attrib_rules fail_rule "2.IH" [THEN sres_rule]
        split: option.split del: subsetI; simp)
qed (simp add: res_defs)

end
