(* ===== verification/Parser_Wf_Stmt.thy ===== *)
theory Parser_Wf_Stmt
  imports Parser_Wf
begin

text \<open>
  The statements of the parser keep the invariant, in the style of \<open>Parser_Wf\<close>; then function
  bodies, blocks, and by induction on the bound the whole parser.
\<close>

section \<open>Local declarations\<close>

lemma scoped_block_spec:
  assumes g: "good m R" and "inv p" and "rem p < m"
  shows "wp (scoped_block R stops) (\<lambda>b q. bres p b q \<and> locs q = locs p) p"
  unfolding scoped_block_def using assms
  by (auto simp: bres_def step_defs intro!: count_rule rewind_rule block_rule [OF g] del: subsetI; simp)

lemma scoped_rule:
  assumes "good m R" and "inv p" and "rem p < m"
    and "\<And>b q. inv q \<Longrightarrow> fut q \<subseteq> fut p \<Longrightarrow> rem q \<le> rem p \<Longrightarrow> nid p \<le> nid q \<Longrightarrow> locs q = locs p
      \<Longrightarrow> (\<And>s. fut s \<subseteq> fut q \<Longrightarrow> wf_block (env_of s) b) \<Longrightarrow> Q b q"
  shows "wp (scoped_block R stops) Q p"
  using scoped_block_spec [OF assms(1-3)] by (rule wp_mono) (rule assms(4), auto simp: bres_def step_defs)

lemma parse_local_function_spec:
  assumes g: "good m R" and "inv p" and "rem p \<le> m" and "kind (cur p) \<noteq> TOK_EOF"
  shows "wp (parse_local_function R l) (sres 0 (\<lambda>s. wf_stmt (env_of s)) p) p"
  unfolding parse_local_function_def using assms
  by (auto simp: res_defs intro!: adv_slot_rule fail_rule on_ok_rule declare_rule body_rule [OF g] split: option.split del: subsetI; simp)

lemma parse_local_list_spec:
  assumes g: "good m R" and "inv p" and "rem p \<le> m" and "kind (cur p) = TOK_IDENT"
  shows "wp (parse_local_list R l d) (sres 0 (\<lambda>s. wf_stmt (env_of s)) p) p"
  unfolding parse_local_list_def using assms inv_slots [of p]
  by (auto simp: res_defs intro!: stmt_rules local_names_spec [THEN nres_rule] init_values_spec [OF g, THEN eres_rule]
      declare_locals_spec [THEN sres_rule] split: option.split del: subsetI; simp)

lemma sst_stres:
  "sres 0 (\<lambda>s. wf_stmt (env_of s)) p r q \<Longrightarrow> rem p < rem p' \<Longrightarrow> fut p \<subseteq> fut p' \<Longrightarrow> nid p' \<le> nid p \<Longrightarrow> stres p' r q"
  by (auto simp: sres_def stres_def step_defs split: option.splits del: subsetI; simp)

lemma parse_local_spec:
  assumes g: "good m R" and "inv p" and "rem p \<le> m" and "kind (cur p) \<noteq> TOK_EOF"
  shows "wp (parse_local R) (stres p) p"
  unfolding parse_local_def using assms
  by (auto simp: Let_def stres_def step_defs intro!: stmt_rules parse_local_function_spec [OF g, THEN sres_rule] parse_local_list_spec [OF g, THEN sres_rule]
      attrib_or_spec [THEN eres_rule] split: option.split del: subsetI; simp)

section \<open>Compound statements\<close>

definition warm :: "Parser \<Rightarrow> Expr \<times> Block \<Rightarrow> bool" where
  "warm p a \<longleftrightarrow> wf_expr (env_of p) (fst a) \<and> wf_block (env_of p) (snd a)"

definition warms :: "Parser \<Rightarrow> (Expr \<times> Block) list \<Rightarrow> bool" where
  "warms p arms \<longleftrightarrow> (\<forall>a\<in>set arms. warm p a)"

lemma warm_simps [simp]:
  "warm p (c, b) = (wf_expr (env_of p) c \<and> wf_block (env_of p) b)"
  "warms p []" "warms p (arms @ [a]) = (warms p arms \<and> warm p a)"
  by (auto simp: warm_def warms_def)

lemma wf_stmt_if [simp]:
  "wf_stmt (env_of p) (STMT_IF l arms els) = (warms p arms \<and> (case els of Some b \<Rightarrow> wf_block (env_of p) b | None \<Rightarrow> True))"
  by (auto simp: warm_def warms_def)

lemma if_arm_spec:
  assumes g: "good m R" and "inv p" and "rem p \<le> m" and "kind (cur p) \<noteq> TOK_EOF"
  shows "wp (if_arm R) (sres (Suc 0) warm p) p"
  unfolding if_arm_def using assms
  by (auto simp: res_defs intro!: stmt_rules expr_rule [OF g] scoped_rule [OF g] split: option.split del: subsetI; simp)

lemma if_arms_spec:
  assumes g: "good m R"
  shows "inv p \<Longrightarrow> rem p \<le> m \<Longrightarrow> rem p < n \<Longrightarrow> kind (cur p) \<noteq> TOK_EOF \<Longrightarrow> (\<And>s. fut s \<subseteq> fut p \<Longrightarrow> warms s acc) \<Longrightarrow>
    wp (if_arms R n acc) (sres (Suc 0) warms p) p"
proof (induction n arbitrary: p acc)
  case (Suc n)
  show ?case using Suc.prems
    by (auto simp: if_arms.simps res_defs intro!: stmt_rules if_arm_spec [OF g, THEN sres_rule] Suc.IH [THEN sres_rule]
        split: option.split del: subsetI; simp)
qed simp

lemma else_part_spec:
  assumes g: "good m R" and "inv p" and "rem p \<le> m"
  shows "wp (else_part R) (sres 0 (\<lambda>s els. case els of None \<Rightarrow> True | Some b \<Rightarrow> wf_block (env_of s) b) p) p"
  unfolding else_part_def using assms
  by (auto simp: res_defs intro!: stmt_rules scoped_rule [OF g] split: option.split del: subsetI; simp)

lemma parse_if_spec:
  assumes g: "good m R" and "inv p" and "rem p \<le> m" and "kind (cur p) \<noteq> TOK_EOF"
  shows "wp (parse_if R) (stres p) p"
  unfolding parse_if_def using assms
  by (auto simp: res_defs simp del: wf_stmt.simps(4) intro!: stmt_rules if_arms_spec [OF g, THEN sres_rule] else_part_spec [OF g, THEN sres_rule]
      split: option.split del: subsetI; simp del: wf_stmt.simps(4))

lemma parse_while_spec:
  assumes g: "good m R" and "inv p" and "rem p \<le> m" and "kind (cur p) \<noteq> TOK_EOF"
  shows "wp (parse_while R) (stres p) p"
  unfolding parse_while_def using assms
  by (auto simp: res_defs intro!: stmt_rules expr_rule [OF g] scoped_rule [OF g] split: option.split del: subsetI; simp)

lemma parse_do_spec:
  assumes g: "good m R" and "inv p" and "rem p \<le> m" and "kind (cur p) \<noteq> TOK_EOF"
  shows "wp (parse_do R) (stres p) p"
  unfolding parse_do_def using assms
  by (auto simp: res_defs intro!: stmt_rules scoped_rule [OF g] split: option.split del: subsetI; simp)

lemma parse_return_spec:
  assumes g: "good m R" and "inv p" and "rem p \<le> m" and "kind (cur p) \<noteq> TOK_EOF"
  shows "wp (parse_return R) (stres p) p"
  unfolding parse_return_def using assms
  by (auto simp: res_defs intro!: stmt_rules expr_list_spec [OF g, THEN eres_rule] split: option.split del: subsetI; simp)

section \<open>Assignments\<close>

abbreviation wts :: "Parser \<Rightarrow> AssignTarget list \<Rightarrow> bool" where "wts p ts \<equiv> \<forall>t\<in>set ts. wf_target (env_of p) t"

lemma check_assignable_rule:
  assumes "inv p" and "Q True p"
    and "\<And>q. inv q \<Longrightarrow> fut q \<subseteq> fut p \<Longrightarrow> slots q = slots p \<Longrightarrow> locs q = locs p \<Longrightarrow> rem q = rem p
      \<Longrightarrow> nid p = nid q \<Longrightarrow> \<not> pok q \<Longrightarrow> Q False q"
  shows "wp (check_assignable e) Q p"
  unfolding check_assignable_def using assms by (auto intro!: err_rule split: Expr.split)

lemma wf_expr_to_target: "wf_expr v e \<Longrightarrow> expr_to_target e = Some t \<Longrightarrow> wf_target v t"
  by (cases e) (auto simp: expr_to_target_def)

lemma one_target_spec:
  assumes "inv p" and "\<And>s. fut s \<subseteq> fut p \<Longrightarrow> we s e"
  shows "wp (one_target msg e) (eres 0 (\<lambda>s. wf_target (env_of s)) p) p"
  unfolding one_target_def using assms
  by (auto simp: res_defs intro!: fail_rule check_assignable_rule
      split: option.split del: subsetI) (erule wf_expr_to_target [rotated], simp)

lemma more_targets_spec:
  assumes g: "good m R"
  shows "inv p \<Longrightarrow> rem p \<le> m \<Longrightarrow> rem p < n \<Longrightarrow> (\<And>s. fut s \<subseteq> fut p \<Longrightarrow> wts s acc) \<Longrightarrow>
    wp (more_targets R n acc) (eres 0 wts p) p"
proof (induction n arbitrary: p acc)
  case (Suc n)
  show ?case using Suc.prems
    by (auto simp: more_targets.simps res_defs intro!: stmt_rules parse_prefix_chain_spec [OF g, THEN eres_rule] one_target_spec [THEN eres_rule] Suc.IH [THEN eres_rule]
        split: option.split del: subsetI; simp)
qed simp

lemma parse_assign_spec:
  assumes g: "good m R" and "inv p" and "rem p < m" and "\<And>s. fut s \<subseteq> fut p \<Longrightarrow> we s e"
  shows "wp (parse_assign R l e) (eres 0 (\<lambda>s. wf_stmt (env_of s)) p) p"
proof -
  note rs = stmt_rules one_target_spec [THEN eres_rule] more_targets_spec [OF g, THEN eres_rule] expr_list_spec [OF g, THEN eres_rule]
  show ?thesis
    unfolding parse_assign_def using assms
    by (auto simp: res_defs intro!: rs split: option.split del: subsetI; simp)
qed

lemma parse_ident_stmt_spec:
  assumes g: "good m R" and "inv p" and "rem p \<le> m"
  shows "wp (parse_ident_stmt R) (stres p) p"
  unfolding parse_ident_stmt_def using assms
  by (auto simp: res_defs intro!: stmt_rules parse_prefix_chain_spec [OF g, THEN eres_rule] parse_assign_spec [OF g, THEN eres_rule]
      split: option.split del: subsetI; simp)

section \<open>Loops\<close>

definition wbounds :: "Parser \<Rightarrow> Expr \<times> Expr \<times> Expr option \<Rightarrow> bool" where
  "wbounds p = (\<lambda>(a, b, c). we p a \<and> we p b \<and> (case c of Some e \<Rightarrow> we p e | None \<Rightarrow> True))"

lemma wbounds_simp [simp]: "wbounds p (a, b, c) = (we p a \<and> we p b \<and> (case c of Some e \<Rightarrow> we p e | None \<Rightarrow> True))"
  by (simp add: wbounds_def)

lemma for_bounds_spec:
  assumes g: "good m R" and "inv p" and "rem p < m"
  shows "wp (for_bounds R) (eres 0 wbounds p) p"
  unfolding for_bounds_def using assms
  by (auto simp: res_defs intro!: rules expr_rule [OF g] split: option.split del: subsetI; simp)

lemma for_num_body_spec:
  assumes g: "good m R" and "inv p" and "rem p < m" and "slots p < nid p" and "\<And>s. fut s \<subseteq> fut p \<Longrightarrow> wbounds s (a, b, c)"
  shows "wp (for_num_body R l t a b c) (sres 0 (\<lambda>s. wf_stmt (env_of s)) p) p"
  unfolding for_num_body_def parse_block1_def using assms
  by (auto simp: res_defs intro!: stmt_rules block_rule [OF g] split: option.split del: subsetI; simp)

lemma parse_for_num_spec:
  assumes g: "good m R" and "inv p" and "rem p \<le> m" and "kind (cur p) \<noteq> TOK_EOF" and "slots p < nid p"
  shows "wp (parse_for_num R l t) (sres 0 (\<lambda>s. wf_stmt (env_of s)) p) p"
  unfolding parse_for_num_def using assms
  by (auto simp: res_defs intro!: adv_rule for_bounds_spec [OF g, THEN eres_rule] for_num_body_spec [OF g, THEN sres_rule]
      split: option.split del: subsetI; simp)

lemma for_names_spec:
  "inv p \<Longrightarrow> rem p < n \<Longrightarrow> wp (for_names n acc) (nres (length acc) p) p"
proof (induction n arbitrary: p acc)
  case (Suc n)
  show ?case using Suc.prems
    by (auto simp: for_names.simps nres_def step_defs intro!: adv_ident_rule match_rule fail_rule Suc.IH [THEN nres_rule]
        split: option.split del: subsetI; simp)
qed simp

lemma declare_for_spec:
  "inv p \<Longrightarrow> slots p + length ns \<le> nid p \<Longrightarrow> (\<And>s. fut s \<subseteq> fut p \<Longrightarrow> wslots s acc) \<Longrightarrow>
    wp (declare_for b ns acc) (sres 0 wslots p) p"
proof (induction b ns acc arbitrary: p rule: declare_for.induct)
  case (2 b nm ns acc)
  show ?case using "2.prems"
    by (auto simp: res_defs intro!: declare_rule attrib_rules fail_rule "2.IH" [THEN sres_rule]
        split: option.split del: subsetI; simp)
qed (simp add: res_defs)

lemma for_gen_body_spec:
  assumes g: "good m R" and "inv p" and "rem p < m" and "slots p + length ns \<le> nid p" and "\<And>s. fut s \<subseteq> fut p \<Longrightarrow> wes s es"
  shows "wp (for_gen_body R l ns es) (sres 0 (\<lambda>s. wf_stmt (env_of s)) p) p"
  unfolding for_gen_body_def parse_block1_def using assms
  by (auto simp: res_defs intro!: stmt_rules declare_for_spec [THEN sres_rule] block_rule [OF g]
      split: option.split del: subsetI; simp)

lemma parse_for_gen_spec:
  assumes g: "good m R" and "inv p" and "rem p < m" and "slots p < nid p"
  shows "wp (parse_for_gen R l t) (sres 0 (\<lambda>s. wf_stmt (env_of s)) p) p"
  unfolding parse_for_gen_def using assms
  by (auto simp: res_defs intro!: rules for_names_spec [THEN nres_rule] expr_list_spec [OF g, THEN eres_rule]
      for_gen_body_spec [OF g, THEN sres_rule] split: option.split del: subsetI; simp)

lemma parse_for_spec:
  assumes g: "good m R" and "inv p" and "rem p \<le> m" and "kind (cur p) \<noteq> TOK_EOF"
  shows "wp (parse_for R) (stres p) p"
  unfolding parse_for_def using assms
  by (auto simp: res_defs intro!: adv_slot_rule fail_rule parse_for_num_spec [OF g, THEN sres_rule] parse_for_gen_spec [OF g, THEN sres_rule]
      split: option.split del: subsetI; simp)

lemma parse_repeat_spec:
  assumes g: "good m R" and "inv p" and "rem p \<le> m" and "kind (cur p) \<noteq> TOK_EOF"
  shows "wp (parse_repeat R) (stres p) p"
proof -
  have [simp]: "wf_block v (Block (items b) l) = wf_block v b" for v b l by (cases b) auto
  show ?thesis unfolding parse_repeat_def parse_block1_def using assms
    by (auto simp: res_defs intro!: stmt_rules expr_rule [OF g] block_rule [OF g] split: option.split simp del: wf_block.simps del: subsetI; simp del: wf_block.simps)
qed

lemma parse_break_spec:
  assumes "inv p" and "kind (cur p) \<noteq> TOK_EOF"
  shows "wp parse_break (stres p) p"
  unfolding parse_break_def using assms by (auto simp: res_defs intro!: adv_rule del: subsetI)

end
