(* ===== verification/Parser_Wf_Block.thy ===== *)
theory Parser_Wf_Block
  imports Parser_Wf_Stmt
begin

text \<open>
  Labels, global declarations, function statements, blocks and function bodies keep the invariant, and by
  induction on the bound so does the whole parser.
\<close>

section \<open>Goto and labels\<close>

lemma parse_goto_spec:
  assumes "inv p" and "kind (cur p) \<noteq> TOK_EOF"
  shows "wp parse_goto (stres p) p"
  unfolding parse_goto_def using assms
  by (auto simp: res_defs quiet_def intro!: adv_rule fail_rule count_rule modify_rule del: subsetI; simp)

lemma label_ends_block_total:
  "inv p \<Longrightarrow> length (ptoks p) < pos p + i + n \<Longrightarrow> 0 < n \<Longrightarrow> label_ends_block n i p \<noteq> None"
proof (induction n arbitrary: i)
  case (Suc n)
  show ?case
  proof (cases "pos p + i < length (ptoks p)")
    case False
    then have "kind (peek_at p i) = TOK_EOF"
      using Suc.prems(1) inv_pos [of p]
      by (cases "ptoks p = []") (auto simp: peek_at_def Let_def tok_at_def inv_def last_conv_nth)
    then show ?thesis by simp
  next
    case True
    then have "label_ends_block n (i + 1) p \<noteq> None" "label_ends_block n (i + 3) p \<noteq> None"
      using Suc.prems by (intro Suc.IH; simp)+
    then show ?thesis by (simp add: Let_def)
  qed
qed simp

lemma take_gotos_bad: "take_gotos name n gs = (hs, Some g) \<Longrightarrow> gr_nactvar g < n"
  by (induction name n gs arbitrary: hs rule: take_gotos.induct) (auto split: if_splits prod.splits)

lemma place_label_spec:
  assumes "inv p" and n: "n \<le> length (locs p)"
  shows "wp (place_label l nm n) (eres 0 (\<lambda>s. wf_stmt (env_of s)) p) p"
proof -
  obtain gs bad where t: "take_gotos nm n (drop (blk_gotos p) (gotos p)) = (gs, bad)" by fastforce
  obtain q where q: "q = p\<lparr>gotos := take (blk_gotos p) (gotos p) @ gs\<rparr>" by simp
  have "quiet p q" by (simp add: q quiet_def)
  note s = quiet_same [OF this assms(1)]
  have step: "wp (State (\<lambda>p. case take_gotos nm n (drop (blk_gotos p) (gotos p)) of
      (gs, bad) \<Rightarrow> (bad, p\<lparr>gotos := take (blk_gotos p) (gotos p) @ gs\<rparr>))) Q p = Q bad q" for Q
    by (simp add: wp_State t q)
  show ?thesis
  proof (cases bad)
    case None
    with s show ?thesis unfolding place_label_def wp_bind step
      by (auto simp: res_defs quiet_def intro!: modify_rule del: subsetI; simp)
  next
    case (Some g)
    have "gr_nactvar g < n" using take_gotos_bad t Some by blast
    moreover have "frames q = frames p" by (simp add: q)
    ultimately have "decl_name q (gr_nactvar g) \<noteq> None" using n by (simp add: decl_name_def locs_def Let_def)
    with s Some show ?thesis unfolding place_label_def wp_bind step
      by (auto simp: res_defs intro!: fail_rule del: subsetI; simp)
  qed
qed

declare label_ends_block.simps [simp del]

definition bl :: "Parser \<Rightarrow> bool" where
  "bl p \<longleftrightarrow> blk_nactvar p \<le> length (locs p)"

lemma bl_up: "bl p \<Longrightarrow> fut q \<subseteq> fut p \<Longrightarrow> inv p \<Longrightarrow> bl q"
  using inv_frames [of p] unfolding fut_iff
  by (auto simp: bl_def ext0_def cap_le_def locs_def dest!: prefix_length_le)

lemma parse_label_spec:
  assumes "inv p" and "kind (cur p) \<noteq> TOK_EOF" and "bl p"
  shows "wp parse_label (stres p) p"
proof -
  have 1: "label_ends_block (Suc (length (ptoks q))) 0 q \<noteq> None" if "inv q" for q
    using label_ends_block_total [OF that, of 0 "Suc (length (ptoks q))"] by simp
  have 2: "blk_nactvar q \<le> k" if "fut q \<subseteq> fut p" "length (locs q) = k" for q k
    using bl_up [OF assms(3) that(1) assms(1)] that(2) by (simp add: bl_def)
  show ?thesis
    unfolding parse_label_def mark_def using assms(1,2) 1 2
    by (auto simp: res_defs mark_def intro!: adv_rule fail_rule count_rule place_label_spec [THEN eres_rule]
        split: option.split del: subsetI; simp)
qed

section \<open>Global declarations\<close>

abbreviation wglobs :: "Parser \<Rightarrow> nat list \<Rightarrow> bool" where "wglobs p gs \<equiv> \<forall>g\<in>set gs. g < length (globals p)"

lemma parse_global_function_spec:
  assumes g: "good m R" and "inv p" and "rem p \<le> m"
  shows "wp (parse_global_function R l) (sres 0 (\<lambda>s. wf_stmt (env_of s)) p) p"
  unfolding parse_global_function_def using assms
  by (auto simp: res_defs intro!: stmt_rules body_rule [OF g] split: option.split del: subsetI; simp)

lemma set_error_at_rule:
  assumes "inv p"
    and "\<And>q. inv q \<Longrightarrow> fut q \<subseteq> fut p \<Longrightarrow> slots q = slots p \<Longrightarrow> locs q = locs p \<Longrightarrow> rem q = rem p
      \<Longrightarrow> nid p = nid q \<Longrightarrow> \<not> pok q \<Longrightarrow> Q () q"
  shows "wp (modify (set_error_at l msg)) Q p"
  unfolding wp_modify set_error_at_err by (rule assms(2)) (use assms(1) in simp_all)

lemma global_names_spec:
  "inv p \<Longrightarrow> rem p < n \<Longrightarrow> wp (global_names n d acc) (eres 0 (\<lambda>s ns. True) p) p"
proof (induction n arbitrary: p acc)
  case (Suc n)
  show ?case using Suc.prems
    by (auto simp: global_names.simps res_defs intro!: adv_rule match_rule fail_rule set_error_at_rule attrib_or_spec [THEN eres_rule] Suc.IH [THEN eres_rule]
        split: option.split del: subsetI; simp)
qed simp

lemma global_indices_spec:
  "inv p \<Longrightarrow> (\<And>s. fut s \<subseteq> fut p \<Longrightarrow> wglobs s acc) \<Longrightarrow> wp (global_indices ns acc) (eres 0 wglobs p) p"
proof (induction ns acc arbitrary: p rule: global_indices.induct)
  case (2 nm a ns acc)
  show ?case using "2.prems"
    by (auto simp: res_defs intro!: global_idx_rule "2.IH" [THEN eres_rule] split: option.split del: subsetI; simp)
qed (simp add: res_defs)

lemma declare_globals_spec:
  "inv p \<Longrightarrow> wp (declare_globals ns) (sres 0 (\<lambda>s u. True) p) p"
proof (induction ns arbitrary: p rule: declare_globals.induct)
  case (2 nm a ns)
  show ?case using "2.prems"
    by (auto simp: res_defs intro!: gdecl_rule fail_rule "2.IH" [THEN sres_rule] split: option.split del: subsetI; simp)
qed (simp add: res_defs)

lemma parse_global_list_spec:
  assumes g: "good m R" and "inv p" and "rem p \<le> m"
  shows "wp (parse_global_list R l d) (sres 0 (\<lambda>s. wf_stmt (env_of s)) p) p"
  unfolding parse_global_list_def using assms
  by (auto simp: res_defs intro!: global_names_spec [THEN eres_rule] global_indices_spec [THEN eres_rule]
      init_values_spec [OF g, THEN eres_rule] declare_globals_spec [THEN sres_rule] split: option.split del: subsetI; simp)

lemma parse_global_spec:
  assumes g: "good m R" and "inv p" and "rem p \<le> m" and "kind (cur p) \<noteq> TOK_EOF"
  shows "wp (parse_global R) (stres p) p"
  unfolding parse_global_def using assms
  by (auto simp: Let_def res_defs intro!: stmt_rules parse_global_function_spec [OF g, THEN sres_rule] parse_global_list_spec [OF g, THEN sres_rule]
      attrib_or_spec [THEN eres_rule] split: option.split del: subsetI; simp)

section \<open>Function statements\<close>

definition is_target :: "Expr \<Rightarrow> bool" where
  "is_target e \<longleftrightarrow> expr_to_target e \<noteq> None"

abbreviation wbase :: "Parser \<Rightarrow> Expr \<Rightarrow> bool" where "wbase p e \<equiv> wf_expr (env_of p) e \<and> is_target e"

lemma is_target_simps [simp]: "is_target (make_index e t)" "is_target (EXPR_VAR h n k i ro)"
  by (simp_all add: is_target_def make_index_def expr_to_target_def)

lemma dotted_path_spec:
  "inv p \<Longrightarrow> rem p < n \<Longrightarrow> (\<And>s. fut s \<subseteq> fut p \<Longrightarrow> wbase s e) \<Longrightarrow> wp (dotted_path n e) (eres 0 wbase p) p"
proof (induction n arbitrary: p e)
  case (Suc n)
  show ?case using Suc.prems
    by (auto simp: dotted_path.simps res_defs intro!: adv_rule fail_rule Suc.IH [THEN eres_rule] split: option.split del: subsetI; simp)
qed simp

text \<open>An identifier has been consumed from here on.\<close>

lemma adv_pos_rule:
  assumes "inv p" and "kind (cur p) \<noteq> TOK_EOF"
    and "\<And>q. inv q \<Longrightarrow> fut q \<subseteq> fut p \<Longrightarrow> slots q = slots p \<Longrightarrow> locs q = locs p \<Longrightarrow> rem q < rem p
      \<Longrightarrow> nid p \<le> nid q \<Longrightarrow> (\<And>s. kind (cur p) = TOK_IDENT \<Longrightarrow> fut s \<subseteq> fut q \<Longrightarrow> 0 < nid s) \<Longrightarrow> Q (cur p) q"
  shows "wp advance Q p"
proof -
  have "0 < nid s" if "kind (cur p) = TOK_IDENT" "fut s \<subseteq> fut (Parser_Inv.adv p)" for s
    using nid_up [OF that(2)] that(1) assms(1) by simp
  with assms inv_rem [of p] show ?thesis by (simp add: wp_advance assms(3))
qed

definition wmethod :: "Parser \<Rightarrow> Expr \<times> bool \<Rightarrow> bool" where
  "wmethod p m \<longleftrightarrow> wbase p (fst m) \<and> (snd m \<longrightarrow> 0 < nid p)"

lemma wmethod_simp [simp]: "wmethod p (e, b) = (wbase p e \<and> (b \<longrightarrow> 0 < nid p))"
  by (simp add: wmethod_def)

lemma method_suffix_spec:
  assumes "inv p" and e: "\<And>s. fut s \<subseteq> fut p \<Longrightarrow> wbase s e"
  shows "wp (method_suffix e) (eres 0 wmethod p) p"
  unfolding method_suffix_def using assms
  by (auto simp: res_defs intro!: adv_pos_rule fail_rule del: subsetI; simp)

lemma method_rule:
  assumes "inv p" and "\<And>s. fut s \<subseteq> fut p \<Longrightarrow> wbase s e"
    and "\<And>q. inv q \<Longrightarrow> fut q \<subseteq> fut p \<Longrightarrow> rem q \<le> rem p \<Longrightarrow> nid p \<le> nid q \<Longrightarrow> \<not> pok q \<Longrightarrow> Q None q"
    and "\<And>b x t q. inv q \<Longrightarrow> fut q \<subseteq> fut p \<Longrightarrow> rem q \<le> rem p \<Longrightarrow> nid p \<le> nid q
      \<Longrightarrow> expr_to_target b = Some t \<Longrightarrow> (\<And>s. fut s \<subseteq> fut q \<Longrightarrow> wf_target (env_of s) t)
      \<Longrightarrow> (x \<Longrightarrow> 0 < nid q) \<Longrightarrow> Q (Some (b, x)) q"
  shows "wp (method_suffix e) Q p"
proof (rule eres_rule [OF method_suffix_spec [OF assms(1,2)]])
  fix r :: "(Expr \<times> bool) option" and q
  assume q: "inv q" "fut q \<subseteq> fut p" "slots q = slots p" "locs q = locs p" "rem q \<le> rem p" "nid p \<le> nid q"
    and f: "r = None \<Longrightarrow> \<not> pok q" and w: "\<And>x s. r = Some x \<Longrightarrow> fut s \<subseteq> fut q \<Longrightarrow> wmethod s x"
  show "Q r q"
  proof (cases r)
    case None
    with q f show ?thesis by (auto intro: assms(3))
  next
    case (Some m)
    obtain b x where m: "m = (b, x)" by (cases m)
    have "is_target b" using w [OF Some, of q] m by simp
    then obtain t where t: "expr_to_target b = Some t" by (auto simp: is_target_def)
    have "wf_target (env_of s) t" if "fut s \<subseteq> fut q" for s
      using w [OF Some that] m wf_expr_to_target [OF _ t] by simp
    moreover have "0 < nid q" if x using w [OF Some, of q] m that by simp
    ultimately show ?thesis unfolding Some m using q t by (intro assms(4)) auto
  qed
qed auto

lemma function_target_spec:
  assumes g: "good m R" and "inv p" and "rem p < m" and e: "\<And>s. fut s \<subseteq> fut p \<Longrightarrow> wbase s e"
  shows "wp (function_target R l e) (sres 0 (\<lambda>s. wf_stmt (env_of s)) p) p"
  unfolding function_target_def using assms
  by (auto simp: res_defs intro!: on_ok_rule dotted_path_spec [THEN eres_rule] method_rule body_rule [OF g]
      split: option.split del: subsetI; simp)

lemma parse_function_stmt_spec:
  assumes g: "good m R" and "inv p" and "rem p \<le> m" and "kind (cur p) \<noteq> TOK_EOF"
  shows "wp (parse_function_stmt R) (stres p) p"
  unfolding parse_function_stmt_def using assms
  by (auto simp: res_defs Let_def intro!: adv_rule fail_rule resolve_rule check_assignable_rule function_target_spec [OF g, THEN sres_rule]
      split: option.split del: subsetI; simp)

section \<open>Statements and blocks\<close>

lemma parse_stmt_spec:
  assumes g: "good m R" and "inv p" and "rem p \<le> m" and "bl p" and "kind (cur p) \<noteq> TOK_EOF"
  shows "wp (parse_stmt R) (stres p) p"
proof -
  have fl: "wp (Parser_Expr.fail msg) (stres p) p" for msg
    using assms(2) by (auto simp: res_defs intro!: fail_rule del: subsetI)
  have semi: "wp (do { _ \<leftarrow> advance; ret None }) (stres p) p"
    using assms(2,5) by (auto simp: res_defs intro!: adv_rule del: subsetI)
  note specs = parse_local_spec [OF g assms(2,3,5)] parse_function_stmt_spec [OF g assms(2,3,5)] parse_if_spec [OF g assms(2,3,5)]
    parse_while_spec [OF g assms(2,3,5)] parse_do_spec [OF g assms(2,3,5)] parse_return_spec [OF g assms(2,3,5)]
    parse_for_spec [OF g assms(2,3,5)] parse_repeat_spec [OF g assms(2,3,5)] parse_break_spec [OF assms(2,5)]
    parse_goto_spec [OF assms(2,5)] parse_label_spec [OF assms(2,5,4)] parse_ident_stmt_spec [OF g assms(2,3)]
    parse_global_spec [OF g assms(2,3,5)]
  show ?thesis
    by (cases "kind (cur p)") (use assms(2) in \<open>simp_all add: parse_stmt_def specs fl semi [simplified]\<close>)
qed

lemma block_loop_spec:
  assumes g: "good m R"
  shows "inv p \<Longrightarrow> rem p \<le> m \<or> \<not> pok p \<Longrightarrow> rem p < n \<or> \<not> pok p \<and> 0 < n \<Longrightarrow> bl p \<Longrightarrow>
    (\<And>s. fut s \<subseteq> fut p \<Longrightarrow> \<forall>x\<in>set acc. wf_stmt (env_of s) x) \<Longrightarrow>
    wp (block_loop R n stops acc)
      (\<lambda>sts q. sst p q \<and> (\<forall>s. fut s \<subseteq> fut q \<longrightarrow> (\<forall>x\<in>set sts. wf_stmt (env_of s) x))) p"
proof (induction n arbitrary: p acc)
  case (Suc n)
  show ?case
  proof (cases "pok p \<and> \<not> is_block_end (kind (cur p)) stops")
    case False
    with Suc.prems show ?thesis by (auto simp: block_loop.simps)
  next
    case True
    then have k: "kind (cur p) \<noteq> TOK_EOF" by (simp add: is_block_end_def)
    have st: "wp (parse_stmt R) (stres p) p"
      by (rule parse_stmt_spec [OF g Suc.prems(1) _ Suc.prems(4) k]) (use True Suc.prems(2) in simp)
    have step: "wp (do { ok \<leftarrow> gets pok; if \<not> ok then ret acc
        else block_loop R n stops (case r of None \<Rightarrow> acc | Some s \<Rightarrow> acc @ [s]) })
        (\<lambda>sts q. sst p q \<and> (\<forall>s. fut s \<subseteq> fut q \<longrightarrow> (\<forall>x\<in>set sts. wf_stmt (env_of s) x))) q"
      if r: "stres p r q" for r q
    proof -
      from r have q: "inv q" "fut q \<subseteq> fut p" "rem q \<le> rem p" "nid p \<le> nid q" by (simp_all add: res_defs)
      let ?acc = "case r of None \<Rightarrow> acc | Some s \<Rightarrow> acc @ [s]"
      have acc: "\<forall>x\<in>set ?acc. wf_stmt (env_of s) x" if s: "fut s \<subseteq> fut q" for s
      proof -
        have "fut s \<subseteq> fut p" using s q(2) by order
        then show ?thesis using r s Suc.prems(5) by (auto simp: stres_def split: option.splits)
      qed
      show "wp (do { ok \<leftarrow> gets pok; if \<not> ok then ret acc else block_loop R n stops ?acc })
          (\<lambda>sts q. sst p q \<and> (\<forall>s. fut s \<subseteq> fut q \<longrightarrow> (\<forall>x\<in>set sts. wf_stmt (env_of s) x))) q"
      proof (cases "pok q")
        case False
        have "\<forall>x\<in>set acc. wf_stmt (env_of s) x" if "fut s \<subseteq> fut q" for s
          using acc [OF that] by (auto split: option.splits)
        with False q show ?thesis by (simp add: sst_def)
      next
        case True
        with r have l: "rem q < rem p" by (simp add: stres_def)
        have "wp (block_loop R n stops ?acc)
            (\<lambda>sts t. sst q t \<and> (\<forall>s. fut s \<subseteq> fut t \<longrightarrow> (\<forall>x\<in>set sts. wf_stmt (env_of s) x))) q"
          by (rule Suc.IH [OF q(1) _ _ bl_up [OF Suc.prems(4) q(2) Suc.prems(1)] acc])
            (use l Suc.prems(2,3) \<open>pok p \<and> _\<close> in auto)
        moreover have "sst p q" using q by (simp add: sst_def)
        ultimately have "wp (block_loop R n stops ?acc)
            (\<lambda>sts t. sst p t \<and> (\<forall>s. fut s \<subseteq> fut t \<longrightarrow> (\<forall>x\<in>set sts. wf_stmt (env_of s) x))) q"
          by (elim wp_mono) (blast intro: sst_trans)
        then show ?thesis using True by simp
      qed
    qed
    show ?thesis using True Suc.prems(1)
      by (simp add: block_loop.simps) (rule wp_mono [OF st], rule step)
  qed
qed simp

text \<open>A block restores what it changes of the enclosing block.\<close>

lemma parse_block_spec:
  assumes g: "good m R" and p: "inv p" and r: "rem p \<le> m \<or> \<not> pok p"
  shows "wp (parse_block R stops) (bres p) p"
proof -
  obtain p1 where p1: "p1 = p\<lparr>blk_gotos := length (gotos p), blk_nactvar := length (locs p)\<rparr>" by simp
  have same: "inv p1" "env_of p1 = env_of p" "rem p1 = rem p" "nid p1 = nid p" "pok p1 = pok p" "locs p1 = locs p" "bl p1"
    using p by (simp_all add: p1 inv_def nid_def env_of_def slots_def rem_def locs_def bl_def)
  have loop: "wp (block_loop R (rec_fuel R) stops [])
      (\<lambda>sts q. sst p1 q \<and> (\<forall>s. fut s \<subseteq> fut q \<longrightarrow> (\<forall>x\<in>set sts. wf_stmt (env_of s) x))) p1"
    by (rule block_loop_spec [OF g same(1) _ _ same(7)]) (use r same g in auto)
  have fin: "wp (do { l \<leftarrow> last_line;
        _ \<leftarrow> modify (\<lambda>q. q\<lparr>labels := take (length (labels p)) (labels q), blk_gotos := blk_gotos p, blk_nactvar := blk_nactvar p\<rparr>);
        ret (Block sts l) }) (bres p) q"
    if q: "sst p1 q" and w: "\<forall>s. fut s \<subseteq> fut q \<longrightarrow> (\<forall>x\<in>set sts. wf_stmt (env_of s) x)" for sts q
  proof -
    obtain q1 where q1: "q1 = q\<lparr>labels := take (length (labels p)) (labels q), blk_gotos := blk_gotos p, blk_nactvar := blk_nactvar p\<rparr>"
      by simp
    have iq: "inv q" using q by (simp add: sst_def)
    then have s1: "inv q1" "env_of q1 = env_of q" "rem q1 = rem q" "nid q1 = nid q"
      by (simp_all add: q1 inv_def nid_def env_of_def slots_def rem_def)
    have "ext0 p1 q" using q by (simp add: sst_def fut_iff)
    then have "ext0 p q1" by (simp add: ext0_def p1 q1)
    then have f: "sst p q1" using q s1 same by (simp add: sst_def fut_iff)
    have "\<forall>x\<in>set sts. wf_stmt (env_of s) x" if "fut s \<subseteq> fut q1" for s
    proof -
      have "\<forall>x\<in>set sts. wf_stmt (env_of q1) x" using w s1(2) by simp
      then show ?thesis using wf_stmt_mono [OF _ env_of_mono [OF that]] s1(1) by auto
    qed
    with f have "bres p (Block sts l) q1" for l by (simp add: bres_def)
    then show ?thesis using iq by (auto simp: wp_modify q1 [symmetric] intro!: wp_last_line)
  qed
  show ?thesis
    unfolding parse_block_def using p
    by (simp add: wp_local_count wp_modify mark_def p1 [symmetric])
      (rule wp_mono [OF loop], use fin in simp)
qed

end
