(* ===== verification/Parser_Total.thy ===== *)
theory Parser_Total
  imports Parser_Wf_Block
begin

text \<open>
  Function bodies and the whole parser: by induction on the bound every recursive function keeps the
  invariant, so \<open>parse\<close> never runs out of its bound, accesses memory outside its arrays only when the
  source has more than 256 identifiers, and returns a well-scoped program.
\<close>

section \<open>Function bodies\<close>

lemma wp_bind_fun: "wp (m \<bind> f) Q = wp m (\<lambda>a. wp (f a) Q)"
  by (rule ext) simp

lemma wp_modify_fun: "wp (modify f) Q = (\<lambda>p. Q () (f p))"
  by (rule ext) (simp add: wp_modify)

lemma wp_ret_fun: "wp (ret a) Q = Q a"
  by (rule ext) simp

lemma named_vararg_frame:
  assumes "inv p" and "slots p < nid p" and "length (locs p) < MAX_LOCALS_PER_FN"
  shows "inv (set_hd ((frame_mark_last_const ((snd (frame_declare n (hd (frames p))))\<lparr>vararg_slot := Some (slots p)\<rparr>))\<lparr>vararg_name := n\<rparr>) p)"
    and "fut (set_hd ((frame_mark_last_const ((snd (frame_declare n (hd (frames p))))\<lparr>vararg_slot := Some (slots p)\<rparr>))\<lparr>vararg_name := n\<rparr>) p) \<subseteq> fut p"
    and "slots (set_hd ((frame_mark_last_const ((snd (frame_declare n (hd (frames p))))\<lparr>vararg_slot := Some (slots p)\<rparr>))\<lparr>vararg_name := n\<rparr>) p) = Suc (slots p)"
proof -
  let ?f = "hd (frames p)"
  let ?g = "(frame_mark_last_const ((snd (frame_declare n ?f))\<lparr>vararg_slot := Some (slots p)\<rparr>))\<lparr>vararg_name := n\<rparr>"
  have f: "fr_ok (nid p) ?f" "length (locals ?f) < MAX_LOCALS_PER_FN" "next_slot ?f = slots p" "slots p < nid p"
    using assms inv_hd by (auto simp: locs_def slots_def)
  have g: "cap_le ?f ?g" "upvalues ?g = upvalues ?f" "next_slot ?g = Suc (slots p)"
    using f by (auto simp: cap_le_def upv_le_def frame_declare_def frame_mark_last_const_def set_last_attrib_def)
  have "fr_ok (nid p) ?g"
    using f by (auto simp: fr_ok_def frame_declare_def frame_mark_last_const_def set_last_attrib_def less_Suc_eq)
  with g show "inv (set_hd ?g p)" by (intro inv_set_hd [OF assms(1)]) (simp_all add: cap_le_def)
  show "fut (set_hd ?g p) \<subseteq> fut p" by (rule fut_set_hd [OF assms(1) g(1)])
  show "slots (set_hd ?g p) = Suc (slots p)" using g(3) by simp
qed

lemma vararg_flag:
  assumes "inv p"
  shows "inv (set_hd ((hd (frames p))\<lparr>is_vararg := True\<rparr>) p)" and "fut (set_hd ((hd (frames p))\<lparr>is_vararg := True\<rparr>) p) \<subseteq> fut p"
    and "inv (set_hd ((hd (frames p))\<lparr>vararg_slot := None\<rparr>) p)" and "fut (set_hd ((hd (frames p))\<lparr>vararg_slot := None\<rparr>) p) \<subseteq> fut p"
  using inv_hd [OF assms]
  by (auto intro!: inv_set_hd [OF assms] fut_set_hd [OF assms] simp: cap_le_def upv_le_def fr_ok_def simp del: set_hd_id)

lemma named_vararg_spec:
  assumes t: "inv t" and "slots t < nid t"
  shows "wp (do {
      s \<leftarrow> on_frame (frame_declare n) None;
      _ \<leftarrow> upd_frame (\<lambda>f. f\<lparr>vararg_slot := s\<rparr>);
      if s = None then Parser_State.error msg
      else upd_frame (\<lambda>f. (frame_mark_last_const f)\<lparr>vararg_name := n\<rparr>) })
      (\<lambda>u q. sst t q \<and> slots t \<le> slots q) t"
proof (cases "length (locs t) < MAX_LOCALS_PER_FN")
  case True
  note g = named_vararg_frame [OF assms True, of n]
  from True t have "wp (on_frame (frame_declare n) None) Q t = Q (Some (slots t)) (decl n t)" for Q
    by (simp add: wp_declare)
  then show ?thesis using g by (simp add: wp_on_frame decl_def sst_def del: set_hd_same(2))
next
  case False
  note g = vararg_flag(3,4) [OF t]
  let ?q = "set_hd ((hd (frames t))\<lparr>vararg_slot := None\<rparr>) t"
  have s: "slots ?q = slots t" by (simp add: slots_def)
  from False have "frame_declare n (hd (frames t)) = (None, hd (frames t))"
    by (simp add: frame_declare_def locs_def)
  moreover have "wp (Parser_State.error msg) (\<lambda>u q. sst t q \<and> slots t \<le> slots q) ?q"
  proof (rule err_rule [OF g(1)])
    fix q assume q: "inv q" "fut q \<subseteq> fut ?q" "slots q = slots ?q" "rem q = rem ?q" "nid ?q = nid q"
    have "fut q \<subseteq> fut t" using q(2) g(2) by (rule order_trans)
    with q s show "sst t q \<and> slots t \<le> slots q" by (simp add: sst_def)
  qed
  ultimately show ?thesis using inv_frames [OF t] by (simp add: wp_on_frame)
qed

lemma named_vararg_rule:
  assumes "inv t" and "slots t < nid t"
    and "\<And>q. inv q \<Longrightarrow> fut q \<subseteq> fut t \<Longrightarrow> rem q \<le> rem t \<Longrightarrow> nid t \<le> nid q \<Longrightarrow> slots t \<le> slots q \<Longrightarrow> Q () q"
  shows "wp (on_frame (frame_declare n) None) (\<lambda>s. wp (upd_frame (\<lambda>f. f\<lparr>vararg_slot := s\<rparr>)) (\<lambda>u.
      wp (if s = None then Parser_State.error msg
      else upd_frame (\<lambda>f. (frame_mark_last_const f)\<lparr>vararg_name := n\<rparr>)) Q)) t"
proof -
  have "wp (do {
      s \<leftarrow> on_frame (frame_declare n) None;
      _ \<leftarrow> upd_frame (\<lambda>f. f\<lparr>vararg_slot := s\<rparr>);
      if s = None then Parser_State.error msg
      else upd_frame (\<lambda>f. (frame_mark_last_const f)\<lparr>vararg_name := n\<rparr>) }) Q t"
    by (rule wp_mono [OF named_vararg_spec [OF assms(1,2)]]) (use assms(3) in \<open>auto simp: sst_def\<close>)
  then show ?thesis by (simp only: wp_bind_fun)
qed

lemma vararg_param_spec:
  assumes "inv p" and "kind (cur p) \<noteq> TOK_EOF"
  shows "wp vararg_param (\<lambda>u q. sst p q \<and> slots p \<le> slots q) p"
proof -
  have flag: "wp (upd_frame (\<lambda>f. f\<lparr>is_vararg := True\<rparr>)) Q q"
    if "inv q" and "\<And>t. inv t \<Longrightarrow> fut t \<subseteq> fut q \<Longrightarrow> rem t = rem q \<Longrightarrow> nid t = nid q \<Longrightarrow> slots t = slots q \<Longrightarrow> Q () t" for Q q
    using that vararg_flag(1,2) [OF that(1)] by (simp add: wp_on_frame slots_def)
  show ?thesis
    unfolding vararg_param_def using assms
    by (auto simp: sst_def wp_bind_fun intro!: adv_slot_rule flag named_vararg_rule del: subsetI; simp)
qed

text \<open>The parameters take the first slots.\<close>

lemma param_loop_spec:
  "inv p \<Longrightarrow> rem p < n \<Longrightarrow> k \<le> slots p \<Longrightarrow> wp (param_loop n k) (\<lambda>k q. sst p q \<and> k \<le> slots q) p"
proof (induction n arbitrary: p k)
  case (Suc n)
  have va: "wp vararg_param Q q"
    if "inv q" "kind (cur q) \<noteq> TOK_EOF" "\<And>t. inv t \<Longrightarrow> fut t \<subseteq> fut q \<Longrightarrow> rem t \<le> rem q \<Longrightarrow> nid q \<le> nid t \<Longrightarrow> slots q \<le> slots t \<Longrightarrow> Q () t" for Q q
    by (rule wp_mono [OF vararg_param_spec [OF that(1,2)]]) (use that(3) in \<open>auto simp: sst_def\<close>)
  have IH: "wp (param_loop n k) Q q"
    if "inv q" "rem q < n" "k \<le> slots q" "\<And>k t. inv t \<Longrightarrow> fut t \<subseteq> fut q \<Longrightarrow> rem t \<le> rem q \<Longrightarrow> nid q \<le> nid t \<Longrightarrow> k \<le> slots t \<Longrightarrow> Q k t" for Q q k
    by (rule wp_mono [OF Suc.IH [OF that(1-3)]]) (use that(4) in \<open>auto simp: sst_def\<close>)
  show ?case using Suc.prems
    by (auto simp: param_loop.simps sst_def intro!: va IH adv_slot_rule err_rule declare_rule match_rule del: subsetI; simp)
qed simp

lemma pok_up: "fut q \<subseteq> fut p \<Longrightarrow> pok q \<Longrightarrow> pok p"
  by (simp add: fut_iff ext0_def)

lemma wf_block_items [simp]: "wf_block v (Block (items b) l) = wf_block v b"
  by (cases b) simp

lemma wf_prepend:
  assumes "wf_block v b" and "\<And>s. vararg_slot f = Some s \<Longrightarrow> s < e_slots v"
  shows "wf_block v (prepend_vararg_decl b f l)"
  using assms by (cases b) (auto simp: prepend_vararg_decl_def vararg_decl_def split: option.split)

text \<open>The header of a function up to its body, and the body up to the final record.\<close>

lemma params_spec:
  assumes g: "good m R" and e: "inv p" and m: "rem p \<le> m" and k: "k \<le> slots p"
  shows "wp (do {
     _ \<leftarrow> expect TOK_LPAREN a;
     t \<leftarrow> Parser_State.peek;
     n \<leftarrow> (if kind t \<noteq> TOK_RPAREN then param_loop (rec_fuel R) k else ret k);
     _ \<leftarrow> expect TOK_RPAREN b;
     ret n })
    (\<lambda>n q. sst p q \<and> n \<le> slots q \<and> (pok q \<longrightarrow> rem q < rem p)) p"
proof -
  have loop: "wp (param_loop n k) Q q"
    if "inv q" "rem q < n" "k \<le> slots q" "\<And>k t. inv t \<Longrightarrow> fut t \<subseteq> fut q \<Longrightarrow> rem t \<le> rem q \<Longrightarrow> nid q \<le> nid t \<Longrightarrow> k \<le> slots t \<Longrightarrow> Q k t" for Q q k n
    by (rule wp_mono [OF param_loop_spec [OF that(1-3)]]) (use that(4) in \<open>auto simp: sst_def\<close>)
  show ?thesis using e m k g
    by (auto simp: sst_def intro!: wp_expect' loop del: subsetI; simp; (use pok_up in fastforce)?)
qed

lemma params_rule:
  assumes "good m R" and "inv p" and "rem p \<le> m" and "k \<le> slots p"
    and "\<And>n q. inv q \<Longrightarrow> fut q \<subseteq> fut p \<Longrightarrow> rem q \<le> rem p \<Longrightarrow> nid p \<le> nid q \<Longrightarrow> n \<le> slots q
      \<Longrightarrow> (pok q \<Longrightarrow> rem q < rem p) \<Longrightarrow> Q n q"
  shows "wp (expect TOK_LPAREN a) (\<lambda>_. wp Parser_State.peek (\<lambda>t.
     wp (if kind t \<noteq> TOK_RPAREN then param_loop (rec_fuel R) k else ret k) (\<lambda>n.
     wp (expect TOK_RPAREN b) (\<lambda>_. Q n)))) p"
proof -
  have "wp (do {
     _ \<leftarrow> expect TOK_LPAREN a;
     t \<leftarrow> Parser_State.peek;
     n \<leftarrow> (if kind t \<noteq> TOK_RPAREN then param_loop (rec_fuel R) k else ret k);
     _ \<leftarrow> expect TOK_RPAREN b;
     ret n }) Q p"
    by (rule wp_mono [OF params_spec [OF assms(1-4)]]) (use assms(5) in \<open>auto simp: sst_def\<close>)
  then show ?thesis by (simp only: wp_bind_fun wp_ret_fun)
qed

text \<open>The body, from the parameters on.\<close>

lemma body_spec:
  assumes g: "good m R" and p: "inv p" and r: "rem p < m \<or> \<not> pok p \<and> 0 < m"
    and Q: "\<And>b q. inv q \<Longrightarrow> fut q \<subseteq> fut p \<Longrightarrow> rem q \<le> rem p \<Longrightarrow> nid p \<le> nid q \<Longrightarrow> wf_block (env_of q) b
      \<Longrightarrow> Q (Some i) (finish_function i n b q)"
  shows "wp (function_code R line i n) Q p"
proof -
  have ok: "Q (Some i) (finish_function i n (prepend_vararg_decl (Block (items b) l) f line) q)"
    if "inv q" "fut q \<subseteq> fut p" "rem q \<le> rem p" "nid p \<le> nid q" "\<And>s. fut s \<subseteq> fut q \<Longrightarrow> wf_block (env_of s) b"
      "\<And>i s. vararg_slot f = Some i \<Longrightarrow> fut s \<subseteq> fut q \<Longrightarrow> i < slots s" for q b f l
    by (rule Q) (use that in \<open>auto simp del: wf_block.simps intro!: wf_prepend\<close>)
  have bad: "Q (Some i) (finish_function i n (Block (items b) l) q)"
    if "inv q" "fut q \<subseteq> fut p" "rem q \<le> rem p" "nid p \<le> nid q" "\<And>s. fut s \<subseteq> fut q \<Longrightarrow> wf_block (env_of s) b"
    for q b l
    by (rule Q) (use that in \<open>auto simp del: wf_block.simps\<close>)
  show ?thesis
    unfolding function_code_def parse_block1_def using p r
    by (auto simp: quiet_def Let_def wp_modify [where f = "finish_function i n b" for b] simp del: set_hd_id
        intro!: modify_rule block_rule [OF g] expect_rule wp_last_line frame_rule ok bad del: subsetI; simp)
qed

text \<open>A whole function: its frame is open while the header and the body are read.\<close>

lemma function_rest_spec:
  assumes g: "good m R" and p: "inv p" and r: "rem p \<le> m" and s: "slots p = 0" "locs p = []" and self: "self \<longrightarrow> 0 < nid p"
    and Q: "\<And>n b q. inv q \<Longrightarrow> fut q \<subseteq> fut p \<Longrightarrow> rem q \<le> rem p \<Longrightarrow> nid p \<le> nid q \<Longrightarrow> n \<le> slots q
      \<Longrightarrow> wf_block (env_of q) b \<Longrightarrow> Q (Some i) (finish_function i n b q)"
  shows "wp (function_rest R line self i) Q p"
proof -
  have m: "0 < m" using inv_rem [OF p] r by simp
  have code: "wp (function_code R line i n) Q q"
    if q: "inv q" "fut q \<subseteq> fut p" "rem q \<le> rem p" "nid p \<le> nid q" "n \<le> slots q" "pok q \<Longrightarrow> rem q < rem p" for q n
  proof (rule body_spec [OF g q(1)])
    show "rem q < m \<or> \<not> pok q \<and> 0 < m" using q(6) r m by auto
  next
    fix b u assume u: "inv u" "fut u \<subseteq> fut q" "rem u \<le> rem q" "nid q \<le> nid u" "wf_block (env_of u) b"
    have "slots q \<le> slots u" using u(2) inv_frames [OF q(1)] by (auto simp: fut_iff ext0_def cap_le_def upv_le_def slots_def)
    moreover have "fut u \<subseteq> fut p" using u(2) q(2) by order
    ultimately show "Q (Some i) (finish_function i n b u)" using u q by (intro Q) auto
  qed
  have rest: "wp (expect TOK_LPAREN a) (\<lambda>_. wp Parser_State.peek (\<lambda>t.
       wp (if kind t \<noteq> TOK_RPAREN then param_loop (rec_fuel R) k else ret k) (\<lambda>n.
       wp (expect TOK_RPAREN b) (\<lambda>_. wp (function_code R line i n) Q)))) q"
    if q: "inv q" "fut q \<subseteq> fut p" "rem q = rem p" "nid q = nid p" "k \<le> slots q" for q k a b
  proof (rule params_rule [OF g q(1) _ q(5)])
    fix n t assume t: "inv t" "fut t \<subseteq> fut q" "rem t \<le> rem q" "nid q \<le> nid t" "n \<le> slots t" "pok t \<Longrightarrow> rem t < rem q"
    then have "fut t \<subseteq> fut p" using q(2) by order
    then show "wp (function_code R line i n) Q t" using t q by (intro code) auto
  qed (use q r in simp)
  show ?thesis
  proof (cases self)
    case False
    then show ?thesis unfolding function_rest_def wp_bind_fun using rest [of p 0] p by simp
  next
    case True
    have l: "length (locs p) < MAX_LOCALS_PER_FN" using s by (simp add: max_defs)
    have "slots p < nid p" using True self s by simp
    then have d: "inv (decl ''self'' p)" "fut (decl ''self'' p) \<subseteq> fut p" using inv_decl [OF p _ l] fut_decl [OF p] by auto
    show ?thesis unfolding function_rest_def wp_bind_fun using True p l s
      by (simp add: wp_declare) (rule rest [OF d, simplified]; simp add: decl_same [OF l] s)
  qed
qed

lemma est_fres: "est p q \<Longrightarrow> \<not> pok q \<Longrightarrow> fres p None q"
  by (simp add: eres_def)

lemma parse_function_body_ex_spec:
  assumes g: "good m R" and p: "inv p" and r: "rem p \<le> m" and self: "self \<longrightarrow> 0 < nid p"
  shows "wp (parse_function_body_ex R line self) (fres p) p"
proof -
  let ?i = "length (funcs p)"
  have "wp (function_rest R line self ?i) (\<lambda>r q. fres p r (q\<lparr>frames := tl (frames q), cur_fn := cur_fn p\<rparr>)) (entered line p)"
    if "length (funcs p) < MAX_FUNCS" "length (frames p) < MAX_FRAME_DEPTH"
  proof (rule function_rest_spec [OF g inv_entered [OF p that]])
    fix n b q assume q: "inv q" "fut q \<subseteq> fut (entered line p)" "rem q \<le> rem (entered line p)" "nid (entered line p) \<le> nid q"
      "n \<le> slots q" "wf_block (env_of q) b"
    have l: "(finish_function ?i n b q)\<lparr>frames := tl (frames (finish_function ?i n b q)), cur_fn := cur_fn p\<rparr> = left p ?i n b q"
      by (simp add: left_def Let_def)
    note L = left_ok [OF p q(1,2) refl q(5,6)]
    have k: "?i \<in> kids_of (funcs s) (cur_fn s)" if "fut s \<subseteq> fut (left p ?i n b q)" for s
      using that L(2) q kids_of_prefix by (fastforce simp: fut_iff ext0_def)
    show "fres p (Some ?i) ((finish_function ?i n b q)\<lparr>frames := tl (frames (finish_function ?i n b q)), cur_fn := cur_fn p\<rparr>)"
      unfolding l eres_def using L q k by simp
  qed (use r self in auto)
  then show ?thesis unfolding parse_function_body_ex_def using p
    by (auto simp: wp_bind_fun wp_modify_fun wp_ret_fun est_fres intro!: wp_enter_function)
qed

section \<open>The knot\<close>

text \<open>With bound \<open>n\<close> every recursive function is good on fewer than \<open>n\<close> remaining tokens.\<close>

lemma parser_at_good: "good n (parser_at n)"
proof (induction n)
  case 0
  then show ?case by (simp add: good_def)
next
  case (Suc n)
  have "wp (parse_prec (parser_at n) k) (eres (Suc 0) we p) p" if "1 \<le> k" "inv p" "rem p < Suc n" for k p
    using parse_prec_spec [OF Suc] that by simp
  moreover have "wp (parse_block (parser_at n) stops) (bres p) p" if "inv p" "rem p < Suc n \<or> \<not> pok p" for stops p
    by (rule parse_block_spec [OF Suc that(1)]) (use that(2) in auto)
  moreover have "wp (parse_function_body_ex (parser_at n) line self) (fres p) p"
    if "inv p" "rem p < Suc n" "self \<longrightarrow> 0 < nid p" for line self p
    using parse_function_body_ex_spec [OF Suc] that by simp
  ultimately show ?case by (simp add: good_def)
qed

lemma declare_all_same:
  assumes "p = p0\<lparr>globals := gs\<rparr>" and "distinct gs" and "length gs + length ns \<le> MAX_GLOBALS"
  shows "\<exists>gs'. declare_all ns p = p0\<lparr>globals := gs'\<rparr> \<and> distinct gs' \<and> length gs' \<le> length gs + length ns"
  using assms
proof (induction ns arbitrary: p gs)
  case Nil
  then show ?case by (auto simp: declare_all_def)
next
  case (Cons n ns)
  obtain gs1 where g: "snd (globals_declare n p) = p0\<lparr>globals := gs1\<rparr>" "distinct gs1" "length gs1 \<le> Suc (length gs)"
  proof (cases "n \<in> set gs")
    case True
    with Cons.prems(1) show thesis
      using that [of gs] Cons.prems(2) by (cases "index_from 0 gs n")
        (auto simp: globals_declare_def globals_lookup_def dest: index_from_None [THEN iffD1])
  next
    case False
    then have "index_from 0 gs n = None" by (simp add: index_from_None)
    with Cons.prems False show thesis
      using that [of "gs @ [n]"] by (simp add: globals_declare_def globals_lookup_def)
  qed
  have "\<exists>gs'. declare_all ns (snd (globals_declare n p)) = p0\<lparr>globals := gs'\<rparr> \<and> distinct gs'
      \<and> length gs' \<le> length gs1 + length ns"
    by (rule Cons.IH [OF g(1,2)]) (use g(3) Cons.prems in simp)
  then show ?case using g(3) by (fastforce simp: declare_all_def)
qed

lemma inv_parser_init:
  assumes "ts \<noteq> []" and "kind (last ts) = TOK_EOF"
  shows "inv (parser_init ts)" and "frames (parser_init ts) = [frame_init]" and "cur_fn (parser_init ts) = None"
    and "rem (parser_init ts) = length ts" and "ptoks (parser_init ts) = ts"
proof -
  let ?p = "\<lparr>ptoks = ts, pos = 0, frames = [frame_init], funcs = [], cur_fn = None, globals = [],
        labels = [], gotos = [], fn_labels = 0, fn_gotos = 0, blk_gotos = 0, blk_nactvar = 0,
        perror = [], pok = True, oob = False, nofuel = False\<rparr>"
  obtain gs where g: "parser_init ts = ?p\<lparr>globals := gs\<rparr>" "distinct gs" "length gs \<le> MAX_GLOBALS"
    using declare_all_same [where ?p0.0 = ?p and gs = "[]" and ns = predeclared] by (auto simp: parser_init_def predeclared_def max_defs)
  have "upvalues frame_init = []" by (simp add: frame_init_def)
  with g assms show "inv (parser_init ts)"
    by (simp add: inv_def funcs_ok_def kids_of_def max_defs)
  show "frames (parser_init ts) = [frame_init]" "cur_fn (parser_init ts) = None" "rem (parser_init ts) = length ts"
    "ptoks (parser_init ts) = ts" using g by (simp_all add: rem_def)
qed

text \<open>What the code generator relies on: every index of the trees is in its table.\<close>

definition wf_program :: "ParseResult \<Rightarrow> bool" where
  "wf_program r \<longleftrightarrow>
     (let Fs = pr_funcs r; gs = pr_globals r; n = main_n_locals r in
      length Fs \<le> MAX_FUNCS \<and> length gs \<le> MAX_GLOBALS \<and> distinct gs
      \<and> n \<le> MAX_LOCALS_PER_FN \<and> length (main_captured r) = n
      \<and> wf_block \<lparr>e_slots = n, e_upvals = 0, e_globals = gs, e_kids = kids_of Fs None\<rparr> (main_body r)
      \<and> (\<forall>j\<in>kids_of Fs None. \<forall>u\<in>set (lf_upvalues (Fs ! j)). upv_ok n 0 (main_captured r) u)
      \<and> (\<forall>i<length Fs. fun_ok True gs Fs i \<and> inner_ok Fs i))"

lemma parse_cases:
  assumes "ts \<noteq> []" and "kind (last ts) = TOK_EOF"
  shows "(\<exists>r. parse ts = ParseDone r \<and> wf_program r)
    \<or> parse ts = ParseUndefined \<and> MAX_LOCALS_PER_FN < length (filter (\<lambda>t. kind t = TOK_IDENT) ts)"
proof -
  let ?p = "parser_init ts" and ?R = "parser_at (length ts + 1)"
  note I = inv_parser_init [OF assms]
  obtain main q where run: "run_state (parse_block ?R [TOK_EOF]) ?p = (main, q)" by fastforce
  have "wp (parse_block ?R [TOK_EOF]) (bres ?p) ?p"
    by (rule parse_block_spec [OF parser_at_good I(1)]) (simp add: I(4))
  then have "bres ?p main q" using run by (simp add: wp_def)
  then have q: "inv q" and e: "ext0 ?p q" and w: "wf_block (env_of q) main" by (auto simp: bres_def sst_def fut_iff)
  from e I obtain f where f: "frames q = [f]" by (auto simp: ext0_def length_Suc_conv)
  from e I have c: "cur_fn q = None" "ptoks q = ts" by (auto simp: ext0_def)
  from q f have fr: "fr_ok (nid q) f" "\<not> nofuel q" by (auto simp: inv_def)
  have n: "nid q \<le> length (filter (\<lambda>t. kind t = TOK_IDENT) ts)"
  proof -
    have "filter P ts = filter P (take (pos q) ts) @ filter P (drop (pos q) ts)" for P
      by (metis append_take_drop_id filter_append)
    then show ?thesis by (simp add: nid_def c)
  qed
  show ?thesis
  proof (cases "oob q \<or> next_slot f > length (captured f)")
    case True
    then have "MAX_LOCALS_PER_FN < nid q" using q fr by (auto simp: inv_def fr_ok_def)
    with n True run f fr show ?thesis by (simp add: parse_def parse_bounded_def Let_def)
  next
    case False
    have F: "funcs_ok True (globals q) (funcs q) None [f]" using q False f c by (simp add: inv_def)
    then have k: "upvs_ok f (lf_upvalues (funcs q ! j))" "upvalues f = []" if "j \<in> kids_of (funcs q) None" for j
      using that by (auto simp: funcs_ok_def)
    have "upvalues f = []" using F by (simp add: funcs_ok_def)
    with w f c have w': "wf_block \<lparr>e_slots = next_slot f, e_upvals = 0, e_globals = globals q, e_kids = kids_of (funcs q) None\<rparr> main"
      by (simp add: env_of_def slots_def)
    have u: "upv_ok (next_slot f) 0 (take (next_slot f) (captured f)) u"
      if "j \<in> kids_of (funcs q) None" "u \<in> set (lf_upvalues (funcs q ! j))" for j u
      using k [OF that(1)] that(2) upv_ok_take by (force simp: upvs_ok_def)
    show ?thesis using run f fr False F w' u q
      by (auto simp: parse_def parse_bounded_def Let_def wf_program_def funcs_ok_def fr_ok_def inv_def)
  qed
qed

end
