(* ===== verification/Parser_Print.thy ===== *)
theory Parser_Print
  imports Parser_Inv
begin

text \<open>
  Operator expressions: printed with only the parentheses that the tree records, they are parsed back to
  the same tree, so the precedence climbing implements the operators' levels and associativity.
\<close>

section \<open>Printing\<close>

text \<open>The token of an operator, its level, and the levels its operands are parsed at.\<close>

fun op_kind :: "BinOp \<Rightarrow> TokKind" where
  "op_kind BIN_ADD = TOK_PLUS"
| "op_kind BIN_SUB = TOK_MINUS"
| "op_kind BIN_MUL = TOK_STAR"
| "op_kind BIN_DIV = TOK_SLASH"
| "op_kind BIN_FDIV = TOK_DSLASH"
| "op_kind BIN_MOD = TOK_PERCENT"
| "op_kind BIN_POW = TOK_CARET"
| "op_kind BIN_BAND = TOK_AMP"
| "op_kind BIN_BOR = TOK_PIPE"
| "op_kind BIN_BXOR = TOK_TILDE"
| "op_kind BIN_SHL = TOK_SHL"
| "op_kind BIN_SHR = TOK_SHR"
| "op_kind BIN_CONCAT = TOK_CONCAT"
| "op_kind BIN_EQ = TOK_EQ"
| "op_kind BIN_NEQ = TOK_NEQ"
| "op_kind BIN_LT = TOK_LT"
| "op_kind BIN_LE = TOK_LE"
| "op_kind BIN_GT = TOK_GT"
| "op_kind BIN_GE = TOK_GE"
| "op_kind BIN_AND = TOK_KW_AND"
| "op_kind BIN_OR = TOK_KW_OR"

fun sign_kind :: "UnOp \<Rightarrow> TokKind" where
  "sign_kind UN_NEG = TOK_MINUS"
| "sign_kind UN_NOT = TOK_KW_NOT"
| "sign_kind UN_LEN = TOK_HASH"
| "sign_kind UN_BNOT = TOK_TILDE"

text \<open>The Lua manual's table: the level of an operator, and whether it groups to the right.\<close>

fun op_level :: "BinOp \<Rightarrow> nat" where
  "op_level BIN_OR = 1"
| "op_level BIN_AND = 2"
| "op_level BIN_BOR = 4"
| "op_level BIN_BXOR = 5"
| "op_level BIN_BAND = 6"
| "op_level BIN_SHL = 7"
| "op_level BIN_SHR = 7"
| "op_level BIN_CONCAT = 8"
| "op_level BIN_ADD = 9"
| "op_level BIN_SUB = 9"
| "op_level BIN_MUL = 10"
| "op_level BIN_DIV = 10"
| "op_level BIN_FDIV = 10"
| "op_level BIN_MOD = 10"
| "op_level BIN_POW = 12"
| "op_level _ = 3"

definition groups_right :: "BinOp \<Rightarrow> bool" where
  "groups_right b \<longleftrightarrow> b = BIN_CONCAT \<or> b = BIN_POW"

definition left_level :: "BinOp \<Rightarrow> nat" where
  "left_level b = (if groups_right b then op_level b + 1 else op_level b)"

definition right_level :: "BinOp \<Rightarrow> nat" where
  "right_level b = (if groups_right b then op_level b else op_level b + 1)"

definition a_tok :: "TokKind \<Rightarrow> nat \<Rightarrow> Token" where
  "a_tok k l = tok_zero\<lparr>kind := k, tline := l\<rparr>"

definition parens :: "bool \<Rightarrow> Token list \<Rightarrow> Token list" where
  "parens b ts = (if b then a_tok TOK_LPAREN 0 # ts @ [a_tok TOK_RPAREN 0] else ts)"

fun print_ops :: "Expr \<Rightarrow> Token list" where
  "print_ops (EXPR_NIL (l, b)) = parens b [a_tok TOK_KW_NIL l]"
| "print_ops (EXPR_TRUE (l, b)) = parens b [a_tok TOK_KW_TRUE l]"
| "print_ops (EXPR_FALSE (l, b)) = parens b [a_tok TOK_KW_FALSE l]"
| "print_ops (EXPR_INT (l, b) i) = parens b [(a_tok TOK_INT l)\<lparr>i_val := i\<rparr>]"
| "print_ops (EXPR_FLOAT (l, b) x) = parens b [(a_tok TOK_FLOAT l)\<lparr>f_val := x\<rparr>]"
| "print_ops (EXPR_STRING (l, b) s) = parens b [(a_tok TOK_STRING l)\<lparr>str_buf := s\<rparr>]"
| "print_ops (EXPR_VAR (l, b) n k i ro) = parens b [(a_tok TOK_IDENT l)\<lparr>tstart := n, tlen := length n\<rparr>]"
| "print_ops (EXPR_UNOP (l, b) u e) = parens b (a_tok (sign_kind u) l # print_ops e)"
| "print_ops (EXPR_BINOP (l, b) bo x y) = parens b (print_ops x @ a_tok (op_kind bo) l # print_ops y)"
| "print_ops e = []"

text \<open>
  The trees that need no more parentheses than they have: a tree in parentheses fits everywhere, an
  operator only where its level is allowed, a sign not to the left of \<open>^\<close>.
\<close>

definition fits_right :: "nat \<Rightarrow> Expr \<Rightarrow> bool" where
  "fits_right q e \<longleftrightarrow> snd (ehead e) \<or> (case e of EXPR_BINOP h b x y \<Rightarrow> q \<le> op_level b | _ \<Rightarrow> True)"

definition fits_left :: "nat \<Rightarrow> Expr \<Rightarrow> bool" where
  "fits_left q e \<longleftrightarrow> snd (ehead e)
     \<or> (case e of EXPR_BINOP h b x y \<Rightarrow> q \<le> op_level b | EXPR_UNOP h u x \<Rightarrow> q \<le> PREC_UNARY | _ \<Rightarrow> True)"

fun op_tree :: "FuncFrame \<Rightarrow> Expr \<Rightarrow> bool" where
  "op_tree f (EXPR_VAR h n k i ro) = (k = VAR_LOCAL \<and> \<not> ro
     \<and> (case fst (frame_search f n \<lparr>collective = ALL_NONE, voided = False\<rparr>) of
          Some d \<Rightarrow> ls_kind d = DECL_LOCAL \<and> ls_slot d = Some i | None \<Rightarrow> False))"
| "op_tree f (EXPR_UNOP h u e) = (op_tree f e \<and> fits_right PREC_UNARY e)"
| "op_tree f (EXPR_BINOP h b x y) =
     (op_tree f x \<and> op_tree f y \<and> fits_left (left_level b) x \<and> fits_right (right_level b) y)"
| "op_tree f (EXPR_CALL h g es) = False"
| "op_tree f (EXPR_FUNCTION h i) = False"
| "op_tree f (EXPR_INDEX h t k) = False"
| "op_tree f (EXPR_TABLE h es) = False"
| "op_tree f (EXPR_METHOD_CALL h r n es) = False"
| "op_tree f (EXPR_VARARG h t k) = False"
| "op_tree f e = True"

section \<open>Levels\<close>

lemma prec_of_op [simp]: "prec_of (op_kind b) = op_level b" "binop_of (op_kind b) = Some b"
  by (cases b; simp)+

lemma unop_of_sign [simp]: "unop_of (sign_kind u) = Some u"
  by (cases u) simp_all

lemma op_not_chain [simp]: "op_kind b \<notin> set chain_kinds"
  by (cases b) (simp_all add: chain_kinds_def)

lemma op_right_kind:
  "(if op_kind b = TOK_CONCAT \<or> op_kind b = TOK_CARET then prec_of (op_kind b) else prec_of (op_kind b) + 1) = right_level b"
  by (cases b) (simp_all add: right_level_def groups_right_def)

lemma op_level_bounds: "1 \<le> op_level b" "op_level b \<le> right_level b" "right_level b \<le> 12" "op_level b \<noteq> 11"
    "op_level b \<le> left_level b"
  by (cases b; simp add: right_level_def left_level_def groups_right_def)+

lemma prec_of_neq_11: "prec_of k \<noteq> 11" "prec_of k \<le> 12"
  by (cases k; simp)+

text \<open>What may follow a tree without becoming a part of it.\<close>

definition closed_for :: "Expr \<Rightarrow> nat \<Rightarrow> bool" where
  "closed_for e m \<longleftrightarrow> snd (ehead e)
     \<or> (case e of EXPR_BINOP h b x y \<Rightarrow> m < right_level b | EXPR_UNOP h u x \<Rightarrow> m < PREC_UNARY | _ \<Rightarrow> True)"

lemma closed_right:
  "m < q \<Longrightarrow> fits_right q e \<Longrightarrow> q \<le> 12 \<Longrightarrow> m \<noteq> 11 \<Longrightarrow> closed_for e m"
  using op_level_bounds(2)
  by (cases e) (auto simp: closed_for_def fits_right_def PREC_UNARY_def split: Expr.splits intro: less_le_trans)

lemma fits_left_right: "fits_left r e \<Longrightarrow> q \<le> r \<Longrightarrow> fits_right q e"
  by (cases e) (auto simp: fits_left_def fits_right_def)

lemma level_assoc: "left_level b \<le> op_level c \<Longrightarrow> op_level b < right_level c"
  by (cases b; cases c) (simp_all add: left_level_def right_level_def groups_right_def)

lemma closed_left: "fits_left (left_level b) e \<Longrightarrow> closed_for e (op_level b)"
  using level_assoc [of b] op_level_bounds(4) [of b] op_level_bounds(5) [of b]
  by (cases e) (fastforce simp: closed_for_def fits_left_def PREC_UNARY_def)+

section \<open>Steps over tokens\<close>

text \<open>The state after \<open>n\<close> more tokens, where nothing else has changed.\<close>

definition shift :: "nat \<Rightarrow> Parser \<Rightarrow> Parser" where
  "shift n p = p\<lparr>pos := pos p + n\<rparr>"

definition ahead :: "Parser \<Rightarrow> Token list" where
  "ahead p = drop (pos p) (ptoks p)"

lemma shift_simps [simp]:
  "shift n (shift m p) = shift (m + n) p" "shift 0 p = p" "ahead (shift n p) = drop n (ahead p)"
  "frames (shift n p) = frames p" "pok (shift n p) = pok p"
  by (simp_all add: shift_def ahead_def add.commute add.assoc)

lemma ahead_Cons:
  assumes "ahead p = t # ts"
  shows "wp Parser_State.peek Q p = Q t p" and "wp advance Q p = Q t (shift 1 p)"
    and "wp (match k) B p = (if kind t = k then B True (shift 1 p) else B False p)"
    and "kind t = k \<Longrightarrow> wp (expect k w) B p = B True (shift 1 p)"
proof -
  from assms have l: "pos p < length (ptoks p)" by (cases "pos p < length (ptoks p)") (auto simp: ahead_def)
  with assms have "ptoks p ! pos p = t" by (metis ahead_def Cons_nth_drop_Suc list.inject)
  with l have t: "tok_at p (pos p) = t" "touch (pos p) p = p" by (simp_all add: tok_at_def touch_def)
  show p: "wp Parser_State.peek Q p = Q t p" for Q using t by (simp add: Parser_State.peek_def wp_State)
  show a: "wp advance Q p = Q t (shift 1 p)" for Q using t by (simp add: advance_def wp_State shift_def)
  show m: "wp (match k) B p = (if kind t = k then B True (shift 1 p) else B False p)" for B
    by (simp add: match_def p a)
  show "kind t = k \<Longrightarrow> wp (expect k w) B p = B True (shift 1 p)" by (simp add: expect_def m p a)
qed

lemma kind_a_tok [simp]: "kind (a_tok k l) = k" "tline (a_tok k l) = l"
  by (simp_all add: a_tok_def)

text \<open>A tree without its parentheses.\<close>

fun bare :: "Expr \<Rightarrow> Expr" where
  "bare (EXPR_NIL (l, b)) = EXPR_NIL (l, False)"
| "bare (EXPR_TRUE (l, b)) = EXPR_TRUE (l, False)"
| "bare (EXPR_FALSE (l, b)) = EXPR_FALSE (l, False)"
| "bare (EXPR_INT (l, b) i) = EXPR_INT (l, False) i"
| "bare (EXPR_FLOAT (l, b) i) = EXPR_FLOAT (l, False) i"
| "bare (EXPR_STRING (l, b) i) = EXPR_STRING (l, False) i"
| "bare (EXPR_VAR (l, b) n k i ro) = EXPR_VAR (l, False) n k i ro"
| "bare (EXPR_UNOP (l, b) u e) = EXPR_UNOP (l, False) u e"
| "bare (EXPR_BINOP (l, b) bo x y) = EXPR_BINOP (l, False) bo x y"
| "bare e = e"

lemma bare_paren:
  assumes "op_tree f e" and "snd (ehead e)"
  shows "print_ops e = a_tok TOK_LPAREN 0 # print_ops (bare e) @ [a_tok TOK_RPAREN 0]"
    and "with_paren (bare e) = e" and "op_tree f (bare e)" and "fits_right 1 (bare e)"
  using assms op_level_bounds(1)
  by (cases e rule: bare.cases; auto simp: parens_def fits_right_def)+

fun spine :: "Expr \<Rightarrow> nat" where
  "spine (EXPR_BINOP (l, False) b x y) = Suc (spine x)"
| "spine e = 0"

lemma spine_le: "op_tree f e \<Longrightarrow> spine e < length (print_ops e)"
proof (induction e rule: print_ops.induct)
  case (9 l b bo x y)
  then show ?case by (cases b) (auto simp: parens_def)
qed (auto simp: parens_def)

lemma chain_stops:
  "ahead p = t # ts \<Longrightarrow> kind t \<notin> set chain_kinds \<Longrightarrow> wp (chain_loop R (Suc n) e) Q p = Q (Some e) p"
  by (simp add: ahead_Cons)

lemma prec_stops:
  assumes "ahead p = ts @ t # us" and "prec_of (kind t) < k" and "Suc n = m"
  shows "wp (prec_loop R m k e) Q (shift (length ts) p) = Q (Some e) (shift (length ts) p)"
  unfolding assms(3) [symmetric]
  using assms(1,2) by (simp add: prec_loop.simps Let_def ahead_Cons [of _ t us])

lemma whenok_ok: "pok p \<Longrightarrow> wp (on_ok (Some e) f) Q p = wp (f e) Q p"
  by (simp add: wp_on_ok)

section \<open>The precedence climbing\<close>

text \<open>
  \<open>climbs\<close>: a printed tree is read as a whole, when a loop at level \<open>q\<close> is to go on behind it; \<open>reads\<close>: it
  is the result of \<open>parse_prec\<close> when what follows has a lower level.
\<close>

definition climbs :: "Expr \<Rightarrow> bool" where
  "climbs e \<longleftrightarrow> (\<forall>n m q p t ts Q. ahead p = print_ops e @ t # ts \<longrightarrow> pok p \<longrightarrow> frames p \<noteq> [] \<longrightarrow> op_tree (hd (frames p)) e \<longrightarrow>
     kind t \<notin> set chain_kinds \<longrightarrow> closed_for e (prec_of (kind t)) \<longrightarrow> fits_right q e \<longrightarrow>
     length (print_ops e) \<le> n \<longrightarrow> spine e \<le> m \<longrightarrow>
     wp (do { l \<leftarrow> parse_unary (parser_at n); on_ok l (prec_loop (parser_at n) m q) }) Q p =
     wp (prec_loop (parser_at n) (m - spine e) q e) Q (shift (length (print_ops e)) p))"

definition reads :: "Expr \<Rightarrow> bool" where
  "reads e \<longleftrightarrow> (\<forall>n k p t ts Q. ahead p = print_ops e @ t # ts \<longrightarrow> pok p \<longrightarrow> frames p \<noteq> [] \<longrightarrow> op_tree (hd (frames p)) e \<longrightarrow>
     kind t \<notin> set chain_kinds \<longrightarrow> prec_of (kind t) < k \<longrightarrow> fits_right k e \<longrightarrow> k \<le> 12 \<longrightarrow> length (print_ops e) \<le> n \<longrightarrow>
     wp (parse_prec (parser_at n) k) Q p = Q (Some e) (shift (length (print_ops e)) p))"

lemma climbs_reads:
  assumes "climbs e" shows "reads e"
  unfolding reads_def
proof (intro allI impI)
  fix n k p t ts Q
  assume a: "ahead p = print_ops e @ t # ts" "pok p" "frames p \<noteq> []" "op_tree (hd (frames p)) e" "kind t \<notin> set chain_kinds"
    "prec_of (kind t) < k" "fits_right k e" "k \<le> 12" "length (print_ops e) \<le> n"
  obtain n' where n: "n = Suc n'" using a(9) spine_le [OF a(4)] by (cases n) auto
  have cl: "closed_for e (prec_of (kind t))" by (rule closed_right [OF a(6,7,8) prec_of_neq_11(1)])
  have "wp (parse_prec (parser_at n) k) Q p =
      wp (prec_loop (parser_at n) (rec_fuel (parser_at n) - spine e) k e) Q (shift (length (print_ops e)) p)"
    using assms a cl spine_le [OF a(4)] unfolding climbs_def parse_prec_def by (simp add: n)
  moreover have "Suc (rec_fuel (parser_at n) - spine e - 1) = rec_fuel (parser_at n) - spine e"
    using a(9) spine_le [OF a(4)] by (simp add: n)
  ultimately show "wp (parse_prec (parser_at n) k) Q p = Q (Some e) (shift (length (print_ops e)) p)"
    using a(1,6) by (metis prec_stops)
qed

text \<open>The steps of the induction: parentheses, atoms, signs and operators.\<close>

lemma chain_of:
  assumes "ahead p = ts @ t # us" and "kind t \<notin> set chain_kinds" and "pok p" and "wp (parse_primary (parser_at n)) (\<lambda>r q. r = Some e \<and> q = shift (length ts) p) p"
    and "unop_of (kind (hd (ahead p))) = None" and "ts \<noteq> []"
  shows "wp (do { l \<leftarrow> parse_unary (parser_at n); on_ok l (prec_loop (parser_at n) m q) }) Q p =
     wp (prec_loop (parser_at n) m q e) Q (shift (length ts) p)"
proof -
  have r: "run_state (parse_primary (parser_at n)) p = (Some e, shift (length ts) p)"
    using assms(4) by (auto simp: wp_def split: prod.splits)
  obtain t' ts' where a: "ahead p = t' # ts'" using assms(1,6) by (cases ts) auto
  obtain k where k: "rec_fuel (parser_at n) = Suc k" by (cases n) auto
  have "wp (parse_primary (parser_at n)) P p = P (Some e) (shift (length ts) p)" for P
    using r by (simp add: wp_def)
  moreover have "unop_of (kind t') = None" using assms(5) a by simp
  ultimately show ?thesis using assms(1-4)
    by (simp add: parse_unary_def parse_prefix_chain_def ahead_Cons [OF a] whenok_ok k chain_stops [of _ t us] del: chain_loop.simps)
qed

lemma primary_paren:
  assumes "reads (bare e)" and e: "op_tree (hd (frames p)) e" "snd (ehead e)" and p: "ahead p = print_ops e @ t # ts" "pok p" "frames p \<noteq> []"
    and n: "length (print_ops e) \<le> n"
  shows "wp (parse_primary (parser_at n)) (\<lambda>r q. r = Some e \<and> q = shift (length (print_ops e)) p) p"
proof -
  note b = bare_paren [OF e]
  let ?q = "shift 1 p"
  have a: "ahead p = a_tok TOK_LPAREN 0 # print_ops (bare e) @ a_tok TOK_RPAREN 0 # t # ts" using p b(1) by simp
  obtain n' where n': "n = Suc n'" using n b(1) by (cases n) auto
  have "wp (rec_prec (parser_at n) PREC_OR) Q ?q = Q (Some (bare e)) (shift (length (print_ops (bare e))) ?q)" for Q
    using assms(1) [unfolded reads_def, rule_format, of ?q "a_tok TOK_RPAREN 0" "t # ts" 1 n' Q] a p b(3,4) n b(1)
    by (simp add: n' PREC_OR_def chain_kinds_def)
  then show ?thesis using a p b(1,2)
    by (simp add: parse_primary_def parse_paren_def parse_expr_def ahead_Cons [OF a] ahead_Cons [of _ "a_tok TOK_RPAREN 0" "t # ts"]
        whenok_ok Let_def)
qed

lemma primary_atom:
  assumes "op_tree (hd (frames p)) e" and "\<not> snd (ehead e)" and "ahead p = print_ops e @ ts" and "frames p \<noteq> []"
    and "case e of EXPR_BINOP h b x y \<Rightarrow> False | EXPR_UNOP h u x \<Rightarrow> False | _ \<Rightarrow> True"
  shows "wp (parse_primary R) (\<lambda>r q. r = Some e \<and> q = shift (length (print_ops e)) p) p"
    and "unop_of (kind (hd (ahead p))) = None"
proof -
  have name: "wp (resolve_name n) Q q = Q (Some (VAR_LOCAL, s, False)) q"
    if "frames q = frames p" "fst (frame_search (hd (frames p)) n \<lparr>collective = ALL_NONE, voided = False\<rparr>) = Some d"
      "ls_kind d = DECL_LOCAL" "ls_slot d = Some s" for n s d Q q
  proof -
    obtain f fs where f: "frames p = f # fs" using assms(4) by (cases "frames p") auto
    then have e: "q\<lparr>frames := f # fs\<rparr> = q" using that(1) by (cases q) simp
    from that f show ?thesis
      by (cases "frame_search f n \<lparr>collective = ALL_NONE, voided = False\<rparr>") (simp add: wp_State resolve_name_def, simp only: e)
  qed
  show "wp (parse_primary R) (\<lambda>r q. r = Some e \<and> q = shift (length (print_ops e)) p) p"
    using assms
    by (cases e rule: print_ops.cases)
      (auto simp: parens_def parse_primary_def parse_name_def ahead_Cons Let_def name string_expr_def tok_text_def split: option.splits prod.splits)
  show "unop_of (kind (hd (ahead p))) = None"
    using assms by (cases e rule: print_ops.cases) (auto simp: parens_def)
qed

lemma climbs_sign:
  assumes "reads x" shows "climbs (EXPR_UNOP (l, False) u x)"
  unfolding climbs_def
proof (intro allI impI)
  fix n m q p t ts Q
  let ?e = "EXPR_UNOP (l, False) u x"
  assume a: "ahead p = print_ops ?e @ t # ts" "pok p" "frames p \<noteq> []" "op_tree (hd (frames p)) ?e" "kind t \<notin> set chain_kinds"
    "closed_for ?e (prec_of (kind t))" "fits_right q ?e" "length (print_ops ?e) \<le> n" "spine ?e \<le> m"
  from a(1) have h: "ahead p = a_tok (sign_kind u) l # print_ops x @ t # ts" by (simp add: parens_def)
  obtain n' where n: "n = Suc n'" using a(8) by (cases n) (auto simp: parens_def)
  have "wp (rec_prec (parser_at n) PREC_UNARY) P (shift 1 p) = P (Some x) (shift (length (print_ops x)) (shift 1 p))" for P
    using assms [unfolded reads_def, rule_format, of "shift 1 p" t ts PREC_UNARY n' P] a h
    by (simp add: n closed_for_def parens_def) (simp add: PREC_UNARY_def)
  then show "wp (do { l \<leftarrow> parse_unary (parser_at n); on_ok l (prec_loop (parser_at n) m q) }) Q p =
     wp (prec_loop (parser_at n) (m - spine ?e) q ?e) Q (shift (length (print_ops ?e)) p)"
    using a(2) by (simp add: parse_unary_def ahead_Cons [OF h] whenok_ok parens_def)
qed

lemma loop_operator:
  assumes "ahead p = a_tok (op_kind b) l # ts" and "q \<le> op_level b" and "pok p" and "pok r"
    and rhs: "\<And>P. wp (rec_prec R (right_level b)) P (shift 1 p) = P (Some y) r"
  shows "wp (prec_loop R (Suc m) q x) Q p = wp (prec_loop R m q (EXPR_BINOP (l, False) b x y)) Q r"
  unfolding prec_loop.simps(2) Let_def wp_bind ahead_Cons(1) [OF assms(1)] kind_a_tok op_right_kind
  using assms(2-4) by (simp add: ahead_Cons(2) [OF assms(1)] rhs [simplified] whenok_ok)

lemma climbs_operator:
  assumes "climbs x" and "reads y" shows "climbs (EXPR_BINOP (l, False) b x y)"
  unfolding climbs_def
proof (intro allI impI)
  fix n m q p t ts Q
  let ?e = "EXPR_BINOP (l, False) b x y"
  let ?o = "a_tok (op_kind b) l"
  assume a: "ahead p = print_ops ?e @ t # ts" "pok p" "frames p \<noteq> []" "op_tree (hd (frames p)) ?e" "kind t \<notin> set chain_kinds"
    "closed_for ?e (prec_of (kind t))" "fits_right q ?e" "length (print_ops ?e) \<le> n" "spine ?e \<le> m"
  from a(1) have h: "ahead p = print_ops x @ ?o # print_ops y @ t # ts" by (simp add: parens_def)
  obtain n' where n: "n = Suc n'" using a(8) by (cases n) (auto simp: parens_def)
  obtain m' where m: "m - spine x = Suc m'" "m' = m - spine ?e" using a(9) by (cases "m - spine x") auto
  let ?p = "shift (length (print_ops x)) p"
  have q: "q \<le> op_level b" "fits_right q x" using a(4,7) op_level_bounds(5) [of b] fits_left_right
    by (auto simp: fits_right_def [of _ ?e])
  have "wp (do { l \<leftarrow> parse_unary (parser_at n); on_ok l (prec_loop (parser_at n) m q) }) Q p =
     wp (prec_loop (parser_at n) (Suc m') q x) Q ?p"
    unfolding m(1) [symmetric]
    by (rule assms(1) [unfolded climbs_def, rule_format, OF h])
      (use a q closed_left in \<open>auto simp: parens_def\<close>)
  moreover have "wp (rec_prec (parser_at n) (right_level b)) P (shift 1 ?p) = P (Some y) (shift (length (print_ops y)) (shift 1 ?p))" for P
    using assms(2) [unfolded reads_def, rule_format, of "shift 1 ?p" t ts "right_level b" n' P] a h op_level_bounds(3)
    by (simp add: n closed_for_def parens_def)
  moreover have "ahead ?p = ?o # print_ops y @ t # ts" using h by simp
  ultimately show "wp (do { l \<leftarrow> parse_unary (parser_at n); on_ok l (prec_loop (parser_at n) m q) }) Q p =
     wp (prec_loop (parser_at n) (m - spine ?e) q ?e) Q (shift (length (print_ops ?e)) p)"
    using loop_operator [of ?p b l _ q "shift (length (print_ops y)) (shift 1 ?p)" "parser_at n" y m' x Q] a(2) q(1) m(2)
    by (simp add: parens_def)
qed

lemma climbs_atom:
  assumes "\<not> snd (ehead e)" and "case e of EXPR_BINOP h b x y \<Rightarrow> False | EXPR_UNOP h u x \<Rightarrow> False | _ \<Rightarrow> True"
  shows "climbs e"
  unfolding climbs_def
proof (intro allI impI)
  fix n m q p t ts Q
  assume a: "ahead p = print_ops e @ t # ts" "pok p" "frames p \<noteq> []" "op_tree (hd (frames p)) e" "kind t \<notin> set chain_kinds"
  have "spine e = 0" using assms(2) by (cases e) auto
  moreover have "print_ops e \<noteq> []" using spine_le [OF a(4)] by auto
  ultimately show "wp (do { l \<leftarrow> parse_unary (parser_at n); on_ok l (prec_loop (parser_at n) m q) }) Q p =
     wp (prec_loop (parser_at n) (m - spine e) q e) Q (shift (length (print_ops e)) p)"
    using chain_of [OF a(1,5,2) primary_atom [OF a(4) assms(1) a(1,3) assms(2)]] by simp
qed

lemma climbs_paren:
  assumes "reads (bare e)" and "snd (ehead e)" shows "climbs e"
  unfolding climbs_def
proof (intro allI impI)
  fix n m q p t ts Q
  assume a: "ahead p = print_ops e @ t # ts" "pok p" "frames p \<noteq> []" "op_tree (hd (frames p)) e" "kind t \<notin> set chain_kinds"
    "length (print_ops e) \<le> n"
  have "spine e = 0" using assms(2) by (cases e rule: spine.cases) auto
  moreover have "hd (ahead p) = a_tok TOK_LPAREN 0" using a(1) bare_paren(1) [OF a(4) assms(2)] by simp
  moreover have "print_ops e \<noteq> []" using spine_le [OF a(4)] by auto
  ultimately show "wp (do { l \<leftarrow> parse_unary (parser_at n); on_ok l (prec_loop (parser_at n) m q) }) Q p =
     wp (prec_loop (parser_at n) (m - spine e) q e) Q (shift (length (print_ops e)) p)"
    using chain_of [OF a(1,5,2) primary_paren [OF assms(1) a(4) assms(2) a(1,2,3,6)]] by simp
qed

text \<open>Trees of other expressions are not trees of operators.\<close>

lemma climbs_other: "(\<And>f. \<not> op_tree f e) \<Longrightarrow> climbs e"
  by (simp add: climbs_def)

lemma climbs_leaf:
  assumes "case e of EXPR_BINOP h b x y \<Rightarrow> False | EXPR_UNOP h u x \<Rightarrow> False | _ \<Rightarrow> True"
  shows "climbs e \<and> climbs (bare e)"
proof -
  have b: "climbs (bare e)" if "\<And>f. op_tree f e \<Longrightarrow> \<not> snd (ehead (bare e))"
  proof (cases "\<exists>f. op_tree f e")
    case True
    then show ?thesis using that assms by (intro climbs_atom) (cases e rule: bare.cases; auto)+
  next
    case False
    then show ?thesis using assms by (intro climbs_other) (cases e rule: bare.cases; auto)
  qed
  then have b': "climbs (bare e)" using assms by (cases e rule: bare.cases) auto
  then show ?thesis using climbs_paren [OF climbs_reads [OF b']] climbs_atom [OF _ assms] by blast
qed

lemma all_climb: "climbs e \<and> climbs (bare e)" and "te = (te :: TableEntry)"
proof (induction e and te)
  case (EXPR_BINOP h b x y)
  then have "climbs (EXPR_BINOP (l, False) b x y)" for l by (simp add: climbs_operator climbs_reads)
  then show ?case using climbs_paren [OF climbs_reads, of "EXPR_BINOP h b x y"]
    by (cases h; cases "snd h") auto
next
  case (EXPR_UNOP h u x)
  then have "climbs (EXPR_UNOP (l, False) u x)" for l by (simp add: climbs_sign climbs_reads)
  then show ?case using climbs_paren [OF climbs_reads, of "EXPR_UNOP h u x"]
    by (cases h; cases "snd h") auto
qed (rule climbs_leaf refl; simp)+

text \<open>Tokens end an operator expression when they are neither operators nor postfix.\<close>

definition ends_expr :: "Token \<Rightarrow> bool" where
  "ends_expr t \<longleftrightarrow> kind t \<notin> set chain_kinds \<and> prec_of (kind t) = 0"

lemma parse_prec_reads:
  assumes "op_tree (hd (frames p)) e" and "ahead p = print_ops e @ t # ts" and "ends_expr t"
    and "pok p" and "frames p \<noteq> []" and "length (print_ops e) \<le> n"
  shows "run_state (parse_prec (parser_at n) PREC_OR) p = (Some e, p\<lparr>pos := pos p + length (print_ops e)\<rparr>)"
proof -
  have "fits_right 1 e" using op_level_bounds(1) by (cases e) (auto simp: fits_right_def)
  then have "wp (parse_prec (parser_at n) PREC_OR) (\<lambda>r q. r = Some e \<and> q = shift (length (print_ops e)) p) p"
    using climbs_reads [OF all_climb [THEN conjunct1], of e, unfolded reads_def, rule_format, OF assms(2,4,5,1)] assms(3,6)
    by (simp add: ends_expr_def PREC_OR_def)
  then show ?thesis by (auto simp: wp_def shift_def split: prod.splits)
qed

end
