(* ===== verification/Parser_Scope.thy ===== *)
theory Parser_Scope
  imports Parser_Inv
begin

text \<open>
  Name resolution against lexical scoping: the innermost declaration decides, an upvalue leads through
  the enclosing functions to its slot, and the const check sees the attribute of that declaration.
\<close>

section \<open>The scopes\<close>

text \<open>The innermost declaration of a name: how many functions out, and the declaration.\<close>

definition named :: "string \<Rightarrow> LocalSlot \<Rightarrow> bool" where
  "named n d \<longleftrightarrow> ls_kind d \<noteq> DECL_GLOBAL_ALL \<and> ls_name d = n"

fun find_decl :: "string \<Rightarrow> FuncFrame list \<Rightarrow> (nat \<times> LocalSlot) option" where
  "find_decl n [] = None"
| "find_decl n (f # fs) =
     (case find (named n) (rev (locals f)) of
        Some d \<Rightarrow> Some (0, d)
      | None \<Rightarrow> map_option (\<lambda>(k, d). (Suc k, d)) (find_decl n fs))"

text \<open>The slot that an upvalue of the innermost function stands for, and how many functions out it is.\<close>

fun upval_slot :: "FuncFrame list \<Rightarrow> nat \<Rightarrow> (nat \<times> nat) option" where
  "upval_slot (f # g # fs) u =
     (if u < length (upvalues f) then
        (if usrc (upvalues f ! u) = UPVAL_FROM_LOCAL then Some (1, uidx (upvalues f ! u))
         else map_option (\<lambda>(k, s). (Suc k, s)) (upval_slot (g # fs) (uidx (upvalues f ! u))))
      else None)"
| "upval_slot _ u = None"

definition var_slot :: "FuncFrame list \<Rightarrow> VarKind \<Rightarrow> nat \<Rightarrow> (nat \<times> nat) option" where
  "var_slot fs k i = (case k of VAR_LOCAL \<Rightarrow> Some (0, i) | VAR_UPVAL \<Rightarrow> upval_slot fs i | _ \<Rightarrow> None)"

text \<open>What a resolution may do to a frame: record captures and upvalues.\<close>

definition same_decls :: "FuncFrame \<Rightarrow> FuncFrame \<Rightarrow> bool" where
  "same_decls f g \<longleftrightarrow> locals g = locals f"

definition slotted :: "FuncFrame \<Rightarrow> bool" where
  "slotted f \<longleftrightarrow> (\<forall>d\<in>set (locals f). ls_kind d = DECL_LOCAL \<longrightarrow> ls_slot d \<noteq> None)"

text \<open>What the resolution of a name has to be, by its innermost declaration; \<open>fn\<close> is what the search has
  passed of collective declarations.\<close>

definition is_global :: "string \<Rightarrow> string list \<Rightarrow> VarKind \<Rightarrow> nat \<Rightarrow> bool" where
  "is_global n gs k i \<longleftrightarrow>
     (case lookup_builtin n of
        Some b \<Rightarrow> k = VAR_BUILTIN \<and> i = b
      | None \<Rightarrow> k = VAR_GLOBAL \<and> i < length gs \<and> gs ! i = n)"

definition resolves :: "string \<Rightarrow> FuncFrame list \<Rightarrow> FuncFrame list \<Rightarrow> string list \<Rightarrow> VarKind \<Rightarrow> nat \<Rightarrow> bool \<Rightarrow> bool" where
  "resolves n fs hs gs k i ro \<longleftrightarrow>
     (case find_decl n fs of
        Some (out, d) \<Rightarrow>
          if ls_kind d = DECL_LOCAL then \<not> ro \<and> (\<exists>s. ls_slot d = Some s \<and> var_slot hs k i = Some (out, s))
          else is_global n gs k i \<and> ro = (ls_attrib d = 1)
      | None \<Rightarrow> is_global n gs k i)"

section \<open>Resolution finds the innermost declaration\<close>

lemma search_find: "fst (search_scan ds n fn) = find (named n) ds"
  by (induction ds n fn rule: search_scan.induct) (auto simp: named_def)

lemma upval_slot_cong:
  "map upvalues fs = map upvalues gs \<Longrightarrow> upval_slot fs u = upval_slot gs u"
proof (induction fs u arbitrary: gs rule: upval_slot.induct)
  case (1 f g fs u)
  then obtain f' g' gs' where "gs = f' # g' # gs'" "upvalues f' = upvalues f" "upvalues g' = upvalues g" "map upvalues gs' = map upvalues fs"
    by (auto simp: map_eq_Cons_conv)
  moreover from this have "upval_slot (g # fs) v = upval_slot (g' # gs') v"
    if "\<not> usrc (upvalues f ! u) = UPVAL_FROM_LOCAL" "u < length (upvalues f)" "v = uidx (upvalues f ! u)" for v
    using 1(1) [of "g' # gs'"] that by simp
  ultimately show ?case by simp
qed (auto simp: map_eq_Cons_conv)

lemma upval_find_ref: "upval_find i us r = Some u \<Longrightarrow> i \<le> u \<and> u < i + length us \<and> us ! (u - i) = r"
proof (induction i us r rule: upval_find.induct)
  case (2 i v us r)
  show ?case
  proof (cases "usrc v = usrc r \<and> uidx v = uidx r")
    case True
    with 2 show ?thesis by auto
  next
    case False
    then have "i + 1 \<le> u \<and> u < i + 1 + length us \<and> us ! (u - (i + 1)) = r" using 2 by (simp split: if_splits)
    moreover from this have "u - i = Suc (u - (i + 1))" by arith
    ultimately show ?thesis by auto
  qed
qed simp

lemma frame_add_upvalue_ref:
  assumes "frame_add_upvalue src i f = (Some u, f')"
  shows "u < length (upvalues f') \<and> upvalues f' ! u = \<lparr>usrc = src, uidx = i\<rparr> \<and> locals f' = locals f"
  using assms upval_find_ref [of 0 "upvalues f" "\<lparr>usrc = src, uidx = i\<rparr>" u]
  by (auto simp: frame_add_upvalue_def Let_def split: option.splits if_splits)

lemma global_index_Some:
  assumes "global_index n p = (Some g, q)"
  shows "g < length (globals q) \<and> globals q ! g = n"
  using assms index_from_Some [of 0 "globals p" n g]
  by (auto simp: global_index_def globals_declare_def globals_lookup_def Let_def split: option.splits if_splits)

lemma resolve_global_is_global:
  "resolve_global n p = (Some (k, i), q) \<Longrightarrow> is_global n (globals q) k i"
  using global_index_Some [of n p]
  by (auto simp: resolve_global_def is_global_def split: option.splits prod.splits)

lemma with_ro_Some: "with_ro ro r = Some (k, i, x) \<Longrightarrow> r = Some (k, i) \<and> x = ro"
  by (auto simp: with_ro_def)

lemma list_all2_same_decls [simp]: "list_all2 same_decls fs fs"
  by (simp add: same_decls_def list_all2_same)

lemma same_declsI: "locals g = locals f \<Longrightarrow> same_decls f g"
  by (simp add: same_decls_def)

text \<open>From a frame to the one inside it: a global stays, a slot becomes an upvalue.\<close>

lemma resolves_outer_global:
  assumes "resolves n fs hs gs k i ro" and "k = VAR_BUILTIN \<or> k = VAR_GLOBAL" and "find (named n) (rev (locals f)) = None"
  shows "resolves n (f # fs) (f # hs) gs k i ro"
  using assms by (auto simp: resolves_def var_slot_def split: option.splits if_splits)

lemma is_global_kind: "is_global n gs k i \<Longrightarrow> k = VAR_BUILTIN \<or> k = VAR_GLOBAL"
  by (auto simp: is_global_def split: option.splits)

lemma resolves_capture:
  assumes "resolves n fs (g # hs) gs k i ro" and "k = VAR_LOCAL \<or> k = VAR_UPVAL" and "find (named n) (rev (locals f)) = None"
    and "frame_add_upvalue (if k = VAR_LOCAL then UPVAL_FROM_LOCAL else UPVAL_FROM_UPVAL) i f = (Some u, f')"
    and "upvalues g' = upvalues g"
  shows "resolves n (f # fs) (f' # g' # hs) gs VAR_UPVAL u ro"
proof -
  note u = frame_add_upvalue_ref [OF assms(4)]
  have e: "upval_slot (g' # hs) i = upval_slot (g # hs) i" by (rule upval_slot_cong) (simp add: assms(5))
  from assms(1,2) is_global_kind obtain d s out where d: "find_decl n fs = Some (out, d)" "ls_kind d = DECL_LOCAL" "\<not> ro"
      "ls_slot d = Some s" "var_slot (g # hs) k i = Some (out, s)"
    by (fastforce simp: resolves_def split: option.splits if_splits)
  moreover have "var_slot (f' # g' # hs) VAR_UPVAL u = Some (Suc out, s)"
    using d(5) u e assms(2) by (auto simp: var_slot_def)
  ultimately show ?thesis using assms(3) by (simp add: resolves_def)
qed

lemma mark_captured_same: "mark_captured i g = (b, g') \<Longrightarrow> upvalues g' = upvalues g \<and> locals g' = locals g"
  by (auto simp: mark_captured_def)

lemma resolve_in_frame_resolves:
  "resolve_in_frame n fn fs p = ((Some (k, i, ro), hs), q) \<Longrightarrow> \<forall>f\<in>set fs. slotted f \<Longrightarrow>
     resolves n fs hs (globals q) k i ro \<and> list_all2 same_decls fs hs"
proof (induction n fn fs p arbitrary: k i ro hs q rule: resolve_in_frame.induct)
  case (2 n fn f fs p)
  obtain r fn' where s: "frame_search f n fn = (r, fn')" by fastforce
  then have r: "find (named n) (rev (locals f)) = r" using search_find [of "rev (locals f)" n fn] by (simp add: frame_search_def)
  show ?case
  proof (cases r)
    case (Some d)
    have d: "d \<in> set (locals f)" using r Some by (metis find_Some_iff nth_mem set_rev)
    show ?thesis
    proof (cases "ls_kind d = DECL_LOCAL")
      case True
      then obtain t where "ls_slot d = Some t" using d 2(3) by (auto simp: slotted_def)
      with True 2(2) s r Some show ?thesis
        by (auto simp: resolves_def var_slot_def same_decls_def list_all2_same)
    next
      case False
      then show ?thesis using 2(2) s r Some
        by (auto simp: resolves_def same_decls_def list_all2_same split: prod.splits dest!: with_ro_Some resolve_global_is_global)
    qed
  next
    case None
    show ?thesis
    proof (cases "fs = []")
      case True
      then show ?thesis using 2(2) s r None
        by (auto simp: resolves_def same_decls_def Let_def split: prod.splits if_splits dest!: with_ro_Some resolve_global_is_global)
    next
      case False
      obtain v hs1 q1 where o: "resolve_in_frame n fn' fs p = ((v, hs1), q1)" by (metis prod.exhaust)
      have IH: "resolves n fs hs1 (globals q1) k' i' ro' \<and> list_all2 same_decls fs hs1" if "v = Some (k', i', ro')" for k' i' ro'
        using 2(1) [OF s [symmetric] None False] o that 2(3) by simp
      show ?thesis
      proof (cases v)
        case None
        with 2(2) s o False \<open>r = None\<close> show ?thesis by simp
      next
        case (Some t)
        obtain k' i' ro' where t: "t = (k', i', ro')" by (cases t) auto
        note IH' = IH [of k' i' ro', unfolded Some t, simplified]
        then obtain g hs' where g: "hs1 = g # hs'" using False by (cases hs1) auto
        show ?thesis
        proof (cases "k' = VAR_BUILTIN \<or> k' = VAR_GLOBAL")
          case True
          with 2(2) s o False \<open>r = None\<close> Some t have "hs = f # hs1" "q = q1" "k = k'" "i = i'" "ro = ro'" by auto
          with True IH' r \<open>r = None\<close> show ?thesis by (auto intro: resolves_outer_global same_declsI)
        next
          case loc: False
          let ?src = "if k' = VAR_LOCAL then UPVAL_FROM_LOCAL else UPVAL_FROM_UPVAL"
          obtain b g' where m: "(if ?src = UPVAL_FROM_LOCAL then mark_captured i' g else (True, g)) = (b, g')" by fastforce
          then have g': "upvalues g' = upvalues g" "locals g' = locals g" using mark_captured_same by (auto split: if_splits)
          obtain u f' where a: "frame_add_upvalue ?src i' f = (u, f')" by fastforce
          have "u \<noteq> None" using 2(2) s o False \<open>r = None\<close> Some t loc m a g by (cases u) (auto simp: Let_def split: prod.splits)
          then obtain w where w: "u = Some w" by blast
          have "hs = f' # g' # hs'" "q = (if b then q1 else q1\<lparr>oob := True\<rparr>)" "k = VAR_UPVAL" "i = w" "ro = ro'"
            using 2(2) s o False \<open>r = None\<close> Some t loc m a g w by (auto simp: Let_def split: prod.splits if_splits)
          moreover have "k' = VAR_LOCAL \<or> k' = VAR_UPVAL" using loc by (cases k') auto
          ultimately show ?thesis
            using resolves_capture [of n fs g hs' "globals q1" k' i' ro' f w f' g'] IH' r \<open>r = None\<close> a w g g' frame_add_upvalue_ref
            by (auto simp: list_all2_Cons2 same_decls_def [of _ g] intro!: same_declsI)
        qed
      qed
    qed
  qed
qed simp

section \<open>The const check\<close>

text \<open>The slots of a frame's declarations are never shared, since \<open>next_slot\<close> only grows.\<close>

definition slot_below :: "nat \<Rightarrow> LocalSlot \<Rightarrow> bool" where
  "slot_below n d \<longleftrightarrow> (ls_kind d = DECL_LOCAL \<longrightarrow> ls_slot d \<noteq> None) \<and> (\<forall>s. ls_slot d = Some s \<longrightarrow> s < n)"

definition slots_agree :: "LocalSlot \<Rightarrow> LocalSlot \<Rightarrow> bool" where
  "slots_agree d e \<longleftrightarrow> (ls_slot d = ls_slot e \<longrightarrow> ls_slot d \<noteq> None \<longrightarrow> ls_attrib d = ls_attrib e)"

definition slots_fresh :: "FuncFrame \<Rightarrow> bool" where
  "slots_fresh f \<longleftrightarrow> (\<forall>d\<in>set (locals f). slot_below (next_slot f) d)
     \<and> (\<forall>d\<in>set (locals f). \<forall>e\<in>set (locals f). slots_agree d e)"

lemma slots_fresh_slotted: "slots_fresh f \<Longrightarrow> slotted f"
  by (simp add: slots_fresh_def slotted_def slot_below_def)

lemma attrib_scan_same:
  "d \<in> set ds \<Longrightarrow> ls_slot d = Some s \<Longrightarrow> \<forall>e\<in>set ds. ls_slot e = Some s \<longrightarrow> ls_attrib e = a \<Longrightarrow> attrib_scan ds s = Some a"
  by (induction ds s rule: attrib_scan.induct) auto

lemma slots_fresh_attrib:
  assumes "slots_fresh f" and "d \<in> set (locals f)" and "ls_slot d = Some s"
  shows "frame_local_attrib_by_slot f s = Some (ls_attrib d)"
  unfolding frame_local_attrib_by_slot_def
proof (rule attrib_scan_same [of d])
  show "\<forall>e\<in>set (rev (locals f)). ls_slot e = Some s \<longrightarrow> ls_attrib e = ls_attrib d"
    using assms unfolding slots_fresh_def slots_agree_def by (metis option.distinct(1) set_rev)
qed (use assms in simp_all)

lemma find_decl_nth: "find_decl n fs = Some (k, d) \<Longrightarrow> k < length fs \<and> d \<in> set (locals (fs ! k)) \<and> ls_name d = n"
proof (induction n fs arbitrary: k d rule: find_decl.induct)
  case (2 n f fs)
  then show ?case
    by (auto simp: find_Some_iff named_def split: option.splits) (metis length_rev nth_mem set_rev)+
qed simp

lemma upval_is_const_slot:
  "upval_slot fs u = Some (k, s) \<Longrightarrow> upval_is_const fs u = (frame_local_attrib_by_slot (fs ! k) s = Some 1)"
  by (induction fs u arbitrary: k s rule: upval_slot.induct) (auto simp: Let_def split: if_splits)

lemma fresh_decl_frames:
  "list_all2 same_decls fs hs \<Longrightarrow> k < length fs \<Longrightarrow> frame_local_attrib_by_slot (hs ! k) s = frame_local_attrib_by_slot (fs ! k) s"
  by (auto simp: frame_local_attrib_by_slot_def same_decls_def dest: list_all2_nthD)

lemma target_const_exact:
  assumes r: "resolve_in_frame n fn (frames p) p = ((Some (k, i, ro), hs), q)" and fr: "\<forall>f\<in>set (frames p). slots_fresh f"
    and d: "find_decl n (frames p) = Some (out, d)"
  shows "target_const k i ro (q\<lparr>frames := hs\<rparr>) = (ls_attrib d = 1)"
proof -
  note D = find_decl_nth [OF d]
  have R: "resolves n (frames p) hs (globals q) k i ro" "list_all2 same_decls (frames p) hs"
    using resolve_in_frame_resolves [OF r] fr slots_fresh_slotted by auto
  show ?thesis
  proof (cases "ls_kind d = DECL_LOCAL")
    case True
    with R d obtain s where s: "ls_slot d = Some s" "var_slot hs k i = Some (out, s)" by (auto simp: resolves_def)
    have "frame_local_attrib_by_slot (hs ! out) s = Some (ls_attrib d)"
      using fresh_decl_frames [OF R(2)] slots_fresh_attrib [OF _ _ s(1)] D fr by simp
    then show ?thesis using s(2) upval_is_const_slot R(2) D
      by (cases k) (auto simp: target_const_def var_slot_def hd_conv_nth list_all2_lengthD split: if_splits)
  next
    case False
    with R d have "is_global n (globals q) k i" "ro = (ls_attrib d = 1)" by (auto simp: resolves_def)
    then show ?thesis using is_global_kind by (fastforce simp: target_const_def)
  qed
qed

text \<open>The frame operations keep slots unshared.\<close>

lemma slots_fresh_subset:
  "slots_fresh f \<Longrightarrow> set (locals g) \<subseteq> set (locals f) \<Longrightarrow> next_slot g = next_slot f \<Longrightarrow> slots_fresh g"
  by (auto simp: slots_fresh_def)

lemma slots_agree_new:
  assumes "slot_below n e" and "ls_slot d = Some n \<or> ls_slot d = None"
  shows "slots_agree d e" and "slots_agree e d" and "slots_agree d d"
  using assms by (auto simp: slots_agree_def slot_below_def)

lemma slots_fresh_append:
  assumes "slots_fresh f" and "locals g = locals f @ [d]" "next_slot f \<le> next_slot g"
    and "ls_slot d = Some (next_slot f) \<and> next_slot f < next_slot g \<or> ls_slot d = None \<and> ls_kind d \<noteq> DECL_LOCAL"
  shows "slots_fresh g"
proof -
  have "slot_below (next_slot g) d" using assms(4) by (auto simp: slot_below_def)
  moreover have "slot_below (next_slot g) e" if "e \<in> set (locals f)" for e
    using assms(1,3) that by (fastforce simp: slots_fresh_def slot_below_def)
  moreover have "slots_agree d e" "slots_agree e d" if "e \<in> set (locals f)" for e
    using assms(1,4) that slots_agree_new by (auto simp: slots_fresh_def)
  moreover have "slots_agree d d" by (simp add: slots_agree_def)
  ultimately show ?thesis using assms(1,2) by (auto simp: slots_fresh_def)
qed

lemma slots_fresh_ops:
  "slots_fresh frame_init"
  "slots_fresh f \<Longrightarrow> slots_fresh (snd (frame_declare n f))"
  "slots_fresh f \<Longrightarrow> slots_fresh (snd (frame_declare_global g a f))"
  "slots_fresh f \<Longrightarrow> slots_fresh (frame_rewind m f)"
  "slots_fresh f \<Longrightarrow> slots_fresh (snd (mark_captured i f))"
  "slots_fresh f \<Longrightarrow> slots_fresh (snd (frame_add_upvalue src i f))"
proof -
  show "slots_fresh frame_init" by (simp add: slots_fresh_def frame_init_def)
  assume f: "slots_fresh f"
  show "slots_fresh (snd (frame_declare n f))" using f
    by (auto simp: frame_declare_def intro!: slots_fresh_append [OF f])
  show "slots_fresh (snd (frame_declare_global g a f))" using f
    by (auto simp: frame_declare_global_def split: option.split intro!: slots_fresh_append [OF f])
  show "slots_fresh (frame_rewind m f)"
    by (rule slots_fresh_subset [OF f]) (auto simp: frame_rewind_def dest: in_set_takeD)
  show "slots_fresh (snd (mark_captured i f))" "slots_fresh (snd (frame_add_upvalue src i f))"
    by (rule slots_fresh_subset [OF f]; simp add: mark_captured_def frame_add_upvalue_def Let_def split: option.split)+
qed

end
