(* ===== verification/Lexer_Correct.thy ===== *)
theory Lexer_Correct
  imports Lexer
begin

text \<open>
  What the lexer of \<open>src/src/lexer.c\<close> guarantees: the scratch buffer of a string literal is never
  overrun, so \<open>lex\<close> always returns; the tokens it returns point into the source in order and
  carry the right line; the value of every kind of literal; and a print/lex round trip.
\<close>

section \<open>The string buffer is large enough\<close>

lemma or_nat_less:
  assumes "(a :: nat) < 2 ^ n" and "b < 2 ^ n"
  shows "a OR b < 2 ^ n"
proof -
  from assms have "take_bit n (a OR b) = a OR b" by (simp add: take_bit_nat_eq_self)
  then show ?thesis by (simp only: take_bit_nat_eq_self_iff)
qed

lemma hex_val_less: "is_xdigit c \<Longrightarrow> hex_val c < 16"
proof -
  assume x: "is_xdigit c"
  have A: "\<forall>n\<in>set ([97..<103] @ [65..<71]). (n OR 32) - 97 + 10 < (16 :: nat)" by code_simp
  have "(n OR 32) - 97 + 10 < 16" if "97 \<le> n \<and> n \<le> 102 \<or> 65 \<le> n \<and> n \<le> 70" for n :: nat
  proof -
    from that have "n \<in> set ([97..<103] @ [65..<71])" by auto
    with A show ?thesis by blast
  qed
  with x show ?thesis by (simp add: hex_val_def is_xdigit_def is_digit_def split: if_splits) fastforce
qed

lemma cp_digits_bound:
  "cp_digits W cp seen s = (Some (cp', sn), p) \<Longrightarrow> unat cp < 2 ^ k \<Longrightarrow>
    \<exists>u. s = u @ p \<and> (\<forall>c\<in>set u. is_xdigit c) \<and> unat cp' < 2 ^ (k + 4 * length u)
      \<and> (sn \<longleftrightarrow> seen \<or> u \<noteq> [])"
proof (induction W cp seen s arbitrary: k cp' sn p rule: cp_digits.induct)
  case (1 W cp seen)
  then show ?case by auto
next
  case (2 W cp seen c s)
  let ?cp = "take_bit W (push_bit 4 cp OR of_nat (hex_val c))"
  show ?case
  proof (cases "is_xdigit c")
    case True
    with 2(2) have nl: "\<not> ?cp > 0x7FFFFFFF" and u: "cp_digits W ?cp True s = (Some (cp', sn), p)"
      by (auto simp: Let_def split: if_splits)
    have "unat (push_bit 4 cp) < 2 ^ (k + 4)"
    proof -
      have "unat (push_bit 4 cp) \<le> push_bit 4 (unat cp)"
        by (simp add: unsigned_push_bit_eq take_bit_nat_def)
      also have "\<dots> < 2 ^ (k + 4)" using 2(3) by (simp add: push_bit_nat_def power_add)
      finally show ?thesis .
    qed
    moreover have "unat (of_nat (hex_val c) :: u64) < 2 ^ (k + 4)"
      using hex_val_less [OF True] by (simp add: unat_of_nat power_add)
        (metis (no_types) less_le_trans mult_le_mono1 nat_mult_1 one_le_numeral one_le_power)
    ultimately have "unat (push_bit 4 cp OR of_nat (hex_val c)) < 2 ^ (k + 4)"
      by (simp add: unsigned_or_eq or_nat_less)
    moreover have "unat (take_bit W x) \<le> unat x" for x :: u64
      by (simp add: unsigned_take_bit_eq take_bit_nat_def)
    ultimately have "unat ?cp < 2 ^ (k + 4)" by (rule le_less_trans [rotated])
    from "2.IH" [OF True refl nl u this] obtain u where
      "s = u @ p" "\<forall>c\<in>set u. is_xdigit c" "unat cp' < 2 ^ (k + 4 + 4 * length u)" "sn" by auto
    with True show ?thesis by (intro exI [of _ "c # u"]) (auto simp: algebra_simps)
  next
    case False
    with 2 show ?thesis by auto
  qed
qed

lemma utf8_length:
  assumes "unat cp < 2 ^ (4 * n)" and "0 < n"
  shows "length (utf8 cp) \<le> n + 3"
proof -
  consider "n = 1" | "n = 2" | "3 \<le> n" using assms(2) by linarith
  then show ?thesis
  proof cases
    case 1
    with assms have "cp < 0x80" by (simp add: word_less_nat_alt)
    with 1 show ?thesis by (simp add: utf8_def)
  next
    case 2
    with assms have "cp < 0x800" by (simp add: word_less_nat_alt)
    with 2 show ?thesis by (simp add: utf8_def)
  next
    case 3
    have "length (utf8 cp) \<le> 6" by (simp add: utf8_def)
    with 3 show ?thesis by simp
  qed
qed

text \<open>Plain characters: those the bounding scan counts one by one.\<close>

definition plain :: "char \<Rightarrow> string \<Rightarrow> bool" where
  "plain q u \<longleftrightarrow> q \<notin> set u \<and> BSLASH \<notin> set u"

lemma str_cap_plain: "plain q u \<Longrightarrow> str_cap q (u @ p) = length u + str_cap q p"
  by (induction u) (auto simp: plain_def)

lemma plain_class:
  assumes "q = DQUOTE \<or> q = SQUOTE" and "\<forall>c\<in>set u. is_xdigit c \<or> is_space c \<or> c = CHR ''{'' \<or> c = CHR ''}''"
  shows "plain q u"
  using assms unfolding plain_def by (fastforce simp: ctype_defs)

lemma skip_space_plain: "skip_space s l = (p, l') \<Longrightarrow> \<exists>u. s = u @ p \<and> (\<forall>c\<in>set u. is_space c)"
proof (induction s l arbitrary: p l' rule: skip_space.induct)
  case (2 c s l)
  show ?case
  proof (cases "is_space c")
    case True
    with 2 obtain u where "s = u @ p" "\<forall>c\<in>set u. is_space c" by auto
    with True show ?thesis by (intro exI [of _ "c # u"]) auto
  qed (use 2 in auto)
qed auto

lemma d_digits_plain:
  "d_digits n v s = (r, p) \<Longrightarrow> \<exists>u. s = u @ p \<and> (\<forall>c\<in>set u. is_digit c)
     \<and> (u = [] \<longrightarrow> n = 0 \<or> \<not> is_digit (at s))"
proof (induction n v s arbitrary: r p rule: d_digits.induct)
  case (3 n v c s)
  show ?case
  proof (cases "is_digit c")
    case True
    with 3 obtain u where "s = u @ p" "\<forall>c\<in>set u. is_digit c" by auto
    with True show ?thesis by (intro exI [of _ "c # u"]) auto
  qed (use 3 in auto)
qed auto

lemma escape_x_plain:
  assumes q: "q = DQUOTE \<or> q = SQUOTE" and e: "at (lp L) = CHR ''x''" "escape_x L = (L', Some bs)"
  shows "\<exists>u. lp L = CHR ''x'' # u @ lp L' \<and> plain q u \<and> length bs \<le> 1 + length u"
proof -
  obtain s where s: "lp L = CHR ''x'' # s" using e(1) by (cases "lp L") auto
  from e(2) have x: "is_xdigit (at s)" "is_xdigit (at (drop 1 s))" and L': "lp L' = drop 2 s" and b: "length bs = 1"
    by (auto simp: escape_x_def Let_def s split: if_splits)
  from x have "s = [at s, at (drop 1 s)] @ drop 2 s" by (cases s; cases "drop 1 s") auto
  moreover have "plain q [at s, at (drop 1 s)]" using x by (intro plain_class [OF q]) auto
  ultimately show ?thesis using s L' b by (metis One_nat_def le_add1)
qed

lemma escape_u_plain:
  assumes q: "q = DQUOTE \<or> q = SQUOTE" and e: "at (lp L) = CHR ''u''" "escape_u W L = (L', Some bs)"
  shows "\<exists>u. lp L = CHR ''u'' # u @ lp L' \<and> plain q u \<and> length bs \<le> 1 + length u"
proof -
  obtain s where s: "lp L = CHR ''u'' # s" using e(1) by (cases "lp L") auto
  from e(2) s have "at s = CHR ''{''" by (auto simp: escape_u_def Let_def split: if_splits)
  then obtain r where r: "s = CHR ''{'' # r" by (cases s) auto
  from e(2) s r obtain cp p where d: "cp_digits W 0 False r = (Some (cp, True), p)" "at p = CHR ''}''"
    and L': "lp L' = drop 1 p" "bs = utf8 cp"
    by (auto simp: escape_u_def Let_def split: if_splits prod.splits option.splits)
  from cp_digits_bound [OF d(1), of 0] obtain v where v: "r = v @ p" "\<forall>c\<in>set v. is_xdigit c"
    "unat cp < 2 ^ (4 * length v)" "v \<noteq> []" by auto
  from d(2) have p: "p = CHR ''}'' # drop 1 p" by (cases p) auto
  have "lp L = CHR ''u'' # (CHR ''{'' # v @ [CHR ''}'']) @ lp L'" using s r v(1) p L'(1) by simp
  moreover have "plain q (CHR ''{'' # v @ [CHR ''}''])" using v(2) by (intro plain_class [OF q]) auto
  moreover have "length bs \<le> 1 + length (CHR ''{'' # v @ [CHR ''}''])"
    using utf8_length [OF v(3)] v(4) L'(2) by simp
  ultimately show ?thesis by blast
qed

lemma escape_ddd_plain:
  assumes q: "q = DQUOTE \<or> q = SQUOTE" and e: "is_digit (at (lp L))" "escape_ddd L = (L', Some bs)"
  shows "\<exists>u. lp L = at (lp L) # u @ lp L' \<and> plain q u \<and> length bs \<le> 1 + length u"
proof -
  from e(2) obtain v where d: "d_digits 3 0 (lp L) = (v, lp L')" and b: "length bs = 1"
    by (auto simp: escape_ddd_def Let_def split: prod.splits if_splits)
  from d_digits_plain [OF d] e(1) obtain u where u: "lp L = u @ lp L'" "\<forall>c\<in>set u. is_digit c" "u \<noteq> []"
    by auto
  then obtain w where w: "u = at (lp L) # w" by (cases u) auto
  moreover have "plain q w" using u(2) w by (intro plain_class [OF q]) (auto simp: is_xdigit_def)
  ultimately show ?thesis using u(1) b by (metis append_Cons le_add1)
qed

lemma escape_cases:
  assumes "escape W L = (L', Some bs)"
  obtains (simple) c where "map_of simple_escapes (at (lp L)) = Some c" "L' = adv 1 L" "bs = [c]"
  | (x) "at (lp L) = CHR ''x''" "escape_x L = (L', Some bs)"
  | (z) p l where "at (lp L) = CHR ''z''" "skip_space (drop 1 (lp L)) (lline L) = (p, l)"
      "L' = L\<lparr>lp := p, lline := l\<rparr>" "bs = []"
  | (newline) "at (lp L) = LF \<or> at (lp L) = CR" "escape_newline L = (L', Some bs)"
  | (u) "at (lp L) = CHR ''u''" "escape_u W L = (L', Some bs)"
  | (ddd) "is_digit (at (lp L))" "escape_ddd L = (L', Some bs)"
proof (cases "map_of simple_escapes (at (lp L))")
  case (Some c)
  with assms simple show ?thesis by (simp add: escape_def Let_def)
next
  case None
  note E = assms [unfolded escape_def Let_def None option.case]
  show ?thesis
  proof (cases "at (lp L) \<in> {CHR ''x'', CHR ''z'', LF, CR, CHR ''u''}")
    case True
    with E x z newline u show ?thesis by (cases "skip_space (drop 1 (lp L)) (lline L)") fastforce
  next
    case False
    with E ddd show ?thesis by (simp split: if_splits)
  qed
qed

lemma escape_plain:
  assumes q: "q = DQUOTE \<or> q = SQUOTE" and e: "escape W L = (L', Some bs)"
  shows "\<exists>c u. lp L = c # u @ lp L' \<and> c \<noteq> NUL \<and> plain q u \<and> length bs \<le> 1 + length u"
  using e
proof (cases rule: escape_cases)
  case (simple c)
  then have "at (lp L) \<noteq> NUL" by (auto simp: simple_escapes_def)
  with simple at_not_NUL [of "lp L"] show ?thesis
    by (intro exI [of _ "at (lp L)"] exI [of _ "[]"]) (auto simp: plain_def)
next
  case x
  with escape_x_plain [OF q x] show ?thesis by auto
next
  case (z p l)
  obtain s where s: "lp L = CHR ''z'' # s" using z(1) by (cases "lp L") auto
  from skip_space_plain [OF z(2)] s obtain u where u: "s = u @ p" "\<forall>c\<in>set u. is_space c" by auto
  then have "plain q u" by (intro plain_class [OF q]) auto
  with z s u(1) show ?thesis by auto
next
  case newline
  then obtain c s where s: "lp L = c # s" "c = LF \<or> c = CR" by (cases "lp L") auto
  from newline(2) s(1) have "bs = [LF]" "lp L' = s \<or> (\<exists>d. s = d # lp L' \<and> (d = LF \<or> d = CR))"
    by (cases s; auto simp: escape_newline_def Let_def split: if_splits)+
  then consider "s = lp L'" | d where "s = d # lp L'" "d = LF \<or> d = CR" by auto
  then show ?thesis
  proof cases
    case 1
    with s \<open>bs = [LF]\<close> show ?thesis by (intro exI [of _ c] exI [of _ "[]"]) (auto simp: plain_def)
  next
    case (2 d)
    with q s \<open>bs = [LF]\<close> show ?thesis by (intro exI [of _ c] exI [of _ "[d]"]) (auto simp: plain_def)
  qed
next
  case u
  with escape_u_plain [OF q u] show ?thesis by auto
next
  case ddd
  then have "at (lp L) \<noteq> NUL" by auto
  with escape_ddd_plain [OF q ddd] show ?thesis by blast
qed

lemma str_loop_room:
  "q = DQUOTE \<or> q = SQUOTE \<Longrightarrow> length buf + str_cap q (lp L) \<le> room \<Longrightarrow>
    snd (str_loop W q room buf L) \<noteq> StrOverflow"
proof (induction W q room buf L rule: str_loop.induct)
  case (1 W q room buf L)
  show ?case
  proof (cases "at (lp L) = NUL \<or> at (lp L) = q \<or> at (lp L) = LF")
    case True
    then show ?thesis by (auto simp: str_loop.simps [of _ _ _ _ L])
  next
    case False
    then obtain c s where s: "lp L = c # s" "c \<noteq> NUL" "c \<noteq> q" "c \<noteq> LF" by (cases "lp L") auto
    show ?thesis
    proof (cases "c = BSLASH")
      case False
      with 1 s show ?thesis by (auto simp: str_loop.simps [of _ _ _ _ L])
    next
      case True
      obtain M r where e: "escape W (adv 1 L) = (M, r)" by fastforce
      show ?thesis
      proof (cases r)
        case None
        with e s True show ?thesis by (simp add: str_loop.simps [of _ _ _ _ L])
      next
        case (Some bs)
        from escape_plain [OF 1(3) e [unfolded Some]] obtain d u where
          "lp (adv 1 L) = d # u @ lp M" and d: "d \<noteq> NUL" "plain q u" "length bs \<le> 1 + length u" by blast
        with s have s': "s = d # u @ lp M" by simp
        have "str_cap q (lp L) = 1 + length u + str_cap q (lp M)"
          using s s' True d(1,2) 1(3) by (auto simp: str_cap_plain)
        with d(3) 1(4) have room: "length (buf @ bs) + str_cap q (lp M) \<le> room" by simp
        with 1(2,3) False e s True Some have "snd (str_loop W q room (buf @ bs) M) \<noteq> StrOverflow"
          by simp
        with False e s True Some room show ?thesis by (simp add: str_loop.simps [of _ _ _ _ L])
      qed
    qed
  qed
qed

lemma read_string_room:
  assumes "q = DQUOTE \<or> q = SQUOTE"
  shows "snd (read_string W L q) \<noteq> StrOverflow"
  using str_loop_room [OF assms, of "[]" "adv 1 L" "str_cap q (lp (adv 1 L)) + 4" W]
  by (auto simp: read_string_def Let_def split: prod.splits str_result.splits)

lemma lex_step_Some: "lex_step fe W L \<noteq> None"
proof -
  have "q = DQUOTE \<or> q = SQUOTE \<Longrightarrow> read_string W L q \<noteq> (L', StrOverflow)" for q L'
    using read_string_room [of q W L] by auto
  then show ?thesis
    by (auto simp: lex_step_def Let_def split: prod.splits str_result.splits)
qed

lemma lex_loop_Some: "\<exists>v' L'. lex_loop fe W v L = Some (v', L')"
proof (induction fe W v L rule: lex_loop.induct)
  case (1 fe W v L)
  obtain L' tk where "lex_step fe W L = Some (L', tk)" using lex_step_Some [of fe W L] by auto
  with 1 show ?case by (subst lex_loop.simps) auto
qed

text \<open>The loop with its tokens as a plain list: what \<open>push_tok\<close> does to the array.\<close>

lemma lex_loop_toks:
  "tokvec_ok v \<Longrightarrow> lex_loop fe W v L = Some (v', L') \<Longrightarrow>
    tokvec_ok v' \<and> (\<exists>ts. toks v' = toks v @ ts)"
proof (induction fe W v L rule: lex_loop.induct)
  case (1 fe W v L)
  show ?case
  proof (cases "at (lp L) = NUL \<or> \<not> lok L")
    case True
    with 1 show ?thesis by (simp add: lex_loop.simps [of _ _ _ L])
  next
    case False
    obtain M tk where s: "lex_step fe W L = Some (M, tk)" using lex_step_Some [of fe W L] by auto
    let ?w = "case tk of None \<Rightarrow> v | Some t \<Rightarrow> push_tok v t"
    have "tokvec_ok ?w" using 1(2) by (cases tk) auto
    moreover have "lex_loop fe W ?w M = Some (v', L')"
      using 1(3) False s by (simp add: lex_loop.simps [of _ _ _ L])
    ultimately have "tokvec_ok v' \<and> (\<exists>ts. toks v' = toks ?w @ ts)"
      using 1(1) False s by auto
    with 1(2) show ?thesis by (cases tk) auto
  qed
qed

section \<open>Runs of the lexer\<close>

text \<open>
  The main loop as a relation on the tokens it pushes: the array is forgotten, the rounds that
  push nothing are silent.
\<close>

inductive lexes :: "fp_env \<Rightarrow> nat \<Rightarrow> Lex \<Rightarrow> Token list \<Rightarrow> Lex \<Rightarrow> bool" for fe W where
  stop: "at (lp L) = NUL \<or> \<not> lok L \<Longrightarrow> lexes fe W L [] L"
| skip: "at (lp L) \<noteq> NUL \<Longrightarrow> lok L \<Longrightarrow> lex_step fe W L = Some (M, None) \<Longrightarrow> lexes fe W M ts L' \<Longrightarrow>
    lexes fe W L ts L'"
| tok: "at (lp L) \<noteq> NUL \<Longrightarrow> lok L \<Longrightarrow> lex_step fe W L = Some (M, Some t) \<Longrightarrow> lexes fe W M ts L' \<Longrightarrow>
    lexes fe W L (t # ts) L'"

lemma lex_loop_lexes:
  "tokvec_ok v \<Longrightarrow> \<exists>v' ts L'. lex_loop fe W v L = Some (v', L') \<and> tokvec_ok v'
     \<and> toks v' = toks v @ ts \<and> lexes fe W L ts L'"
proof (induction fe W v L rule: lex_loop.induct)
  case (1 fe W v L)
  show ?case
  proof (cases "at (lp L) = NUL \<or> \<not> lok L")
    case True
    with 1(2) show ?thesis by (auto simp: lex_loop.simps [of _ _ _ L] intro: lexes.stop)
  next
    case False
    obtain M tk where s: "lex_step fe W L = Some (M, tk)" using lex_step_Some [of fe W L] by auto
    let ?w = "case tk of None \<Rightarrow> v | Some t \<Rightarrow> push_tok v t"
    have "tokvec_ok ?w" using 1(2) by (cases tk) auto
    with 1(1) False s obtain v' ts L' where
      r: "lex_loop fe W ?w M = Some (v', L')" "tokvec_ok v'" "toks v' = toks ?w @ ts" "lexes fe W M ts L'"
      by blast
    have "lex_loop fe W v L = Some (v', L')" using r(1) False s by (simp add: lex_loop.simps [of _ _ _ L])
    with r(2-) False s 1(2) show ?thesis
      by (cases tk) (auto intro: lexes.skip lexes.tok)
  qed
qed

lemma lexes_det: "lexes fe W L ts L' \<Longrightarrow> lexes fe W L us M' \<Longrightarrow> us = ts \<and> M' = L'"
proof (induction arbitrary: us M' rule: lexes.induct)
  case (stop L)
  from stop.prems stop.hyps show ?case by (cases rule: lexes.cases) auto
next
  case (skip L M ts L')
  from skip.prems skip.hyps show ?case by (cases rule: lexes.cases) (auto dest: skip.IH)
next
  case (tok L M t ts L')
  from tok.prems tok.hyps show ?case by (cases rule: lexes.cases) (auto dest: tok.IH)
qed

definition eof_token :: "Lex \<Rightarrow> Token" where
  "eof_token L = tok_zero\<lparr>tstart := lp L, tline := lline L\<rparr>"

lemma lex_lexes:
  "\<exists>ts L. lexes fe W (lex_start src) ts L
     \<and> lex fe W src = Some \<lparr>tl_items = ts @ [eof_token L], tl_ok = lok L, tl_err = lerr L\<rparr>"
  using lex_loop_lexes [OF tokvec0_ok(1), of fe W "lex_start src"]
  by (auto simp: lex_def Let_def eof_token_def)

lemma lexes_lex:
  "lexes fe W (lex_start src) ts L \<Longrightarrow>
    lex fe W src = Some \<lparr>tl_items = ts @ [eof_token L], tl_ok = lok L, tl_err = lerr L\<rparr>"
  using lex_lexes [of fe W src] lexes_det by blast

section \<open>Spans and lines\<close>

lemma lex_word_token:
  "lex_word L t = (L', t') \<Longrightarrow> tlen t' = length (lp L) - length (lp L') \<and> tstart t' = tstart t \<and> tline t' = tline t
     \<and> lok L' = lok L \<and> lerr L' = lerr L"
  by (auto simp: lex_word_def Let_def)

lemma lex_number_token:
  "lex_number fe L t = (L', t') \<Longrightarrow> tlen t' = length (lp L) - length (lp L') \<and> tstart t' = tstart t \<and> tline t' = tline t
     \<and> lok L' = lok L \<and> lerr L' = lerr L \<and> (kind t' = TOK_INT \<or> kind t' = TOK_FLOAT)"
  by (auto simp: lex_number_def Let_def split: prod.splits if_splits)

lemma keyword_scan_range: "keyword_scan ks s n = TOK_IDENT \<or> keyword_scan ks s n \<in> snd ` set ks"
proof (induction ks)
  case (Cons e ks)
  obtain kw k where e: "e = (kw, k)" by fastforce
  have "keyword_scan (e # ks) s n = k \<or> keyword_scan (e # ks) s n = keyword_scan ks s n"
    unfolding e keyword_scan.simps by meson
  with Cons show ?case unfolding e by (elim disjE) (simp_all del: keyword_scan.simps)
qed simp

lemma keyword_or_ident_kind: "keyword_or_ident s n \<notin> {TOK_EOF, TOK_ERROR, TOK_STRING, TOK_INT, TOK_FLOAT}"
proof -
  have "snd ` set KEYWORDS \<inter> {TOK_EOF, TOK_ERROR, TOK_STRING, TOK_INT, TOK_FLOAT} = {}"
    by (simp add: KEYWORDS_def)
  with keyword_scan_range [of KEYWORDS s n]
  have "keyword_scan KEYWORDS s n \<notin> {TOK_EOF, TOK_ERROR, TOK_STRING, TOK_INT, TOK_FLOAT}"
    by (elim disjE) (simp, blast)
  then show ?thesis by (simp add: keyword_or_ident_def)
qed

lemma at_neq_NUL_length: "at p \<noteq> NUL \<Longrightarrow> 0 < length p"
  by (cases p) auto

lemma at2_length: "at (drop n p) \<noteq> NUL \<Longrightarrow> n < length p"
  by (rule ccontr) simp

definition spans :: "Lex \<Rightarrow> Token \<Rightarrow> Lex \<times> Token \<Rightarrow> bool" where
  "spans L t r \<longleftrightarrow> (lok (fst r) \<longrightarrow>
     tlen (snd r) = length (lp L) - length (lp (fst r)) \<and> tstart (snd r) = tstart t
     \<and> tline (snd r) = tline t \<and> kind (snd r) \<notin> {TOK_EOF, TOK_ERROR})"

lemma spans_ONE: "at (lp L) \<noteq> NUL \<Longrightarrow> k \<notin> {TOK_EOF, TOK_ERROR} \<Longrightarrow> spans L t (ONE k (L, t))"
  by (cases "lp L") (auto simp: spans_def ONE_def)

lemma spans_TWO:
  "at (lp L) \<noteq> NUL \<Longrightarrow> at (drop 1 (lp L)) \<noteq> NUL \<Longrightarrow> k \<notin> {TOK_EOF, TOK_ERROR} \<Longrightarrow> spans L t (TWO k (L, t))"
  using at2_length [of 1 "lp L"] by (auto simp: spans_def TWO_def)

lemma spans_THREE:
  "at (drop 2 (lp L)) \<noteq> NUL \<Longrightarrow> k \<notin> {TOK_EOF, TOK_ERROR} \<Longrightarrow> spans L t (THREE k (L, t))"
  using at2_length [of 2 "lp L"] by (auto simp: spans_def THREE_def)

lemma spans_bracket:
  assumes "at (lp L) = CHR ''[''" and "tstart t = lp L"
  shows "spans L t (lex_bracket L t)"
proof -
  obtain r M where o: "try_open_long_bracket L = (r, M)" by fastforce
  show ?thesis
  proof (cases r)
    case None
    with o have "M = L" by (auto simp: try_open_long_bracket_def Let_def split: if_splits)
    with None o assms show ?thesis by (auto simp: lex_bracket_def intro: spans_ONE)
  next
    case (Some n)
    with o assms(2) show ?thesis
      by (auto simp: lex_bracket_def spans_def split: prod.splits option.splits)
  qed
qed

lemma spans_dot:
  assumes "at (lp L) = CHR ''.''"
  shows "spans L t (lex_dot fe L t)"
proof -
  let ?s = "lp L"
  obtain f p where x: "scan_exponent (CHR ''e'') (CHR ''E'') (True, dropWhile is_digit (drop 1 ?s)) = (f, p)"
    by fastforce
  have s: "at ?s \<noteq> NUL" using assms by simp
  consider "at (drop 1 ?s) = CHR ''.''" "at (drop 2 ?s) = CHR ''.''"
    | "at (drop 1 ?s) = CHR ''.''" "at (drop 2 ?s) \<noteq> CHR ''.''"
    | "at (drop 1 ?s) \<noteq> CHR ''.''" "is_digit (at (drop 1 ?s))"
    | "at (drop 1 ?s) \<noteq> CHR ''.''" "\<not> is_digit (at (drop 1 ?s))" by blast
  then show ?thesis
  proof cases
    case 3
    then show ?thesis using x by (simp add: lex_dot_def Let_def spans_def)
  qed (use s in \<open>simp_all add: lex_dot_def Let_def spans_ONE spans_TWO spans_THREE\<close>)
qed

lemma spans_operator:
  assumes "at (lp L) \<noteq> NUL" and "tstart t = lp L"
  shows "spans L t (lex_operator fe L t)"
proof (cases "map_of one_ops (at (lp L))")
  case (Some k)
  then have "k \<in> snd ` set one_ops" by (force dest: map_of_SomeD)
  then have "k \<notin> {TOK_EOF, TOK_ERROR}" by (auto simp: one_ops_def)
  with Some assms show ?thesis by (simp add: lex_operator_def Let_def spans_ONE)
next
  case None
  consider "at (lp L) = CHR ''[''" | "at (lp L) = CHR ''.''" | "at (lp L) \<notin> {CHR ''['', CHR ''.''}" by blast
  then show ?thesis
  proof cases
    case 1
    with None assms show ?thesis by (simp add: lex_operator_def Let_def spans_bracket)
  next
    case 2
    with None assms show ?thesis by (simp add: lex_operator_def Let_def spans_dot)
  next
    case 3
    have E: "spans L t (ONE TOK_ERROR (lex_error L m, t))" for m by (simp add: spans_def ONE_def)
    from None 3 assms E show ?thesis by (simp add: lex_operator_def Let_def spans_ONE spans_TWO)
  qed
qed

lemma lex_step_token:
  assumes "at (lp L) \<noteq> NUL" and "lex_step fe W L = Some (M, Some t)"
  shows "tlen t = length (lp L) - length (lp M) \<and> tstart t = lp L \<and> tline t = lline L
    \<and> kind t \<notin> {TOK_EOF, TOK_ERROR}"
proof -
  let ?c = "at (lp L)" and ?t = "tok_zero\<lparr>tstart := lp L, tline := lline L\<rparr>"
  note X = assms(2) [unfolded lex_step_def Let_def]
  consider "lex_number fe L ?t = (M, t)" | "lex_word L ?t = (M, t)"
    | "tstart t = lp L" "tline t = lline L" "kind t = TOK_STRING" "tlen t = length (lp L) - length (lp M)"
    | "lex_operator fe L ?t = (M, t)" "lok M"
    using X by (auto split: if_splits prod.splits str_result.splits)
  then show ?thesis
  proof cases
    case 2
    have "kind t \<notin> {TOK_EOF, TOK_ERROR}"
      using 2 keyword_or_ident_kind by (auto simp: lex_word_def Let_def)
    with lex_word_token [OF 2] show ?thesis by simp
  next
    case 4
    with spans_operator [OF assms(1), of ?t fe] show ?thesis by (simp add: spans_def)
  qed (auto dest: lex_number_token)
qed

lemma lexes_moves: "lexes fe W L ts L' \<Longrightarrow> moves L L'"
  by (induction rule: lexes.induct) (auto dest!: lex_step_advances simp: advances_def intro: moves_trans)

lemma lexes_tokens:
  "lexes fe W L ts L' \<Longrightarrow>
    (\<forall>t\<in>set ts. kind t \<notin> {TOK_EOF, TOK_ERROR} \<and> 0 < tlen t
       \<and> (\<exists>M. moves L M \<and> tstart t = lp M \<and> tline t = lline M)
       \<and> length (lp L') + tlen t \<le> length (tstart t))
    \<and> sorted_wrt (\<lambda>t u. length (tstart u) + tlen t \<le> length (tstart t)) ts"
proof (induction rule: lexes.induct)
  case (skip L M ts L')
  from lex_step_advances [OF skip(1,3)] have "moves L M" by (simp add: advances_def)
  with skip.IH show ?case by (blast intro: moves_trans)
next
  case (tok L M t ts L')
  from lex_step_advances [OF tok(1,3)] have m: "moves L M" "length (lp M) < length (lp L)"
    by (simp_all add: advances_def)
  note t = lex_step_token [OF tok(1,3)]
  from t m(2) have len: "tlen t + length (lp M) = length (tstart t)" "0 < tlen t" by auto
  have "length (lp L') + tlen t \<le> length (tstart t)"
    using moves_length [OF lexes_moves [OF tok(4)]] len by simp
  moreover have below: "length (tstart u) \<le> length (lp M)" if "u \<in> set ts" for u
  proof -
    from tok.IH that obtain N where "moves M N" "tstart u = lp N" by blast
    then show ?thesis using moves_length by auto
  qed
  moreover have "\<exists>N. moves L N \<and> tstart u = lp N \<and> tline u = lline N" if "u \<in> set ts" for u
    using tok.IH that m(1) by (blast intro: moves_trans)
  moreover have "\<exists>N. moves L N \<and> tstart t = lp N \<and> tline t = lline N"
    using t by (intro exI [of _ L]) simp
  moreover have "\<forall>u\<in>set ts. length (tstart u) + tlen t \<le> length (tstart t)"
    using below len by fastforce
  moreover have "\<forall>u\<in>set ts. kind u \<notin> {TOK_EOF, TOK_ERROR} \<and> 0 < tlen u \<and> length (lp L') + tlen u \<le> length (tstart u)"
    "sorted_wrt (\<lambda>t u. length (tstart u) + tlen t \<le> length (tstart t)) ts" using tok.IH by auto
  ultimately show ?case using t len(2) by simp
qed simp

section \<open>Keywords\<close>

lemma keyword_scan_lookup:
  assumes "0 < n" and "n \<le> length s"
  shows "keyword_scan ks s n = (case map_of ks (take n s) of Some k \<Rightarrow> k | None \<Rightarrow> TOK_IDENT)"
proof (induction ks)
  case (Cons e ks)
  obtain kw k where e: "e = (kw, k)" by fastforce
  from assms have "at (take n s) = at s" by (cases s; cases n) auto
  moreover from assms have "length (take n s) = n" by simp
  ultimately have "keyword_scan (e # ks) s n = (if kw = take n s then k else keyword_scan ks s n)"
    unfolding e keyword_scan.simps by (cases "kw = take n s") simp_all
  with Cons show ?case unfolding e by (simp del: keyword_scan.simps)
qed simp

lemma KEYWORDS_lengths: "map_of KEYWORDS s = Some k \<Longrightarrow> 2 \<le> length s \<and> length s \<le> 8"
proof -
  have "list_all (\<lambda>(s, k). 2 \<le> length s \<and> length s \<le> 8) KEYWORDS" by (simp add: KEYWORDS_def)
  then show "map_of KEYWORDS s = Some k \<Longrightarrow> ?thesis" by (auto simp: list_all_iff dest!: map_of_SomeD)
qed

lemma keyword_lookup:
  assumes "n \<le> length s"
  shows "keyword_or_ident s n = (case map_of KEYWORDS (take n s) of Some k \<Rightarrow> k | None \<Rightarrow> TOK_IDENT)"
proof (cases "n < 2 \<or> n > 8")
  case True
  with assms KEYWORDS_lengths [of "take n s"] have "map_of KEYWORDS (take n s) = None"
    by (cases "map_of KEYWORDS (take n s)") auto
  with True show ?thesis by (auto simp: keyword_or_ident_def)
next
  case False
  with assms show ?thesis by (simp add: keyword_or_ident_def keyword_scan_lookup)
qed

lemma KEYWORDS_names: "map_of KEYWORDS s = Some k \<Longrightarrow> tok_kind_name k = s"
proof -
  have "list_all (\<lambda>(s, k). tok_kind_name k = s) KEYWORDS" by (simp add: KEYWORDS_def)
  then show "map_of KEYWORDS s = Some k \<Longrightarrow> ?thesis" by (auto simp: list_all_iff dest!: map_of_SomeD)
qed

definition keyword_kinds :: "TokKind list" where
  "keyword_kinds =
     [TOK_KW_AND, TOK_KW_BREAK, TOK_KW_DO, TOK_KW_ELSE, TOK_KW_ELSEIF, TOK_KW_END, TOK_KW_FALSE,
      TOK_KW_FOR, TOK_KW_FUNCTION, TOK_KW_GOTO, TOK_KW_IF, TOK_KW_IN, TOK_KW_LOCAL, TOK_KW_NIL,
      TOK_KW_NOT, TOK_KW_OR, TOK_KW_REPEAT, TOK_KW_RETURN, TOK_KW_THEN, TOK_KW_TRUE, TOK_KW_UNTIL,
      TOK_KW_WHILE]"

lemma keyword_kinds_table: "list_all (\<lambda>k. map_of KEYWORDS (tok_kind_name k) = Some k) keyword_kinds"
  by (simp add: keyword_kinds_def KEYWORDS_def)

section \<open>Long brackets\<close>

definition close_bracket :: "nat \<Rightarrow> string" where
  "close_bracket n = CHR '']'' # replicate n (CHR ''='') @ [CHR '']'']"

lemma eq_run_replicate: "at p \<noteq> CHR ''='' \<Longrightarrow> eq_run (replicate n (CHR ''='') @ p) = n"
  by (induction n) (cases p; simp add: eq_run_def)+

lemma close_bracket_at:
  "(at p = CHR '']'' \<and> eq_run (drop 1 p) = n \<and> at (drop (1 + n) p) = CHR '']'') \<longleftrightarrow> prefix (close_bracket n) p"
proof
  assume "at p = CHR '']'' \<and> eq_run (drop 1 p) = n \<and> at (drop (1 + n) p) = CHR '']''"
  then have "p = CHR '']'' # replicate n (CHR ''='') @ CHR '']'' # drop (2 + n) p"
    using bracket_split [of p "CHR '']''" "CHR '']''"] by simp
  then show "prefix (close_bracket n) p"
    unfolding prefix_def close_bracket_def by (metis append.assoc append_Cons append_Nil)
next
  assume "prefix (close_bracket n) p"
  then obtain r where "p = close_bracket n @ r" by (auto simp: prefix_def)
  then show "at p = CHR '']'' \<and> eq_run (drop 1 p) = n \<and> at (drop (1 + n) p) = CHR '']''"
    by (simp add: close_bracket_def eq_run_replicate)
qed

lemma drop_close_bracket: "prefix (close_bracket n) p \<Longrightarrow> p = close_bracket n @ drop (2 + n) p"
  by (auto simp: prefix_def close_bracket_def)

text \<open>Where the closing bracket first occurs, as a specification without a loop.\<close>

fun first_close :: "nat \<Rightarrow> string \<Rightarrow> (string \<times> string) option" where
  "first_close n p =
     (if prefix (close_bracket n) p then Some ([], drop (2 + n) p)
      else case p of [] \<Rightarrow> None | c # s \<Rightarrow> map_option (\<lambda>(b, r). (c # b, r)) (first_close n s))"

declare first_close.simps [simp del]

lemma long_loop_first_close:
  "NUL \<notin> set (lp L) \<Longrightarrow>
    (case long_loop n body L of (L', r) \<Rightarrow> (r, lp L'))
      = (case first_close n (lp L) of None \<Rightarrow> (None, []) | Some (b, r) \<Rightarrow> (Some (body @ b), r))"
proof (induction n body L rule: long_loop.induct)
  case (1 n body L)
  show ?case
  proof (cases "lp L")
    case Nil
    then show ?thesis by (simp add: long_loop.simps [of _ _ L] first_close.simps close_bracket_def)
  next
    case (Cons c s)
    with 1(2) have c: "at (lp L) \<noteq> NUL" "NUL \<notin> set s" by auto
    show ?thesis
    proof (cases "prefix (close_bracket n) (lp L)")
      case True
      then have "at (lp L) = CHR '']'' \<and> eq_run (drop 1 (lp L)) = n \<and> at (drop (1 + n) (lp L)) = CHR '']''"
        by (simp only: close_bracket_at)
      with c True show ?thesis by (simp add: long_loop.simps [of _ _ L] first_close.simps)
    next
      case False
      then have no: "\<not> (at (lp L) = CHR '']'' \<and> eq_run (drop 1 (lp L)) = n \<and> at (drop (1 + n) (lp L)) = CHR '']'')"
        by (simp only: close_bracket_at not_False_eq_True)
      let ?M = "adv 1 (if at (lp L) = LF then L\<lparr>lline := lline L + 1\<rparr> else L)"
      have "lp ?M = s" using Cons by simp
      have "at (lp L) = c" using Cons by simp
      from 1(1) [OF c(1) no, unfolded this] c(2) \<open>lp ?M = s\<close> have
        "(case long_loop n (body @ [c]) ?M of (L', r) \<Rightarrow> (r, lp L'))
          = (case first_close n s of None \<Rightarrow> (None, []) | Some (b, r) \<Rightarrow> (Some ((body @ [c]) @ b), r))"
        by (simp only: Cons list.sel at_simps not_False_eq_True simp_thms)
      moreover have "long_loop n body L = long_loop n (body @ [c]) ?M"
        using c(1) no Cons by (subst long_loop.simps) auto
      ultimately show ?thesis using False Cons
        by (simp add: first_close.simps [of n "c # s"] split: option.splits prod.splits)
    qed
  qed
qed

section \<open>Numerals\<close>

lemma dec_val_snoc: "dec_val (s @ [c]) = dec_val s * 10 + (code c - 48)"
  by (simp add: dec_val_def)

lemma digit_val: "d < 10 \<Longrightarrow> code (chr (48 + d)) - 48 = d"
  by simp

lemma dec_val_dec_str: "dec_val (dec_str n) = n"
proof (induction n rule: dec_str.induct)
  case (1 n)
  show ?case
  proof (cases "n < 10")
    case True
    then have "dec_str n = [chr (48 + n)]" by (subst dec_str.simps) simp
    with True show ?thesis using digit_val [of n] by (simp add: dec_val_def del: code_chr)
  next
    case False
    then have "dec_str n = dec_str (n div 10) @ [chr (48 + n mod 10)]" by (subst dec_str.simps) simp
    then have "dec_val (dec_str n) = n div 10 * 10 + n mod 10"
      using digit_val [of "n mod 10"] 1 [OF False] by (simp only: dec_val_snoc)
    then show ?thesis by simp
  qed
qed

lemma dropWhile_at: "\<not> P (at s) \<Longrightarrow> dropWhile P s = s"
  by (cases s) auto

lemma dropWhile_all: "\<forall>c\<in>set u. P c \<Longrightarrow> \<not> P (at s) \<Longrightarrow> dropWhile P (u @ s) = s"
  by (simp add: dropWhile_append2 dropWhile_at)

text \<open>The value of a run of hexadecimal digits, most significant first.\<close>

definition hex_value :: "string \<Rightarrow> nat" where
  "hex_value s = foldl (\<lambda>v c. v * 16 + hex_val c) 0 s"

lemma or_shift4:
  assumes "h < 16"
  shows "push_bit 4 (acc :: u64) OR of_nat h = acc * 16 + of_nat h"
proof -
  have "push_bit 4 acc AND of_nat h = 0"
  proof (rule bit_word_eqI)
    fix n
    have "take_bit 4 h = h" using assms by (simp add: take_bit_nat_eq_self)
    then have "bit (of_nat h :: u64) n \<Longrightarrow> n < 4" by (metis bit_take_bit_iff bit_of_nat_iff)
    then show "bit (push_bit 4 acc AND of_nat h) n = bit (0 :: u64) n"
      by (auto simp: bit_and_iff bit_push_bit_iff)
  qed
  then have "push_bit 4 acc OR of_nat h = push_bit 4 acc + of_nat h"
    using word_plus_and_or [of "push_bit 4 acc" "of_nat h"] by simp
  then show ?thesis by (simp add: push_bit_eq_mult)
qed

lemma hex_acc_value: "\<forall>c\<in>set s. is_xdigit c \<Longrightarrow> hex_acc s = of_nat (hex_value s)"
proof (induction s rule: rev_induct)
  case (snoc c s)
  then have "hex_val c < 16" by (simp add: hex_val_less)
  with snoc or_shift4 [of "hex_val c" "hex_acc s"] show ?case
    by (simp add: hex_acc_def hex_value_def)
qed (simp add: hex_acc_def hex_value_def)

definition word_value :: "string \<Rightarrow> nat \<Rightarrow> TokKind" where
  "word_value s n = (case map_of KEYWORDS (take n s) of Some k \<Rightarrow> k | None \<Rightarrow> TOK_IDENT)"

text \<open>
  One round on a decimal and on a hexadecimal integer numeral, whatever follows, as long as it does
  not continue the numeral.
\<close>

definition ends_numeral :: "string \<Rightarrow> bool" where
  "ends_numeral r \<longleftrightarrow> \<not> is_xdigit (at r) \<and> at r \<notin> {CHR ''.'', CHR ''e'', CHR ''E'', CHR ''p'', CHR ''P'', CHR ''x'', CHR ''X''}"

lemma scan_none:
  "ends_numeral r \<Longrightarrow> scan_fraction d (f, r) = (f, r)"
  "ends_numeral r \<Longrightarrow> e \<in> {CHR ''e'', CHR ''p''} \<Longrightarrow> E \<in> {CHR ''E'', CHR ''P''} \<Longrightarrow> scan_exponent e E (f, r) = (f, r)"
  by (auto simp: scan_fraction_def scan_exponent_def ends_numeral_def)

lemma digit_class:
  "is_digit c \<Longrightarrow> c \<noteq> LF \<and> \<not> is_space c \<and> c \<noteq> CHR ''-'' \<and> \<not> is_alpha c \<and> c \<noteq> CHR ''x'' \<and> c \<noteq> CHR ''X''"
  by (auto simp: ctype_defs)

lemma strtoll10_nat:
  "strtoll10 s = (if dec_val s < 2 ^ 63 then (of_nat (dec_val s), False) else (2 ^ 63 - 1, True))"
proof -
  have "int (dec_val s) < 2 ^ 63 \<longleftrightarrow> dec_val s < 2 ^ 63" by (simp add: zless_nat_eq_int_zless [symmetric])
  then show ?thesis by (simp add: strtoll10_def)
qed

lemma lex_step_digits:
  assumes p: "lp L = ds @ r" "ds \<noteq> []" "\<forall>c\<in>set ds. is_digit c" and r: "ends_numeral r"
  shows "\<exists>t. lex_step fe W L = Some (L\<lparr>lp := r\<rparr>, Some t) \<and> tstart t = lp L \<and> tlen t = length ds
    \<and> (if dec_val ds < 2 ^ 63 then kind t = TOK_INT \<and> i_val t = of_nat (dec_val ds)
       else kind t = TOK_FLOAT \<and> f_val t = fst (strtod fe ds))"
proof -
  obtain c cs where ds: "ds = c # cs" using p(2) by (cases ds) auto
  with p have c: "at (lp L) = c" "is_digit c" by auto
  have nx: "at (drop 1 (lp L)) \<noteq> CHR ''x'' \<and> at (drop 1 (lp L)) \<noteq> CHR ''X''"
    using p r ds by (cases cs) (auto simp: ends_numeral_def dest: digit_class)
  have dw: "dropWhile is_digit (lp L) = r"
    unfolding p(1) using p(3) r by (intro dropWhile_all) (auto simp: ends_numeral_def is_xdigit_def)
  have "length (lp L) - length r = length ds" "take (length ds) (lp L) = ds" using p(1) by simp_all
  then have "lex_number fe L t = (L\<lparr>lp := r\<rparr>,
      case strtoll10 ds of (v, erange) \<Rightarrow>
        if erange then t\<lparr>tlen := length ds, kind := TOK_FLOAT, i_val := v, f_val := fst (strtod fe ds)\<rparr>
        else t\<lparr>tlen := length ds, kind := TOK_INT, i_val := v\<rparr>)" for t
    using nx r unfolding lex_number_def Let_def dw by (simp add: scan_none split: prod.split)
  with c digit_class [OF c(2)] show ?thesis
    by (auto simp: lex_step_def Let_def strtoll10_nat)
qed

lemma lex_step_hex:
  assumes p: "lp L = CHR ''0'' # x # ds @ r" "x = CHR ''x'' \<or> x = CHR ''X''" "\<forall>c\<in>set ds. is_xdigit c"
    and r: "ends_numeral r"
  shows "\<exists>t. lex_step fe W L = Some (L\<lparr>lp := r\<rparr>, Some t) \<and> tstart t = lp L \<and> tlen t = length ds + 2
    \<and> kind t = TOK_INT \<and> i_val t = of_nat (hex_value ds)"
proof -
  have dw: "dropWhile is_xdigit (drop 2 (lp L)) = r"
    using p(1,3) r by (simp add: dropWhile_append2 dropWhile_at ends_numeral_def)
  have "length (lp L) - length r = length ds + 2" "drop 2 (take (length ds + 2) (lp L)) = ds" using p(1) by simp_all
  then have "lex_number fe L t = (L\<lparr>lp := r\<rparr>, t\<lparr>tlen := length ds + 2, kind := TOK_INT, i_val := of_nat (hex_value ds)\<rparr>)" for t
    using p r hex_acc_value [OF p(3)] unfolding lex_number_def Let_def dw by (auto simp: scan_none)
  with p(1) show ?thesis by (simp add: lex_step_def Let_def ctype_defs)
qed

section \<open>Words, operators, quoted strings\<close>

lemma lex_step_word:
  assumes p: "lp L = w @ r" "w \<noteq> []" "is_alpha (at w) \<or> at w = CHR ''_''" "\<forall>c\<in>set w. is_word c"
    and r: "\<not> is_word (at r)"
  shows "\<exists>t. lex_step fe W L = Some (L\<lparr>lp := r\<rparr>, Some t) \<and> tstart t = lp L \<and> tlen t = length w
    \<and> kind t = (case map_of KEYWORDS w of Some k \<Rightarrow> k | None \<Rightarrow> TOK_IDENT)"
proof -
  from p have c: "at (lp L) = at w" by (cases w) auto
  have dw: "dropWhile is_word (lp L) = r" unfolding p(1) using p(4) r by (rule dropWhile_all)
  have n: "length (lp L) - length r = length w" "take (length w) (lp L) = w" "length w \<le> length (lp L)"
    using p(1) by simp_all
  have "lex_word L t = (L\<lparr>lp := r\<rparr>, t\<lparr>tlen := length w, kind := keyword_or_ident (lp L) (length w)\<rparr>)" for t
    unfolding lex_word_def Let_def dw n(1) ..
  moreover have "at w \<noteq> LF \<and> \<not> is_space (at w) \<and> at w \<noteq> CHR ''-'' \<and> \<not> is_digit (at w)"
    using p(3) by (auto simp: ctype_defs)
  ultimately show ?thesis
    using p(3) n(2) keyword_lookup [OF n(3)] by (auto simp: lex_step_def Let_def c)
qed

definition operator_kinds :: "TokKind list" where
  "operator_kinds =
     [TOK_LPAREN, TOK_RPAREN, TOK_LBRACE, TOK_RBRACE, TOK_LBRACKET, TOK_RBRACKET, TOK_COMMA, TOK_SEMI,
      TOK_COLON, TOK_DBLCOLON, TOK_DOT, TOK_CONCAT, TOK_ELLIPSIS, TOK_ASSIGN, TOK_PLUS, TOK_MINUS,
      TOK_STAR, TOK_SLASH, TOK_DSLASH, TOK_PERCENT, TOK_CARET, TOK_HASH, TOK_EQ, TOK_NEQ, TOK_LT, TOK_LE,
      TOK_GT, TOK_GE, TOK_AMP, TOK_PIPE, TOK_TILDE, TOK_SHL, TOK_SHR]"

lemma lex_step_operator:
  assumes "k \<in> set operator_kinds" and p: "lp L = tok_kind_name k @ CHR '' '' # r" and "lok L"
  shows "\<exists>t. lex_step fe W L = Some (L\<lparr>lp := CHR '' '' # r\<rparr>, Some t) \<and> kind t = k"
proof -
  have o: "\<exists>t. lex_operator fe L (tok_zero\<lparr>tstart := lp L, tline := lline L\<rparr>) = (L\<lparr>lp := CHR '' '' # r\<rparr>, t) \<and> kind t = k"
    using assms(1,2) unfolding operator_kinds_def list.set
    by (elim insertE)
       (simp_all add: lex_operator_def one_ops_def ONE_def TWO_def THREE_def lex_dot_def lex_bracket_def
         try_open_long_bracket_def eq_run_def ctype_defs Let_def numeral_2_eq_2 numeral_3_eq_3)
  have c: "\<not> is_space (at (lp L)) \<and> \<not> is_digit (at (lp L)) \<and> \<not> is_alpha (at (lp L))
      \<and> at (lp L) \<notin> {LF, CHR ''_'', DQUOTE, SQUOTE}
      \<and> (at (lp L) = CHR ''-'' \<longrightarrow> at (drop 1 (lp L)) = CHR '' '')"
    using assms(1,2) unfolding operator_kinds_def list.set
    by (elim insertE) (simp_all add: ctype_defs)
  from o c assms(3) show ?thesis by (auto simp: lex_step_def Let_def)
qed

text \<open>Every byte can be written as a three-digit decimal escape.\<close>

definition quote_char :: "char \<Rightarrow> string" where
  "quote_char c = [BSLASH, chr (48 + code c div 100), chr (48 + code c div 10 mod 10), chr (48 + code c mod 10)]"

lemma decimal_digits: "((n :: nat) div 100 * 10 + n div 10 mod 10) * 10 + n mod 10 = n"
proof -
  have "n div 100 = n div 10 div 10" by (simp add: div_mult2_eq [symmetric])
  then show ?thesis by (simp only: div_mult_mod_eq)
qed

lemma escape_quote_char:
  assumes "lp L = drop 1 (quote_char c) @ r"
  shows "escape W L = (L\<lparr>lp := r\<rparr>, Some [c])"
proof -
  define d1 d2 d3 where d: "d1 = code c div 100" "d2 = code c div 10 mod 10" "d3 = code c mod 10"
  have lt: "d1 < 10" "d2 < 10" "d3 < 10" unfolding d by (auto simp: div_less_iff_less_mult intro: less_trans [OF code_less])
  have dig: "is_digit (chr (48 + n))" "code (chr (48 + n)) - 48 = n" if "n < 10" for n
    using that by (simp_all add: is_digit_def)
  have val: "(d1 * 10 + d2) * 10 + d3 = code c" unfolding d by (rule decimal_digits)
  have p: "lp L = chr (48 + d1) # chr (48 + d2) # chr (48 + d3) # r"
    using assms by (simp add: quote_char_def d)
  have "d_digits 3 0 (lp L) = (code c, r)"
    unfolding p numeral_3_eq_3 using dig [OF lt(1)] dig [OF lt(2)] dig [OF lt(3)] val
    by (simp del: code_chr)
  then have "escape_ddd L = (L\<lparr>lp := r\<rparr>, Some [c])"
    using code_less [of c] by (simp add: escape_ddd_def del: code_less)
  moreover have "at (lp L) = chr (48 + d1)" by (simp add: p)
  moreover have "is_digit (at (lp L))" using dig(1) [OF lt(1)] p by simp
  then have "map_of simple_escapes (at (lp L)) = None" "at (lp L) \<notin> {CHR ''x'', CHR ''z'', LF, CR, CHR ''u''}"
    by (auto simp: simple_escapes_def ctype_defs)
  ultimately show ?thesis using \<open>is_digit (at (lp L))\<close> by (simp add: escape_def Let_def)
qed

lemma str_loop_quoted:
  "snd (str_loop W DQUOTE room buf (L\<lparr>lp := concat (map quote_char s) @ DQUOTE # r\<rparr>)) \<noteq> StrOverflow \<Longrightarrow>
    str_loop W DQUOTE room buf (L\<lparr>lp := concat (map quote_char s) @ DQUOTE # r\<rparr>)
      = (L\<lparr>lp := DQUOTE # r\<rparr>, StrOk (buf @ s))"
proof (induction s arbitrary: buf)
  case Nil
  then show ?case by (simp add: str_loop.simps)
next
  case (Cons c s)
  let ?L = "L\<lparr>lp := concat (map quote_char (c # s)) @ DQUOTE # r\<rparr>"
    and ?M = "L\<lparr>lp := concat (map quote_char s) @ DQUOTE # r\<rparr>"
  have "lp (adv 1 ?L) = drop 1 (quote_char c) @ lp ?M" by (simp add: quote_char_def)
  from escape_quote_char [OF this] have e: "escape W (adv 1 ?L) = (?M, Some [c])" by simp
  have a: "at (lp ?L) = BSLASH" by (simp add: quote_char_def)
  have st: "str_loop W DQUOTE room buf ?L
      = (if length buf + 1 \<le> room then str_loop W DQUOTE room (buf @ [c]) ?M else (?M, StrOverflow))"
    by (subst str_loop.simps) (simp only: a e prod.case option.case, simp)
  with Cons.prems have "length buf + 1 \<le> room" by (auto split: if_splits)
  with st have st': "str_loop W DQUOTE room buf ?L = str_loop W DQUOTE room (buf @ [c]) ?M" by simp
  with Cons.prems have "snd (str_loop W DQUOTE room (buf @ [c]) ?M) \<noteq> StrOverflow" by simp
  from Cons.IH [OF this] show ?case unfolding st' by simp
qed

lemma lex_step_quoted:
  assumes p: "lp L = DQUOTE # concat (map quote_char s) @ DQUOTE # r"
  shows "\<exists>t. lex_step fe W L = Some (L\<lparr>lp := r\<rparr>, Some t) \<and> kind t = TOK_STRING \<and> str_buf t = s"
proof -
  let ?M = "L\<lparr>lp := concat (map quote_char s) @ DQUOTE # r\<rparr>"
  have m: "adv 1 L = ?M" using p by simp
  have "snd (str_loop W DQUOTE (str_cap DQUOTE (lp ?M) + 4) [] ?M) \<noteq> StrOverflow"
    by (rule str_loop_room) simp_all
  from str_loop_quoted [OF this] have "read_string W L DQUOTE = (L\<lparr>lp := r\<rparr>, StrOk s)"
    unfolding read_string_def Let_def m by simp
  with p show ?thesis by (simp add: lex_step_def Let_def ctype_defs)
qed

section \<open>Printing and lexing\<close>

text \<open>
  Lexemes, how they are written, and the token that stands for one. A long-bracket string opens
  with a line feed, which the lexer drops.
\<close>

datatype lexeme = LFixed TokKind | LName string | LInt nat | LHex string | LStr string | LLong nat string

fun print_lexeme :: "lexeme \<Rightarrow> string" where
  "print_lexeme (LFixed k) = tok_kind_name k"
| "print_lexeme (LName s) = s"
| "print_lexeme (LInt n) = dec_str n"
| "print_lexeme (LHex s) = ''0x'' @ s"
| "print_lexeme (LStr s) = DQUOTE # concat (map quote_char s) @ [DQUOTE]"
| "print_lexeme (LLong n s) =
     CHR ''['' # replicate n (CHR ''='') @ [CHR ''['', LF] @ s @ close_bracket n"

fun lexeme_ok :: "lexeme \<Rightarrow> bool" where
  "lexeme_ok (LFixed k) = (k \<in> set (operator_kinds @ keyword_kinds))"
| "lexeme_ok (LName s) =
     (s \<noteq> [] \<and> (is_alpha (hd s) \<or> hd s = CHR ''_'') \<and> list_all is_word s \<and> map_of KEYWORDS s = None)"
| "lexeme_ok (LInt n) = (n < 2 ^ 63)"
| "lexeme_ok (LHex s) = list_all is_xdigit s"
| "lexeme_ok (LStr s) = True"
| "lexeme_ok (LLong n s) = (NUL \<notin> set s \<and> first_close n (s @ close_bracket n) = Some (s, []))"

fun denotes :: "lexeme \<Rightarrow> Token \<Rightarrow> bool" where
  "denotes (LFixed k) t = (kind t = k)"
| "denotes (LName s) t = (kind t = TOK_IDENT \<and> take (tlen t) (tstart t) = s)"
| "denotes (LInt n) t = (kind t = TOK_INT \<and> i_val t = of_nat n)"
| "denotes (LHex s) t = (kind t = TOK_INT \<and> i_val t = of_nat (hex_value s))"
| "denotes (LStr s) t = (kind t = TOK_STRING \<and> str_buf t = s)"
| "denotes (LLong n s) t = (kind t = TOK_STRING \<and> str_buf t = s)"

definition print_lexemes :: "lexeme list \<Rightarrow> string" where
  "print_lexemes ls = CHR '' '' # concat (map (\<lambda>l. print_lexeme l @ '' '') ls)"

lemma prefix_append_exact: "prefix u (v @ w) \<Longrightarrow> length u \<le> length v \<Longrightarrow> prefix u v"
  by (metis prefix_length_prefix prefixI prefix_order.refl append_prefixD)

lemma first_close_here: "first_close n (close_bracket n @ u) = Some ([], u)"
  by (subst first_close.simps) (simp, simp add: close_bracket_def)

lemma first_close_append:
  "first_close n p = Some (b, q) \<Longrightarrow> first_close n (p @ r) = Some (b, q @ r)"
proof (induction n p arbitrary: b q rule: first_close.induct)
  case (1 n p)
  show ?case
  proof (cases "prefix (close_bracket n) p")
    case True
    then obtain u where "p = close_bracket n @ u" by (auto simp: prefix_def)
    with 1(2) show ?thesis by (simp only: append.assoc first_close_here) auto
  next
    case False
    with 1(2) obtain c s b' where p: "p = c # s" "first_close n s = Some (b', q)" "b = c # b'"
      by (auto simp: first_close.simps [of n p] split: list.splits)
    from 1(1) [OF False p(1,2)] have IH: "first_close n (s @ r) = Some (b', q @ r)" .
    from p(2) have "\<exists>w. s = w @ close_bracket n @ q \<and> w = b'"
    proof (induction s arbitrary: b')
      case Nil
      then show ?case by (simp add: first_close.simps [of n "[]"] close_bracket_def)
    next
      case (Cons d s)
      then show ?case
        by (auto simp: first_close.simps [of n "d # s"] dest: drop_close_bracket split: if_splits)
    qed
    then have "length (close_bracket n) \<le> length p" using p(1) by simp
    with False have "\<not> prefix (close_bracket n) (p @ r)" using prefix_append_exact by blast
    with p IH show ?thesis by (simp add: first_close.simps [of n "c # s @ r"])
  qed
qed

lemma first_close_split: "first_close n p = Some (b, q) \<Longrightarrow> p = b @ close_bracket n @ q"
proof (induction n p arbitrary: b q rule: first_close.induct)
  case (1 n p)
  show ?case
  proof (cases "prefix (close_bracket n) p")
    case True
    with 1(2) drop_close_bracket [OF True] show ?thesis by (auto simp: first_close.simps [of n p])
  next
    case False
    with 1(2) obtain c s b' where p: "p = c # s" "first_close n s = Some (b', q)" "b = c # b'"
      by (auto simp: first_close.simps [of n p] split: list.splits)
    from 1(1) [OF False p(1,2)] p show ?thesis by simp
  qed
qed

lemma first_close_first:
  "first_close n p = Some (b, q) \<Longrightarrow> \<not> sublist (close_bracket n) (b @ butlast (close_bracket n))"
proof (induction n p arbitrary: b q rule: first_close.induct)
  case (1 n p)
  have short: "\<not> sublist (close_bracket n) (butlast (close_bracket n))"
  proof
    assume "sublist (close_bracket n) (butlast (close_bracket n))"
    from sublist_length_le [OF this] show False by (simp add: close_bracket_def)
  qed
  show ?case
  proof (cases "prefix (close_bracket n) p")
    case True
    with 1(2) short show ?thesis by (auto simp: first_close.simps [of n p])
  next
    case False
    with 1(2) obtain c s b' where p: "p = c # s" "first_close n s = Some (b', q)" "b = c # b'"
      by (auto simp: first_close.simps [of n p] split: list.splits)
    from 1(1) [OF False p(1,2)] have IH: "\<not> sublist (close_bracket n) (b' @ butlast (close_bracket n))" .
    have "p = (b @ butlast (close_bracket n)) @ CHR '']'' # q"
      using first_close_split [OF 1(2)] by (simp add: close_bracket_def butlast_append)
    with False have "\<not> prefix (close_bracket n) (b @ butlast (close_bracket n))"
      by (metis prefix_append prefixI prefix_order.trans)
    with IH p(3) show ?thesis by (simp add: sublist_Cons_right)
  qed
qed

lemma first_close_None: "first_close n p = None \<longleftrightarrow> \<not> sublist (close_bracket n) p"
proof (induction n p rule: first_close.induct)
  case (1 n p)
  show ?case
  proof (cases p)
    case Nil
    then show ?thesis by (simp add: first_close.simps close_bracket_def)
  next
    case (Cons c s)
    with 1 [OF _ Cons] show ?thesis
      by (cases "prefix (close_bracket n) p") (simp_all add: first_close.simps [of n "c # s"] sublist_Cons_right)
  qed
qed

lemma close_bracket_no_NUL: "NUL \<notin> set (close_bracket n)"
  by (auto simp: close_bracket_def)

lemma long_loop_lok: "lok (fst (long_loop n body L)) = lok L"
  by (induction n body L rule: long_loop.induct) (subst long_loop.simps, auto simp: Let_def)

lemma read_long_body_lok: "read_long_body L n = (L', r) \<Longrightarrow> lok L' = lok L"
  using long_loop_lok [of n "[]" L] by (simp add: read_long_body_def)

lemma lex_step_long:
  assumes p: "lp L = print_lexeme (LLong n s) @ r" and s: "lexeme_ok (LLong n s)"
    and "NUL \<notin> set r" and "lok L"
  shows "\<exists>M t. lex_step fe W L = Some (M, Some t) \<and> denotes (LLong n s) t \<and> lp M = r \<and> lok M"
proof -
  let ?rest = "s @ close_bracket n @ r"
  define N where "N = L\<lparr>lp := ?rest, lline := lline L + 1\<rparr>"
  have o: "try_open_long_bracket L = (Some n, N)"
    using p by (simp add: try_open_long_bracket_def Let_def eq_run_replicate N_def)
  have "first_close n (lp N) = Some (s, r)"
    using s first_close_append [of n "s @ close_bracket n" s "[]" r] by (simp add: N_def)
  moreover have "NUL \<notin> set (lp N)" using s assms(3) close_bracket_no_NUL by (auto simp: N_def)
  ultimately have l: "(case read_long_body N n of (L', r) \<Rightarrow> (r, lp L')) = (Some s, r)"
    using long_loop_first_close [of N n "[]"] by (simp add: read_long_body_def)
  then obtain M where m: "read_long_body N n = (M, Some s)" "lp M = r" by (auto split: prod.splits)
  have "lok M = lok N" using read_long_body_lok [OF m(1)] .
  then have "lok M" using assms(4) by (simp add: N_def)
  with p o m show ?thesis
    by (simp add: lex_step_def Let_def lex_operator_def one_ops_def lex_bracket_def ctype_defs)
qed

lemma lex_step_lexeme:
  assumes p: "lp L = print_lexeme l @ CHR '' '' # r" and l: "lexeme_ok l" and "NUL \<notin> set r" and "lok L"
  shows "\<exists>M t. lex_step fe W L = Some (M, Some t) \<and> denotes l t \<and> lp M = CHR '' '' # r \<and> lok M"
proof (cases l)
  case (LFixed k)
  with l consider "k \<in> set operator_kinds" | "k \<in> set keyword_kinds" by auto
  then show ?thesis
  proof cases
    case 1
    from lex_step_operator [OF 1 _ assms(4), of r fe W] p LFixed assms(4) show ?thesis by auto
  next
    case 2
    let ?w = "tok_kind_name k"
    have k: "map_of KEYWORDS ?w = Some k" using 2 keyword_kinds_table by (auto simp: list_all_iff)
    have "list_all (\<lambda>(s, k). s \<noteq> [] \<and> is_alpha (at s) \<and> list_all is_word s) KEYWORDS"
      by (simp add: KEYWORDS_def ctype_defs is_word_def)
    with map_of_SomeD [OF k] have "?w \<noteq> []" "is_alpha (at ?w)" "\<forall>c\<in>set ?w. is_word c"
      by (auto simp: list_all_iff)
    with lex_step_word [of L ?w "CHR '' '' # r" fe W] p LFixed k assms(4) show ?thesis
      by (auto simp: is_word_def ctype_defs)
  qed
next
  case (LName s)
  with l have "s \<noteq> []" "is_alpha (at s) \<or> at s = CHR ''_''" "\<forall>c\<in>set s. is_word c" "map_of KEYWORDS s = None"
    by (cases s; auto simp: list_all_iff)+
  with lex_step_word [of L s "CHR '' '' # r" fe W] p LName assms(4) show ?thesis
    by (auto simp: is_word_def ctype_defs)
next
  case (LInt n)
  have "ends_numeral (CHR '' '' # r)" by (simp add: ends_numeral_def ctype_defs)
  with lex_step_digits [of L "dec_str n" "CHR '' '' # r" fe W] p l LInt assms(4) dec_str_digits show ?thesis
    by (auto simp: dec_val_dec_str)
next
  case (LHex s)
  have "ends_numeral (CHR '' '' # r)" by (simp add: ends_numeral_def ctype_defs)
  with lex_step_hex [of L "CHR ''x''" s "CHR '' '' # r" fe W] p l LHex assms(4) show ?thesis
    by (auto simp: list_all_iff)
next
  case (LStr s)
  with lex_step_quoted [of L s "CHR '' '' # r" fe W] p assms(4) show ?thesis by auto
next
  case (LLong n s)
  with lex_step_long [of L n s "CHR '' '' # r" fe W] p l assms(3,4) show ?thesis by auto
qed

lemma print_lexeme_no_NUL: "lexeme_ok l \<Longrightarrow> NUL \<notin> set (print_lexeme l)"
proof -
  have ops: "list_all (\<lambda>k. NUL \<notin> set (tok_kind_name k)) (operator_kinds @ keyword_kinds)"
    by (simp add: operator_kinds_def keyword_kinds_def)
  have q: "NUL \<notin> set (quote_char c)" for c
  proof -
    have "chr n \<noteq> NUL" if "48 \<le> n" "n < 58" for n
    proof
      assume "chr n = NUL"
      then have "code (chr n) = code NUL" by (rule arg_cong)
      then have "n mod 256 = 0" by simp
      with that show False by simp
    qed
    note nz = this
    have "chr (48 + code c div 100) \<noteq> NUL" "chr (48 + code c div 10 mod 10) \<noteq> NUL" "chr (48 + code c mod 10) \<noteq> NUL"
      by (rule nz; auto simp: div_less_iff_less_mult intro: less_trans [OF code_less])+
    then show ?thesis by (simp add: quote_char_def eq_commute [of NUL])
  qed
  assume "lexeme_ok l"
  then show ?thesis
  proof (cases l)
    case (LFixed k)
    with \<open>lexeme_ok l\<close> ops show ?thesis by (auto simp: list_all_iff)
  next
    case (LStr s)
    with q show ?thesis by auto
  next
    case (LLong n s)
    with \<open>lexeme_ok l\<close> close_bracket_no_NUL show ?thesis by auto
  qed (use \<open>lexeme_ok l\<close> in \<open>auto simp: list_all_iff is_word_def ctype_defs dest: dec_str_digits\<close>)
qed

lemma lexes_print:
  "list_all lexeme_ok ls \<Longrightarrow> lok L \<Longrightarrow> lp L = concat (map (\<lambda>l. print_lexeme l @ '' '') ls) \<Longrightarrow>
    \<exists>ts L'. lexes fe W L ts L' \<and> list_all2 denotes ls ts \<and> lok L' \<and> lp L' = []"
proof (induction ls arbitrary: L)
  case Nil
  then show ?case by (intro exI [of _ "[]"] exI [of _ L]) (auto intro: lexes.stop)
next
  case (Cons l ls)
  let ?r = "concat (map (\<lambda>l. print_lexeme l @ '' '') ls)"
  have p: "lp L = print_lexeme l @ CHR '' '' # ?r" using Cons.prems by simp
  have "NUL \<notin> set ?r" using Cons.prems(1) print_lexeme_no_NUL by (auto simp: list_all_iff)
  with lex_step_lexeme [OF p _ _ Cons.prems(2), of fe W] Cons.prems(1) obtain M t where
    M: "lex_step fe W L = Some (M, Some t)" "denotes l t" "lp M = CHR '' '' # ?r" "lok M" by auto
  have sp: "lex_step fe W M = Some (adv 1 M, None)" using M(3) by (simp add: lex_step_def Let_def ctype_defs)
  from Cons.IH [of "adv 1 M"] Cons.prems(1) M obtain ts L' where
    i: "lexes fe W (adv 1 M) ts L'" "list_all2 denotes ls ts" "lok L'" "lp L' = []" by auto
  have "lexes fe W M ts L'" by (rule lexes.skip [OF _ M(4) sp i(1)]) (simp add: M(3))
  moreover have "at (lp L) \<noteq> NUL"
  proof -
    have "print_lexeme l \<noteq> []" using M(1) p by (cases l) (auto simp: lex_step_def Let_def ctype_defs)
    then show ?thesis using p print_lexeme_no_NUL [of l] Cons.prems(1) by (cases "print_lexeme l") auto
  qed
  ultimately have "lexes fe W L (t # ts) L'" using Cons.prems(2) M(1) by (intro lexes.tok)
  with i M(2) show ?case by fastforce
qed

lemma print_lexemes_lexes:
  assumes "list_all lexeme_ok ls"
  shows "\<exists>ts L. lexes fe W (lex_start (print_lexemes ls)) ts L \<and> list_all2 denotes ls ts \<and> lok L \<and> lp L = []"
proof -
  let ?s = "concat (map (\<lambda>l. print_lexeme l @ '' '') ls)"
  define S where "S = lex_start (print_lexemes ls)"
  have "NUL \<notin> set (print_lexemes ls)"
    using assms print_lexeme_no_NUL by (auto simp: print_lexemes_def list_all_iff)
  then have S: "lp S = CHR '' '' # ?s" "lok S" by (simp_all add: S_def lex_start_def cstr_id print_lexemes_def)
  have sp: "lex_step fe W S = Some (adv 1 S, None)" using S by (simp add: lex_step_def Let_def ctype_defs)
  from lexes_print [OF assms, of "adv 1 S" fe W] S obtain ts L where
    r: "lexes fe W (adv 1 S) ts L" "list_all2 denotes ls ts" "lok L" "lp L = []" by auto
  have "lexes fe W S ts L" by (rule lexes.skip [OF _ S(2) sp r(1)]) (simp add: S(1))
  with r show ?thesis unfolding S_def by blast
qed

section \<open>Properties\<close>

definition fe_zero :: fp_env where
  "fe_zero = \<lparr>strtod = \<lambda>s. (0, 0), to_float = \<lambda>d. 0\<rparr>"

lemma lex_ends_with_eof:
  "\<exists>L. lex fe W src = Some L \<and> tl_items L \<noteq> [] \<and> kind (last (tl_items L)) = TOK_EOF"
  using lex_lexes [of fe W src] by (auto simp: eof_token_def tok_zero_def)

text \<open>C14: The lexer is total and memory safe on every text: no string literal overruns its scratch
  buffer (whose size is computed by a scan ahead of decoding), the main loop ends, exactly one EOF
  token is returned, as the last, and no error token ever reaches the parser.\<close>

theorem lex_total:
  "\<exists>ts e ok err. lex fe W src = Some \<lparr>tl_items = ts @ [e], tl_ok = ok, tl_err = err\<rparr>
     \<and> kind e = TOK_EOF \<and> kind ` set ts \<inter> {TOK_EOF, TOK_ERROR} = {}"
proof -
  from lex_lexes [of fe W src] obtain ts L where
    l: "lexes fe W (lex_start src) ts L"
       "lex fe W src = Some \<lparr>tl_items = ts @ [eof_token L], tl_ok = lok L, tl_err = lerr L\<rparr>" by blast
  from lexes_tokens [OF l(1)] have "kind ` set ts \<inter> {TOK_EOF, TOK_ERROR} = {}" by auto
  moreover have "kind (eof_token L) = TOK_EOF" by (simp add: eof_token_def tok_zero_def)
  ultimately show ?thesis using l(2) by blast
qed

lemma moves_start: "moves (lex_start src) M \<Longrightarrow>
  suffix (lp M) (cstr src) \<and> (CR \<notin> set src \<longrightarrow>
    lline M = 1 + count_list (take (length (cstr src) - length (lp M)) (cstr src)) LF)"
proof -
  assume m: "moves (lex_start src) M"
  let ?Z = "\<lparr>lp = cstr src, lline = 1, lok = True, lerr = []\<rparr> :: Lex"
  have "moves ?Z (lex_start src)"
    using moves_dropWhile [of "\<lambda>c. c \<noteq> LF" ?Z] by (simp add: lex_start_def Let_def)
  from moves_trans [OF this m] obtain u where
    u: "cstr src = u @ lp M" "CR \<notin> set u \<longrightarrow> lline M = 1 + count_list u LF" by (auto simp: moves_def)
  have "set u \<subseteq> set src"
    using u(1) by (metis Un_upper1 cstr_def set_append set_takeWhileD subset_iff)
  with u show ?thesis by (auto simp: suffix_def)
qed

text \<open>C34: Tokens are spans of the source in order: every token starts at a suffix of the text and
  lies within it, two tokens never overlap, and, in a text without carriage returns, a token's line
  is one more than the number of line feeds before it.\<close>

theorem tokens_are_spans:
  assumes "lex fe W src = Some r" and "t \<in> set (tl_items r)"
  shows "suffix (tstart t) (cstr src) \<and> tlen t \<le> length (tstart t)
    \<and> sorted_wrt (\<lambda>t u. length (tstart u) + tlen t \<le> length (tstart t)) (tl_items r)
    \<and> (CR \<notin> set src \<longrightarrow>
         tline t = 1 + count_list (take (length (cstr src) - length (tstart t)) (cstr src)) LF)"
proof -
  from lex_lexes [of fe W src] assms(1) obtain ts L where
    l: "lexes fe W (lex_start src) ts L" and r: "tl_items r = ts @ [eof_token L]" by auto
  note T = lexes_tokens [OF l]
  have e: "tstart (eof_token L) = lp L" "tline (eof_token L) = lline L" "tlen (eof_token L) = 0"
    by (simp_all add: eof_token_def tok_zero_def)
  have "\<exists>M. moves (lex_start src) M \<and> tstart t = lp M \<and> tline t = lline M"
    using assms(2) T e lexes_moves [OF l] unfolding r by auto
  moreover have "tlen t \<le> length (tstart t)" using assms(2) T e unfolding r by auto
  moreover have "sorted_wrt (\<lambda>t u. length (tstart u) + tlen t \<le> length (tstart t)) (tl_items r)"
    using T e unfolding r by (simp add: sorted_wrt_append)
  ultimately show ?thesis using moves_start [of src] by auto
qed

lemma tokens_are_spans_witness:
  "\<exists>r t. lex fe_zero 64 (''x'' @ [LF, CHR ''y'']) = Some r \<and> t \<in> set (tl_items r) \<and> tline t = 2
     \<and> suffix (tstart t) (''x'' @ [LF, CHR ''y''])"
proof -
  let ?s = "''x'' @ [LF, CHR ''y'']"
  have l: "map_option (\<lambda>r. map tline (tl_items r)) (lex fe_zero 64 ?s) = Some [1, 2, 2]" by code_simp
  then obtain r where r: "lex fe_zero 64 ?s = Some r" "map tline (tl_items r) = [1, 2, 2]" by auto
  then have "tl_items r ! 1 \<in> set (tl_items r)" "tline (tl_items r ! 1) = 2"
    by (auto simp: map_eq_Cons_conv)
  with tokens_are_spans [OF r(1) this(1)] r(1) show ?thesis by (auto simp: cstr_def)
qed

text \<open>C35: Keyword recognition: the length and first-character prefilters of \<open>keyword_or_ident\<close> never
  change the answer of a plain lookup in the keyword table, and a keyword token is reported under
  the spelling it was recognised by.\<close>

theorem keyword_lookup_exact:
  assumes "n \<le> length s"
  shows "keyword_or_ident s n = (case map_of KEYWORDS (take n s) of Some k \<Rightarrow> k | None \<Rightarrow> TOK_IDENT)
    \<and> (keyword_or_ident s n = TOK_IDENT \<or> tok_kind_name (keyword_or_ident s n) = take n s)"
  using keyword_lookup [OF assms] KEYWORDS_names [of "take n s"] by (auto split: option.splits)

lemma keyword_lookup_exact_witness:
  "keyword_or_ident ''end)'' 3 = TOK_KW_END \<and> tok_kind_name TOK_KW_END = ''end''"
  using keyword_lookup_exact [of 3 "''end)''"] by (simp add: KEYWORDS_def)

text \<open>C15: Print and lex: writing any sequence of operators, keywords, names, decimal and hexadecimal
  integers, strings with every byte escaped and long-bracket strings, separated by spaces, and
  lexing the text, gives back exactly those tokens with their values, without an error.\<close>

theorem lex_print_lexemes:
  assumes "list_all lexeme_ok ls"
  shows "\<exists>ts e err. lex fe W (print_lexemes ls)
      = Some \<lparr>tl_items = ts @ [e], tl_ok = True, tl_err = err\<rparr> \<and> list_all2 denotes ls ts"
proof -
  from print_lexemes_lexes [OF assms, of fe W] obtain ts L where
    l: "lexes fe W (lex_start (print_lexemes ls)) ts L" and d: "list_all2 denotes ls ts" "lok L" by blast
  from lexes_lex [OF l] d show ?thesis by auto
qed

lemma lex_print_lexemes_witness:
  "\<exists>ts e err. lex fe_zero 64
       (print_lexemes [LFixed TOK_KW_LOCAL, LName ''x'', LFixed TOK_ASSIGN, LInt 7, LStr [NUL, LF], LLong 1 '']]''])
     = Some \<lparr>tl_items = ts @ [e], tl_ok = True, tl_err = err\<rparr>
     \<and> list_all2 denotes [LFixed TOK_KW_LOCAL, LName ''x'', LFixed TOK_ASSIGN, LInt 7, LStr [NUL, LF], LLong 1 '']]''] ts"
  by (rule lex_print_lexemes)
     (simp add: operator_kinds_def keyword_kinds_def KEYWORDS_def ctype_defs is_word_def
       close_bracket_def first_close.simps)

text \<open>C36: A decimal numeral is an integer token exactly when its value fits a signed 64-bit integer,
  with that value; otherwise it is a float token with the value \<open>strtod\<close> gives the whole numeral,
  however long it is.\<close>

theorem decimal_literal:
  "\<exists>t e err. lex fe W (dec_str n) = Some \<lparr>tl_items = [t, e], tl_ok = True, tl_err = err\<rparr>
     \<and> (if n < 2 ^ 63 then kind t = TOK_INT \<and> i_val t = of_nat n
        else kind t = TOK_FLOAT \<and> f_val t = fst (strtod fe (dec_str n)))"
proof -
  define S where "S = lex_start (dec_str n)"
  have d: "\<forall>c\<in>set (dec_str n). is_digit c" using dec_str_digits by blast
  then have nn: "NUL \<notin> set (dec_str n)" by auto
  obtain c cs where cs: "dec_str n = c # cs" by (cases "dec_str n") auto
  with d have "c \<noteq> CHR ''#''" by (auto simp: ctype_defs)
  with nn cs have S: "lp S = dec_str n @ []" "lok S" "lerr S = []" by (auto simp: S_def lex_start_def cstr_id)
  have "ends_numeral []" by (simp add: ends_numeral_def)
  from lex_step_digits [OF S(1) _ d this, of fe W] obtain t where
    t: "lex_step fe W S = Some (S\<lparr>lp := []\<rparr>, Some t)"
      "if n < 2 ^ 63 then kind t = TOK_INT \<and> i_val t = of_nat n
       else kind t = TOK_FLOAT \<and> f_val t = fst (strtod fe (dec_str n))"
    by (auto simp: dec_val_dec_str)
  have "at (lp S) \<noteq> NUL" using S(1) cs nn by auto
  then have "lexes fe W S [t] (S\<lparr>lp := []\<rparr>)"
    by (rule lexes.tok [OF _ S(2) t(1) lexes.stop]) simp
  from lexes_lex [OF this [unfolded S_def]] S t(2) show ?thesis by (auto simp: S_def)
qed

text \<open>C37: Long brackets: the body of a long string or comment is the text up to the first closing
  bracket of the same level, byte for byte, and reading fails exactly when there is none.\<close>

theorem long_body_first_close:
  assumes "NUL \<notin> set (lp L)"
  shows "case read_long_body L n of
      (L', Some b) \<Rightarrow> lp L = b @ close_bracket n @ lp L' \<and> \<not> sublist (close_bracket n) (b @ butlast (close_bracket n))
    | (L', None) \<Rightarrow> \<not> sublist (close_bracket n) (lp L)"
proof (cases "first_close n (lp L)")
  case None
  with long_loop_first_close [OF assms, of n "[]"] have "snd (read_long_body L n) = None"
    by (auto simp: read_long_body_def split: prod.splits)
  with None show ?thesis by (auto simp: first_close_None split: prod.splits)
next
  case (Some br)
  obtain b r where br: "br = (b, r)" by fastforce
  with Some long_loop_first_close [OF assms, of n "[]"] have
    "snd (read_long_body L n) = Some b" "lp (fst (read_long_body L n)) = r"
    by (auto simp: read_long_body_def split: prod.splits)
  with first_close_split [of n "lp L" b r] first_close_first [of n "lp L" b r] Some br show ?thesis
    by (auto split: prod.splits)
qed

lemma long_body_first_close_witness:
  "\<exists>L' b. read_long_body \<lparr>lp = ''a]]b'', lline = 1, lok = True, lerr = []\<rparr> 0 = (L', Some b) \<and> b = ''a''"
proof -
  let ?L = "\<lparr>lp = ''a]]b'', lline = 1, lok = True, lerr = []\<rparr> :: Lex"
  have r: "read_long_body ?L 0 = (?L\<lparr>lp := ''b''\<rparr>, Some ''a'')" by code_simp
  have "NUL \<notin> set (lp ?L)" by simp
  from long_body_first_close [OF this, of 0] r show ?thesis by auto
qed

section \<open>Unicode escapes\<close>

lemma or_shift:
  assumes "h < 2 ^ k"
  shows "push_bit k (a :: u64) OR of_nat h = push_bit k a + of_nat h"
proof -
  have "push_bit k a AND of_nat h = 0"
  proof (rule bit_word_eqI)
    fix n
    have "take_bit k h = h" using assms by (simp add: take_bit_nat_eq_self)
    then have "bit (of_nat h :: u64) n \<Longrightarrow> n < k" by (metis bit_take_bit_iff bit_of_nat_iff)
    then show "bit (push_bit k a AND of_nat h) n = bit (0 :: u64) n"
      by (auto simp: bit_and_iff bit_push_bit_iff)
  qed
  then show ?thesis using word_plus_and_or [of "push_bit k a" "of_nat h"] by simp
qed

lemma drop_bit_of_nat: "drop_bit k (cp :: u64) = of_nat (unat cp div 2 ^ k)"
proof -
  have "unat (drop_bit k cp) = unat cp div 2 ^ k" by (simp add: unat_drop_bit_eq drop_bit_nat_def)
  then have "of_nat (unat (drop_bit k cp)) = (of_nat (unat cp div 2 ^ k) :: u64)" by simp
  then show ?thesis by simp
qed

lemma utf8_lead:
  assumes "unat cp div 2 ^ k < 2 ^ j" and "m = push_bit j a" and "unat m + 2 ^ j \<le> 256"
  shows "byte_of (m OR drop_bit k cp) = chr (unat m + unat cp div 2 ^ k)"
proof -
  have "m OR drop_bit k cp = m + of_nat (unat cp div 2 ^ k)"
    using or_shift [OF assms(1)] by (simp add: assms(2) drop_bit_of_nat)
  moreover have "unat (m + of_nat (unat cp div 2 ^ k)) = unat m + unat cp div 2 ^ k"
    using assms(1,3) by (simp add: unat_word_ariths unat_of_nat)
  ultimately show ?thesis by (simp add: byte_of_def)
qed

lemma utf8_cont: "byte_of (0x80 OR (drop_bit k cp AND 0x3F)) = chr (128 + unat cp div 2 ^ k mod 64)"
proof -
  let ?h = "unat cp div 2 ^ k mod 64"
  have "drop_bit k cp AND 0x3F = take_bit 6 (drop_bit k cp)" by (simp add: take_bit_eq_mask mask_numeral)
  also have "\<dots> = of_nat ?h"
    unfolding drop_bit_of_nat by (simp add: take_bit_of_nat take_bit_nat_def)
  finally have e: "drop_bit k cp AND 0x3F = of_nat ?h" .
  have "push_bit 6 2 = (0x80 :: u64)" by simp
  with or_shift [of ?h 6 2] have "0x80 OR (drop_bit k cp AND 0x3F) = 0x80 + of_nat ?h" unfolding e by simp
  moreover have "unat (0x80 + of_nat ?h :: u64) = 128 + ?h"
    by (simp add: unat_word_ariths unat_of_nat)
  ultimately show ?thesis by (simp add: byte_of_def)
qed

text \<open>Decoding by the definition of UTF-8, on sequences of up to six bytes.\<close>

definition utf8_value :: "string \<Rightarrow> nat" where
  "utf8_value s = (case s of [] \<Rightarrow> 0 | c # cs \<Rightarrow>
     foldl (\<lambda>v d. v * 64 + (code d - 128)) (code c - [0, 192, 224, 240, 248, 252] ! length cs) cs)"

lemma utf8_value_steps:
  assumes "a + b < 256" and "[0, 192, 224, 240, 248, 252] ! n = a" and "length cs = n"
  shows "utf8_value (chr (a + b) # cs) = foldl (\<lambda>v d. v * 64 + (code d - 128)) b cs"
  using assms by (simp add: utf8_value_def)

lemma utf8_decodes:
  assumes "unat cp < 2 ^ 31"
  shows "utf8_value (utf8 cp) = unat cp"
proof -
  define n where "n = unat cp"
  note cont = utf8_cont [of _ cp, folded n_def] utf8_cont [of 0 cp, folded n_def, simplified]
  note lead = utf8_lead [of cp, folded n_def]
  have lt: "cp < of_nat m \<longleftrightarrow> n < m" if "m < 2 ^ 64" for m
    using that by (simp add: word_less_nat_alt unat_of_nat n_def)
  have digits: "n div 64 * 64 + n mod 64 = n" "n div 4096 * 64 + n div 64 mod 64 = n div 64"
    "n div 262144 * 64 + n div 4096 mod 64 = n div 4096" "n div 16777216 * 64 + n div 262144 mod 64 = n div 262144"
    "n div 1073741824 * 64 + n div 16777216 mod 64 = n div 16777216"
  proof -
    have "n div (m * 64) * 64 + n div m mod 64 = n div m" for m
      by (simp only: div_mult2_eq div_mult_mod_eq)
    from this [of 1] this [of 64] this [of 4096] this [of 262144] this [of 16777216]
    show "n div 64 * 64 + n mod 64 = n" "n div 4096 * 64 + n div 64 mod 64 = n div 64"
      "n div 262144 * 64 + n div 4096 mod 64 = n div 4096" "n div 16777216 * 64 + n div 262144 mod 64 = n div 262144"
      "n div 1073741824 * 64 + n div 16777216 mod 64 = n div 16777216" by simp_all
  qed
  have b: "n < 2147483648" using assms by (simp add: n_def)
  have m: "d mod 64 + 128 < 256" for d :: nat by (simp add: add.commute [of _ 128] less_trans [of "128 + d mod 64" "128 + 64"])
  have cc: "code (chr (128 + d mod 64)) - 128 = d mod 64" for d
    using m [of d] by (simp add: add.commute)
  consider "n < 0x80" | "0x80 \<le> n" "n < 0x800" | "0x800 \<le> n" "n < 0x10000" | "0x10000 \<le> n" "n < 0x200000"
    | "0x200000 \<le> n" "n < 0x4000000" | "0x4000000 \<le> n" by linarith
  then show ?thesis unfolding n_def [symmetric]
  proof cases
    case 1
    then have "utf8 cp = [chr n]" using lt [of 128] by (simp add: utf8_def byte_of_def n_def)
    with 1 show "utf8_value (utf8 cp) = n" by (simp add: utf8_value_def)
  next
    case 2
    then have q: "n div 64 < 32" by (simp add: div_less_iff_less_mult)
    from 2 lt [of 128] lt [of 2048] have u:
      "utf8 cp = [chr (192 + n div 64), chr (128 + n mod 64)]"
      using lead [of 6 5 192 6] q by (simp add: utf8_def cont)
    have "utf8_value (utf8 cp) = (n div 64) * 64 + n mod 64"
      unfolding u by (subst utf8_value_steps [of 192 _ 1]; (simp only: foldl.simps cc)?; (use q in simp; fail)?)
    also have "\<dots> = n" by (simp only: digits)
    finally show "utf8_value (utf8 cp) = n" .
  next
    case 3
    then have q: "n div 4096 < 16" by (simp add: div_less_iff_less_mult)
    from 3 lt [of 128] lt [of 2048] lt [of 65536] have u:
      "utf8 cp = [chr (224 + n div 4096), chr (128 + n div 64 mod 64), chr (128 + n mod 64)]"
      using lead [of 12 4 224 14] q by (simp add: utf8_def cont)
    have "utf8_value (utf8 cp) = ((n div 4096) * 64 + n div 64 mod 64) * 64 + n mod 64"
      unfolding u by (subst utf8_value_steps [of 224 _ 2]; (simp only: foldl.simps cc)?; (use q in simp; fail)?)
    also have "\<dots> = n" by (simp only: digits)
    finally show "utf8_value (utf8 cp) = n" .
  next
    case 4
    then have q: "n div 262144 < 8" by (simp add: div_less_iff_less_mult)
    from 4 lt [of 128] lt [of 2048] lt [of 65536] lt [of 2097152] have u:
      "utf8 cp = [chr (240 + n div 262144), chr (128 + n div 4096 mod 64), chr (128 + n div 64 mod 64), chr (128 + n mod 64)]"
      using lead [of 18 3 240 30] q by (simp add: utf8_def cont)
    have "utf8_value (utf8 cp) = (((n div 262144) * 64 + n div 4096 mod 64) * 64 + n div 64 mod 64) * 64 + n mod 64"
      unfolding u by (subst utf8_value_steps [of 240 _ 3]; (simp only: foldl.simps cc)?; (use q in simp; fail)?)
    also have "\<dots> = n" by (simp only: digits)
    finally show "utf8_value (utf8 cp) = n" .
  next
    case 5
    then have q: "n div 16777216 < 4" by (simp add: div_less_iff_less_mult)
    from 5 lt [of 128] lt [of 2048] lt [of 65536] lt [of 2097152] lt [of 67108864] have u:
      "utf8 cp = [chr (248 + n div 16777216), chr (128 + n div 262144 mod 64), chr (128 + n div 4096 mod 64),
         chr (128 + n div 64 mod 64), chr (128 + n mod 64)]"
      using lead [of 24 2 248 62] q by (simp add: utf8_def cont)
    have "utf8_value (utf8 cp) = ((((n div 16777216) * 64 + n div 262144 mod 64) * 64 + n div 4096 mod 64) * 64 + n div 64 mod 64) * 64 + n mod 64"
      unfolding u by (subst utf8_value_steps [of 248 _ 4]; (simp only: foldl.simps cc)?; (use q in simp; fail)?)
    also have "\<dots> = n" by (simp only: digits)
    finally show "utf8_value (utf8 cp) = n" .
  next
    case 6
    with b have q: "n div 1073741824 < 2" by (simp add: div_less_iff_less_mult)
    from 6 lt [of 128] lt [of 2048] lt [of 65536] lt [of 2097152] lt [of 67108864] have u:
      "utf8 cp = [chr (252 + n div 1073741824), chr (128 + n div 16777216 mod 64), chr (128 + n div 262144 mod 64),
         chr (128 + n div 4096 mod 64), chr (128 + n div 64 mod 64), chr (128 + n mod 64)]"
      using lead [of 30 1 252 126] q by (simp add: utf8_def cont)
    have "utf8_value (utf8 cp) = (((((n div 1073741824) * 64 + n div 16777216 mod 64) * 64 + n div 262144 mod 64) * 64 + n div 4096 mod 64) * 64 + n div 64 mod 64) * 64 + n mod 64"
      unfolding u by (subst utf8_value_steps [of 252 _ 5]; (simp only: foldl.simps cc)?; (use q in simp; fail)?)
    also have "\<dots> = n" by (simp only: digits)
    finally show "utf8_value (utf8 cp) = n" .
  qed
qed

definition hex_from :: "nat \<Rightarrow> string \<Rightarrow> nat" where
  "hex_from v s = foldl (\<lambda>v c. v * 16 + hex_val c) v s"

lemma hex_from_ge: "v \<le> hex_from v s"
proof (induction s arbitrary: v)
  case (Cons c s)
  have "v \<le> v * 16 + hex_val c" by simp
  also have "\<dots> \<le> hex_from v (c # s)" using Cons [of "v * 16 + hex_val c"] by (simp add: hex_from_def)
  finally show ?case .
qed (simp add: hex_from_def)

lemma unat_of_nat_small: "m < 2 ^ 64 \<Longrightarrow> unat (of_nat m :: u64) = m"
  by (simp add: unat_of_nat)

lemma cp_digits_exact:
  assumes "\<not> is_xdigit (at r)"
  shows "\<forall>c\<in>set ds. is_xdigit c \<Longrightarrow> unat cp < 2 ^ 31 \<Longrightarrow>
    (if hex_from (unat cp) ds < 2 ^ 31
     then cp_digits 64 cp sn (ds @ r) = (Some (of_nat (hex_from (unat cp) ds), sn \<or> ds \<noteq> []), r)
     else fst (cp_digits 64 cp sn (ds @ r)) = None)"
proof (induction ds arbitrary: cp sn)
  case Nil
  then show ?case using assms by (cases r) (simp_all add: hex_from_def)
next
  case (Cons c ds)
  have h: "hex_val c < 16" using Cons.prems(1) by (simp add: hex_val_less)
  let ?n = "unat cp * 16 + hex_val c" and ?cp = "take_bit 64 (push_bit 4 cp OR of_nat (hex_val c)) :: u64"
  have cp: "?cp = of_nat ?n"
    using or_shift4 [OF h, of cp] by (simp add: take_bit_length_eq [where 'a = 64, simplified])
  have n: "unat ?cp = ?n" unfolding cp using Cons.prems(2) h by (intro unat_of_nat_small) simp
  have big: "?cp > 0x7FFFFFFF \<longleftrightarrow> \<not> ?n < 2 ^ 31" by (simp only: word_less_nat_alt n) auto
  have st: "hex_from (unat cp) (c # ds) = hex_from ?n ds" by (simp add: hex_from_def)
  show ?case
  proof (cases "?n < 2 ^ 31")
    case True
    have "cp_digits 64 cp sn ((c # ds) @ r) = cp_digits 64 ?cp True (ds @ r)"
      using Cons.prems(1) True big by (simp only: append_Cons cp_digits.simps Let_def) simp
    with Cons.IH [of ?cp True] Cons.prems(1) True n st show ?thesis
      by (simp del: cp_digits.simps take_bit_or split: if_split_asm)
  next
    case False
    with hex_from_ge [of ?n ds] st have "\<not> hex_from (unat cp) (c # ds) < 2 ^ 31" by linarith
    moreover have "fst (cp_digits 64 cp sn ((c # ds) @ r)) = None"
      using Cons.prems(1) False big by (simp only: append_Cons cp_digits.simps Let_def) simp
    ultimately show ?thesis by presburger
  qed
qed

text \<open>C22: Unicode escapes, with a 64-bit \<open>unsigned long\<close>: an escape with any number of hexadecimal
  digits (leading zeros included) writes a UTF-8 sequence that decodes to its value when that is
  below 2^31, and is an error otherwise; nothing wraps around.\<close>

theorem unicode_escape_exact:
  assumes "ds \<noteq> []" and "\<forall>c\<in>set ds. is_xdigit c" and "lp L = ''u{'' @ ds @ ''}'' @ r"
  shows "if hex_value ds < 2 ^ 31
    then \<exists>bs. escape 64 L = (L\<lparr>lp := r\<rparr>, Some bs) \<and> utf8_value bs = hex_value ds
    else snd (escape 64 L) = None"
proof -
  have v: "hex_from (unat (0 :: u64)) ds = hex_value ds" by (simp add: hex_from_def hex_value_def)
  have e: "escape 64 L = escape_u 64 L"
    using assms(3) by (simp add: escape_def Let_def simple_escapes_def)
  have r: "\<not> is_xdigit (at (''}'' @ r))" by (simp add: ctype_defs)
  from cp_digits_exact [OF r assms(2), of 0 False, unfolded v] have
    d: "if hex_value ds < 2 ^ 31 then cp_digits 64 0 False (ds @ ''}'' @ r) = (Some (of_nat (hex_value ds), True), ''}'' @ r)
      else fst (cp_digits 64 0 False (ds @ ''}'' @ r)) = None" using assms(1) by (simp split: if_split_asm)
  show ?thesis
  proof (cases "hex_value ds < 2 ^ 31")
    case True
    have "utf8_value (utf8 (of_nat (hex_value ds))) = hex_value ds"
      using utf8_decodes [of "of_nat (hex_value ds)"] True by (simp add: unat_of_nat)
    with True d e assms(3) show ?thesis by (auto simp: escape_u_def Let_def)
  next
    case False
    with d obtain p where "cp_digits 64 0 False (ds @ ''}'' @ r) = (None, p)"
      by (cases "cp_digits 64 0 False (ds @ ''}'' @ r)") auto
    with False e assms(3) show ?thesis by (simp add: escape_u_def Let_def)
  qed
qed

lemma unicode_escape_exact_witness:
  "\<exists>L bs. lp L = ''u{20AC}!'' \<and> escape 64 L = (L\<lparr>lp := ''!''\<rparr>, Some bs) \<and> utf8_value bs = 0x20AC"
proof -
  let ?L = "\<lparr>lp = ''u{20AC}!'', lline = 1, lok = True, lerr = []\<rparr> :: Lex"
  have h: "hex_value ''20AC'' = 0x20AC" by code_simp
  have "\<forall>c\<in>set ''20AC''. is_xdigit c" by (simp add: ctype_defs)
  from unicode_escape_exact [of "''20AC''" ?L "''!''", OF _ this] h
  have "\<exists>bs. escape 64 ?L = (?L\<lparr>lp := ''!''\<rparr>, Some bs) \<and> utf8_value bs = 0x20AC" by simp
  then show ?thesis by (intro exI [of _ ?L]) simp
qed

text \<open>
  With a 32-bit \<open>unsigned long\<close> (the compiler built to WebAssembly) the check comes after the shift
  has dropped the upper bits, and a value of 2^32 is accepted as 0.
\<close>

lemma unicode_escape_wraps_32:
  "map_option (\<lambda>r. (tl_ok r, map str_buf (tl_items r))) (lex fe_zero 32 (DQUOTE # BSLASH # ''u{100000000}'' @ [DQUOTE]))
     = Some (True, [[NUL], []])"
  "map_option tl_ok (lex fe_zero 64 (DQUOTE # BSLASH # ''u{100000000}'' @ [DQUOTE])) = Some False"
  by code_simp+

end
