(* ===== verification/Parser_Properties.thy ===== *)
theory Parser_Properties
  imports Parser_Total Parser_Print Parser_Scope Lexer_Correct
begin

text \<open>
  What the parser guarantees: it terminates, stays inside its arrays and returns well-scoped trees; names
  resolve lexically, assignments to const variables are rejected, and operators group by their levels.
\<close>

section \<open>Results\<close>

text \<open>Tokens for the examples: a kind and a text.\<close>

definition tk :: "TokKind \<Rightarrow> string \<Rightarrow> Token" where
  "tk k s = tok_zero\<lparr>kind := k, tstart := s, tlen := length s\<rparr>"

text \<open>C6: Lexer and parser terminate on every source text: the recursion of the parser and the loops
  of all its statements and expressions, whatever the text, stay within a bound of one more than the
  number of tokens, whether the source is a Lua program or not.\<close>

theorem parse_terminates:
  "\<exists>L. lex fe W src = Some L \<and> parse (tl_items L) \<noteq> ParseFuel"
proof -
  obtain L where l: "lex fe W src = Some L" "tl_items L \<noteq> []" "kind (last (tl_items L)) = TOK_EOF"
    using lex_ends_with_eof by blast
  from parse_cases [OF l(2,3)] have "parse (tl_items L) \<noteq> ParseFuel" by auto
  with l(1) show ?thesis by blast
qed

text \<open>C7: The parser is memory safe on every token list with at most 256 identifiers: no access is
  outside the token array, the frames or a function's 256 \<open>captured\<close> flags, and a result is returned.\<close>

theorem parse_memory_safe:
  assumes "ts \<noteq> []" and "kind (last ts) = TOK_EOF"
    and "length (filter (\<lambda>t. kind t = TOK_IDENT) ts) \<le> 256"
  shows "\<exists>r. parse ts = ParseDone r"
  using parse_cases [OF assms(1,2)] assms(3) by (auto simp: max_defs)

lemma parse_memory_safe_witness:
  "\<exists>r. parse [tk TOK_KW_LOCAL [], tk TOK_IDENT ''x'', tk TOK_EOF []] = ParseDone r"
  by (rule parse_memory_safe) (simp_all add: tk_def tok_zero_def)

text \<open>C3: Whatever the parser returns is well scoped: every variable of every tree is a slot of its
  function, one of the function's upvalues, the global or the builtin of that name; every upvalue refers to a slot
  of the enclosing function that is flagged as captured, or to an upvalue of it; every function node is
  a function declared inside the function where it occurs; and all the tables are within their limits.\<close>

theorem parse_well_scoped:
  assumes "ts \<noteq> []" and "kind (last ts) = TOK_EOF" and "parse ts = ParseDone r"
  shows "wf_program r"
  using parse_cases [OF assms(1,2)] assms(3) by auto

lemma parse_well_scoped_witness:
  "\<exists>r. parse [tk TOK_KW_LOCAL [], tk TOK_IDENT ''x'', tk TOK_EOF []] = ParseDone r \<and> wf_program r"
proof -
  let ?ts = "[tk TOK_KW_LOCAL [], tk TOK_IDENT ''x'', tk TOK_EOF []]"
  obtain r where "parse ?ts = ParseDone r"
    using parse_cases [of ?ts] by (auto simp: tk_def tok_zero_def max_defs)
  then show ?thesis using parse_well_scoped [of ?ts r] by (auto simp: tk_def tok_zero_def)
qed

text \<open>C5: Every name resolves to its innermost declaration: a local of the current function to its slot, a
  local of an enclosing function to an upvalue that leads through the functions in between to that slot,
  a global declaration to the global or builtin of that name, with its const attribute; a name without a
  declaration to the global or builtin.\<close>

theorem resolve_innermost:
  assumes "run_state (resolve_name n) p = (Some (k, i, ro), q)" and "\<forall>f\<in>set (frames p). slots_fresh f"
  shows "resolves n (frames p) (frames q) (globals q) k i ro"
proof -
  obtain r hs t where r: "resolve_in_frame n \<lparr>collective = ALL_NONE, voided = False\<rparr> (frames p) p = ((r, hs), t)"
    by (metis prod.exhaust)
  with assms(1) have "r = Some (k, i, ro)" "q = t\<lparr>frames := hs\<rparr>" by (simp_all add: resolve_name_def)
  then show ?thesis using resolve_in_frame_resolves [OF r [unfolded \<open>r = _\<close>]] assms(2) slots_fresh_slotted by simp
qed

text \<open>An example: a function inside one that declares \<open>x\<close> as its first, const local.\<close>

definition ex_state :: Parser where
  "ex_state =
     \<lparr>ptoks = [tk TOK_EOF []], pos = 0,
      frames = [frame_init, frame_mark_last_const (snd (frame_declare ''x'' frame_init))],
      funcs = [(func_new 1)], cur_fn = Some 0, globals = [],
      labels = [], gotos = [], fn_labels = 0, fn_gotos = 0, blk_gotos = 0, blk_nactvar = 0,
      perror = [], pok = True, oob = False, nofuel = False\<rparr>"

lemma ex_state_facts:
  "\<exists>q. run_state (resolve_name ''x'') ex_state = (Some (VAR_UPVAL, 0, False), q)"
  "\<forall>f\<in>set (frames ex_state). slots_fresh f"
  "find_decl ''x'' (frames ex_state) = Some (1, \<lparr>ls_name = ''x'', ls_slot = Some 0, ls_attrib = 1, ls_kind = DECL_LOCAL\<rparr>)"
  by (simp_all add: ex_state_def resolve_name_def frame_init_def frame_declare_def frame_mark_last_const_def set_last_attrib_def
      max_defs frame_search_def mark_captured_def frame_add_upvalue_def slots_fresh_def slot_below_def slots_agree_def named_def)

lemma resolve_innermost_witness:
  "\<exists>q. run_state (resolve_name ''x'') ex_state = (Some (VAR_UPVAL, 0, False), q)
     \<and> resolves ''x'' (frames ex_state) (frames q) (globals q) VAR_UPVAL 0 False"
  using ex_state_facts(1) resolve_innermost [OF _ ex_state_facts(2), of "''x''" VAR_UPVAL 0 False] by blast



text \<open>C4: Operators group by the levels and associativity of the Lua manual: a tree of operators, literals and
  local variables, printed with no other parentheses than those it records, is parsed back to exactly that tree,
  and nothing else of the state changes.\<close>

theorem operators_parse_back:
  assumes "op_tree (hd (frames p)) e" and "drop (pos p) (ptoks p) = print_ops e @ t # ts" and "ends_expr t"
    and "pok p" and "frames p \<noteq> []" and "length (print_ops e) \<le> n"
  shows "run_state (parse_prec (parser_at n) PREC_OR) p = (Some e, p\<lparr>pos := pos p + length (print_ops e)\<rparr>)"
  using parse_prec_reads [OF assms(1) _ assms(3-6)] assms(2) by (simp add: ahead_def)

text \<open>\<open>- 1 ^ 2 .. (3 - 4) * 5\<close>\<close>

definition ex_tree :: Expr where
  "ex_tree =
     EXPR_BINOP (1, False) BIN_CONCAT
       (EXPR_UNOP (1, False) UN_NEG (EXPR_BINOP (1, False) BIN_POW (EXPR_INT (1, False) 1) (EXPR_INT (1, False) 2)))
       (EXPR_BINOP (1, False) BIN_MUL (EXPR_BINOP (1, True) BIN_SUB (EXPR_INT (1, False) 3) (EXPR_INT (1, False) 4))
         (EXPR_INT (1, False) 5))"

lemma operators_parse_back_witness:
  "run_state (parse_prec (parser_at 12) PREC_OR) (ex_state\<lparr>ptoks := print_ops ex_tree @ [a_tok TOK_EOF 1]\<rparr>)
     = (Some ex_tree, ex_state\<lparr>ptoks := print_ops ex_tree @ [a_tok TOK_EOF 1], pos := length (print_ops ex_tree)\<rparr>)"
proof -
  let ?p = "ex_state\<lparr>ptoks := print_ops ex_tree @ [a_tok TOK_EOF 1]\<rparr>"
  have "op_tree (hd (frames ?p)) ex_tree"
    by (simp add: ex_tree_def fits_left_def fits_right_def left_level_def right_level_def groups_right_def PREC_UNARY_def)
  moreover have "ends_expr (a_tok TOK_EOF 1)" by (simp add: ends_expr_def chain_kinds_def)
  moreover have "length (print_ops ex_tree) \<le> 12" by (simp add: ex_tree_def parens_def)
  ultimately show ?thesis
    using operators_parse_back [of ?p ex_tree "a_tok TOK_EOF 1" "[]" 12] by (simp add: ex_state_def)
qed

end
