(* ===== verification/Parser_Findings.thy ===== *)
theory Parser_Findings
  imports Parser_Print
begin

text \<open>
  Concrete inputs on which the parser (\<open>src/src/parser.c\<close>) does not do what its comments or the Lua
  manual say.
\<close>

section \<open>More slots than captured flags\<close>

text \<open>
  Slots are never reclaimed, so a function that declares locals in 257 blocks one after the other has a
  257th slot while never more than one local is in scope; \<open>captured\<close> has 256 flags. Capturing that local
  writes behind the array, and the copy of the flags at the end of the function reads behind it.
\<close>

definition declare_in_block :: "string \<Rightarrow> FuncFrame \<Rightarrow> FuncFrame" where
  "declare_in_block n f = frame_rewind (frame_mark f) (snd (frame_declare n f))"

lemma declare_in_block_slots:
  "length (locals f) < MAX_LOCALS_PER_FN \<Longrightarrow>
     next_slot (declare_in_block n f) = Suc (next_slot f) \<and> locals (declare_in_block n f) = locals f
     \<and> captured (declare_in_block n f) = captured f"
  by (simp add: declare_in_block_def frame_declare_def frame_rewind_def frame_mark_def)

lemma slots_never_reclaimed:
  "next_slot ((declare_in_block n ^^ k) frame_init) = k \<and> locals ((declare_in_block n ^^ k) frame_init) = []
     \<and> length (captured ((declare_in_block n ^^ k) frame_init)) = 256"
proof (induction k)
  case 0
  then show ?case by (simp add: frame_init_def max_defs)
next
  case (Suc k)
  then show ?case using declare_in_block_slots [of "(declare_in_block n ^^ k) frame_init" n] by (simp add: max_defs)
qed

lemma capture_outside_flags:
  "fst (frame_declare n ((declare_in_block n ^^ 256) frame_init)) = Some 256
     \<and> \<not> fst (mark_captured 256 (snd (frame_declare n ((declare_in_block n ^^ 256) frame_init))))"
  using slots_never_reclaimed [where k = 256] by (simp add: frame_declare_def mark_captured_def max_defs)

section \<open>A \<open>close\<close> variable is not const\<close>

text \<open>In Lua a variable declared \<open>close\<close> is constant; the check only knows the attribute 1.\<close>

lemma close_is_assignable:
  "\<not> target_const VAR_LOCAL 0 False
      (p\<lparr>frames := [set_last_attrib 2 (snd (frame_declare ''x'' frame_init))]\<rparr>)"
  by (simp add: target_const_def frame_local_attrib_by_slot_def set_last_attrib_def frame_declare_def frame_init_def max_defs)

section \<open>Literals take arguments\<close>

text \<open>
  \<open>parse_prefix_chain\<close> reads calls and indices behind every primary expression, a literal or a function body
  included. In Lua they only follow names and parentheses, so that \<open>local n = 1 (f)()\<close> is two statements;
  here 1 is called with \<open>f\<close>.
\<close>

lemma literal_is_called:
  assumes "ahead p = [a_tok TOK_INT 1, a_tok TOK_LPAREN 1, a_tok TOK_RPAREN 1, a_tok TOK_EOF 1]" and "pok p"
  shows "run_state (parse_prefix_chain (parser_at 1)) p
     = (Some (EXPR_CALL (1, False) (EXPR_INT (1, False) 0) []), p\<lparr>pos := pos p + 3\<rparr>)"
proof -
  have "wp (parse_prefix_chain (parser_at 1))
      (\<lambda>r q. r = Some (EXPR_CALL (1, False) (EXPR_INT (1, False) 0) []) \<and> q = shift 3 p) p"
    using assms
    by (simp add: parse_prefix_chain_def parse_primary_def Let_def ahead_Cons whenok_ok chain_step_def chain_call_def call_args_def
        chain_kinds_def eval_nat_numeral a_tok_def tok_zero_def)
  then show ?thesis by (auto simp: wp_def shift_def split: prod.splits)
qed

text \<open>A name in parentheses is an assignment target, as if the parentheses were not there.\<close>

lemma paren_is_target: "expr_to_target (with_paren (EXPR_VAR (l, b) n k i ro)) = Some (TGT_VAR k i)"
  by (simp add: expr_to_target_def)

end
