(* ===== verification/Codegen_Strings.thy ===== *)
theory Codegen_Strings
  imports Prelude
begin

text \<open>
  The constant strings of the code generator (\<open>src/src/codegen/strings.c\<close>): the literal pool with its
  hash index, and the constant-string globals. The pool is shown to hold the same bytes as one without an
  index and to give every string one reference that denotes it, and every constant its own global with
  its own bytes. (The offsets are not always those of a pool without an index, as the comment in the
  code says they are: the last lemma has an example.)
  Running out of memory ends the program and is not modelled. The output is the text that
  \<open>wat_appendf\<close> appends; an array is grown by \<open>realloc\<close>, whose new part is filled with zeros here.
\<close>

section \<open>The pool\<close>

record StrIdxSlot =
  sl_hash :: nat
  sl_offset :: nat
  sl_len :: nat
  sl_used :: bool

record StrPool =
  sp_bytes :: string
  sp_used :: nat
  sp_cap :: nat
  sp_idx :: "StrIdxSlot list"
  sp_idx_cap :: nat
  sp_idx_count :: nat

record StrRef =
  sr_offset :: nat
  sr_len :: nat

definition pool_empty :: StrPool where
  "pool_empty = \<lparr>sp_bytes = [], sp_used = 0, sp_cap = 0, sp_idx = [], sp_idx_cap = 0, sp_idx_count = 0\<rparr>"

text \<open>\<open>size_t\<close> has \<open>W\<close> bits: 32 in the compiler that runs as WebAssembly, else 64.\<close>

definition fnv64 :: "u64 \<Rightarrow> char \<Rightarrow> u64" where
  "fnv64 h c = (h XOR of_nat (code c)) * 1099511628211"

definition strpool_hash :: "nat \<Rightarrow> string \<Rightarrow> nat" where
  "strpool_hash W s = unat (foldl fnv64 1469598103934665603 s) mod 2 ^ W"

text \<open>\<open>memcmp\<close> of the \<open>length s\<close> bytes at an offset; None is \<open>SIZE_MAX\<close>.\<close>

definition bytes_at :: "StrPool \<Rightarrow> nat \<Rightarrow> string \<Rightarrow> bool" where
  "bytes_at p i s \<longleftrightarrow> take (length s) (drop i (sp_bytes p)) = s"

function scan_from :: "StrPool \<Rightarrow> string \<Rightarrow> nat \<Rightarrow> nat option" where
  "scan_from p s i =
     (if i + length s \<le> sp_used p
      then if bytes_at p i s then Some i else scan_from p s (i + 1)
      else None)"
  by pat_completeness auto
termination
  by (relation "measure (\<lambda>(p, s, i). Suc (sp_used p) - i)") auto

declare scan_from.simps [simp del]

definition strpool_scan :: "StrPool \<Rightarrow> string \<Rightarrow> nat option" where
  "strpool_scan p s =
     (if s = [] then Some 0
      else if length s > sp_used p then None
      else scan_from p s 0)"

section \<open>The index\<close>

text \<open>
  A walk over the slots from \<open>i\<close> to an unused one or one that meets the condition. After as many steps as
  there are slots it has seen them all and would go on for ever: None.
\<close>

fun idx_probe :: "StrIdxSlot list \<Rightarrow> nat \<Rightarrow> (StrIdxSlot \<Rightarrow> bool) \<Rightarrow> nat \<Rightarrow> nat \<Rightarrow> nat option" where
  "idx_probe T msk stop i 0 = None"
| "idx_probe T msk stop i (Suc n) =
     (if \<not> sl_used (T ! i) \<or> stop (T ! i) then Some i
      else idx_probe T msk stop ((i + 1) AND msk) n)"

definition idx_walk :: "StrPool \<Rightarrow> (StrIdxSlot \<Rightarrow> bool) \<Rightarrow> nat \<Rightarrow> nat option" where
  "idx_walk p stop hash =
     (let msk = sp_idx_cap p - 1 in idx_probe (sp_idx p) msk stop (hash AND msk) (sp_idx_cap p))"

definition idx_place :: "StrPool \<Rightarrow> nat \<Rightarrow> nat \<Rightarrow> nat \<Rightarrow> StrPool option" where
  "idx_place p hash off n =
     (case idx_walk p (\<lambda>s. sl_hash s = hash \<and> sl_len s = n \<and> sl_offset s = off) hash of
        None \<Rightarrow> None
      | Some i \<Rightarrow>
          if sl_used (sp_idx p ! i) then Some p
          else Some (p\<lparr>sp_idx := (sp_idx p)[i := \<lparr>sl_hash = hash, sl_offset = off, sl_len = n, sl_used = True\<rparr>],
                       sp_idx_count := sp_idx_count p + 1\<rparr>))"

definition idx_full :: "StrPool \<Rightarrow> bool" where
  "idx_full p \<longleftrightarrow> sp_idx_cap p = 0 \<or> (sp_idx_count p + 1) * 10 \<ge> sp_idx_cap p * 7"

text \<open>
  \<open>strpool_index_grow\<close> and \<open>strpool_index_put\<close> call each other; the first takes the second as an
  argument, and the depth of their recursion is bounded. Two calls are enough, since a new table has
  room for all the entries of the old one.
\<close>

fun put_all :: "(StrPool \<Rightarrow> nat \<Rightarrow> nat \<Rightarrow> nat \<Rightarrow> StrPool option) \<Rightarrow> StrIdxSlot list \<Rightarrow> StrPool \<Rightarrow> StrPool option" where
  "put_all put [] p = Some p"
| "put_all put (s # ss) p =
     (if sl_used s
      then (case put p (sl_hash s) (sl_offset s) (sl_len s) of None \<Rightarrow> None | Some p \<Rightarrow> put_all put ss p)
      else put_all put ss p)"

definition slot_zero :: StrIdxSlot where
  "slot_zero = \<lparr>sl_hash = 0, sl_offset = 0, sl_len = 0, sl_used = False\<rparr>"

definition strpool_index_grow ::
    "(StrPool \<Rightarrow> nat \<Rightarrow> nat \<Rightarrow> nat \<Rightarrow> StrPool option) \<Rightarrow> StrPool \<Rightarrow> StrPool option" where
  "strpool_index_grow put p =
     (let c = (if sp_idx_cap p \<noteq> 0 then sp_idx_cap p * 2 else 64)
      in put_all put (sp_idx p) (p\<lparr>sp_idx := replicate c slot_zero, sp_idx_cap := c, sp_idx_count := 0\<rparr>))"

fun index_put :: "nat \<Rightarrow> StrPool \<Rightarrow> nat \<Rightarrow> nat \<Rightarrow> nat \<Rightarrow> StrPool option" where
  "index_put 0 p hash off n = None"
| "index_put (Suc d) p hash off n =
     (case (if idx_full p then strpool_index_grow (index_put d) p else Some p) of
        None \<Rightarrow> None
      | Some p \<Rightarrow> idx_place p hash off n)"

definition strpool_index_put :: "StrPool \<Rightarrow> nat \<Rightarrow> nat \<Rightarrow> nat \<Rightarrow> StrPool option" where
  "strpool_index_put = index_put 2"

text \<open>The outer option is the end of the walk, the inner one its success.\<close>

definition strpool_index_get :: "StrPool \<Rightarrow> nat \<Rightarrow> string \<Rightarrow> nat option option" where
  "strpool_index_get p hash s =
     (if sp_idx_cap p = 0 then Some None
      else case idx_walk p (\<lambda>sl. sl_hash sl = hash \<and> sl_len sl = length s \<and> bytes_at p (sl_offset sl) s) hash of
             None \<Rightarrow> None
           | Some i \<Rightarrow> Some (if sl_used (sp_idx p ! i) then Some (sl_offset (sp_idx p ! i)) else None))"

section \<open>Interning\<close>

definition pool_reserve :: "StrPool \<Rightarrow> nat \<Rightarrow> StrPool option" where
  "pool_reserve p n =
     (if sp_used p + n > sp_cap p
      then case grow_cap (sp_used p + n) (if sp_cap p \<noteq> 0 then sp_cap p else 64) of
             None \<Rightarrow> None
           | Some c \<Rightarrow> Some (p\<lparr>sp_bytes := take c (sp_bytes p) @ replicate (c - length (sp_bytes p)) NUL, sp_cap := c\<rparr>)
      else Some p)"

definition pool_append :: "StrPool \<Rightarrow> string \<Rightarrow> StrPool option" where
  "pool_append p s =
     (case pool_reserve p (length s) of
        None \<Rightarrow> None
      | Some p \<Rightarrow> Some (p\<lparr>sp_bytes := take (sp_used p) (sp_bytes p) @ s @ drop (sp_used p + length s) (sp_bytes p),
                          sp_used := sp_used p + length s\<rparr>))"

definition strpool_add :: "nat \<Rightarrow> StrPool \<Rightarrow> string \<Rightarrow> (StrRef \<times> StrPool) option" where
  "strpool_add W p s =
     (if s = [] then Some (\<lparr>sr_offset = 0, sr_len = 0\<rparr>, p)
      else
        let hash = strpool_hash W s
        in case strpool_index_get p hash s of
             None \<Rightarrow> None
           | Some found \<Rightarrow>
               (case (if found = None then strpool_scan p s else found) of
                  Some off \<Rightarrow>
                    map_option (Pair \<lparr>sr_offset = off, sr_len = length s\<rparr>) (strpool_index_put p hash off (length s))
                | None \<Rightarrow>
                    (case pool_append p s of
                       None \<Rightarrow> None
                     | Some q \<Rightarrow>
                         map_option (Pair \<lparr>sr_offset = sp_used p, sr_len = length s\<rparr>)
                           (strpool_index_put q hash (sp_used p) (length s)))))"

text \<open>A pool without an index: the first place where the run occurs, or the end.\<close>

definition pool_text :: "StrPool \<Rightarrow> string" where
  "pool_text p = take (sp_used p) (sp_bytes p)"

definition occurs_at :: "string \<Rightarrow> string \<Rightarrow> nat \<Rightarrow> bool" where
  "occurs_at B s i \<longleftrightarrow> i + length s \<le> length B \<and> take (length s) (drop i B) = s"

definition first_occurrence :: "string \<Rightarrow> string \<Rightarrow> nat option" where
  "first_occurrence B s = find (occurs_at B s) [0..<Suc (length B)]"

definition plain_add :: "string \<Rightarrow> string \<Rightarrow> StrRef \<times> string" where
  "plain_add B s =
     (case first_occurrence B s of
        Some i \<Rightarrow> (\<lparr>sr_offset = i, sr_len = length s\<rparr>, B)
      | None \<Rightarrow> (\<lparr>sr_offset = length B, sr_len = length s\<rparr>, B @ s))"

section \<open>The scan\<close>

text \<open>The array holds what the pool has, and its capacity.\<close>

definition bytes_ok :: "StrPool \<Rightarrow> bool" where
  "bytes_ok p \<longleftrightarrow> sp_used p \<le> sp_cap p \<and> length (sp_bytes p) = sp_cap p"

lemma length_pool_text [simp]: "bytes_ok p \<Longrightarrow> length (pool_text p) = sp_used p"
  by (simp add: bytes_ok_def pool_text_def)

lemma bytes_at_occurs: "bytes_ok p \<Longrightarrow> i + length s \<le> sp_used p \<Longrightarrow> bytes_at p i s = occurs_at (pool_text p) s i"
  by (simp add: bytes_at_def occurs_at_def pool_text_def bytes_ok_def drop_take min_def)

lemma find_upt_split: "i < n \<Longrightarrow> find P [i..<n] = (if P i then Some i else find P [Suc i..<n])"
  by (simp add: upt_conv_Cons)

lemma scan_from_find:
  "bytes_ok p \<Longrightarrow> i \<le> Suc (sp_used p) \<Longrightarrow> scan_from p s i = find (occurs_at (pool_text p) s) [i..<Suc (sp_used p)]"
proof (induction p s i rule: scan_from.induct)
  case (1 p s i)
  show ?case
  proof (cases "i + length s \<le> sp_used p")
    case True
    then have "scan_from p s i = (if occurs_at (pool_text p) s i then Some i else scan_from p s (Suc i))"
      using bytes_at_occurs [OF 1(2)] by (subst scan_from.simps) simp
    moreover have "find (occurs_at (pool_text p) s) [i..<Suc (sp_used p)] =
        (if occurs_at (pool_text p) s i then Some i else find (occurs_at (pool_text p) s) [Suc i..<Suc (sp_used p)])"
      using True by (intro find_upt_split) simp
    moreover have "\<not> occurs_at (pool_text p) s i \<Longrightarrow>
        scan_from p s (Suc i) = find (occurs_at (pool_text p) s) [Suc i..<Suc (sp_used p)]"
      using 1 True bytes_at_occurs [OF 1(2), of i s] by simp
    ultimately show ?thesis by simp
  next
    case False
    then have "find (occurs_at (pool_text p) s) [i..<Suc (sp_used p)] = None"
      using 1(2) by (auto simp: find_None_iff occurs_at_def)
    with False show ?thesis by (subst scan_from.simps) simp
  qed
qed

lemma strpool_scan_first: "bytes_ok p \<Longrightarrow> strpool_scan p s = first_occurrence (pool_text p) s"
proof -
  assume b: "bytes_ok p"
  have "first_occurrence (pool_text p) [] = Some 0"
    by (simp add: first_occurrence_def find_upt_split occurs_at_def del: upt_Suc)
  moreover have "first_occurrence (pool_text p) s = None" if "length s > sp_used p"
    using that b by (auto simp: first_occurrence_def find_None_iff occurs_at_def)
  ultimately show ?thesis using scan_from_find [OF b, of 0 s] b
    by (auto simp: strpool_scan_def first_occurrence_def)
qed

lemma first_occurrence_Some:
  "first_occurrence B s = Some i \<longleftrightarrow> occurs_at B s i \<and> (\<forall>j<i. \<not> occurs_at B s j)"
proof -
  have "(\<exists>k<length [0..<Suc (length B)]. occurs_at B s ([0..<Suc (length B)] ! k) \<and> i = [0..<Suc (length B)] ! k
      \<and> (\<forall>j<k. \<not> occurs_at B s ([0..<Suc (length B)] ! j)))
    \<longleftrightarrow> (\<exists>k<Suc (length B). occurs_at B s k \<and> i = k \<and> (\<forall>j<k. \<not> occurs_at B s j))"
    by (intro ex_cong1 conj_cong all_cong) (simp_all del: upt_Suc)
  also have "\<dots> \<longleftrightarrow> occurs_at B s i \<and> (\<forall>j<i. \<not> occurs_at B s j)" by (auto simp: occurs_at_def)
  finally show ?thesis by (simp only: first_occurrence_def find_Some_iff)
qed

lemma first_occurrence_None: "first_occurrence B s = None \<longleftrightarrow> (\<forall>i. \<not> occurs_at B s i)"
  unfolding first_occurrence_def find_None_iff by (auto simp: occurs_at_def simp del: upt_Suc)

lemma occurs_at_append: "i + length s \<le> length B \<Longrightarrow> occurs_at (B @ C) s i = occurs_at B s i"
  by (simp add: occurs_at_def)

lemma first_occurrence_append:
  assumes "first_occurrence B s = Some i"
  shows "first_occurrence (B @ C) s = Some i"
proof -
  from assms have i: "occurs_at B s i" "\<forall>j<i. \<not> occurs_at B s j" by (simp_all add: first_occurrence_Some)
  then have "i + length s \<le> length B" by (simp add: occurs_at_def)
  then have "occurs_at (B @ C) s j = occurs_at B s j" if "j \<le> i" for j using that by (intro occurs_at_append) simp
  with i show ?thesis by (simp add: first_occurrence_Some)
qed

text \<open>A run appended to the pool occurs at its end.\<close>

lemma occurs_at_end: "occurs_at (B @ s) s (length B)"
  by (simp add: occurs_at_def)

section \<open>The index as a hash table\<close>

text \<open>
  The capacity is a power of two and no more than 70 per cent are used; between the slot where the walk of an entry
  starts and the entry all slots are used.
\<close>

definition home :: "nat \<Rightarrow> nat \<Rightarrow> nat \<Rightarrow> nat" where
  "home c h d = (h + d) mod c"

definition reachable :: "StrIdxSlot list \<Rightarrow> nat \<Rightarrow> bool" where
  "reachable T r \<longleftrightarrow> (\<exists>d<length T. r = home (length T) (sl_hash (T ! r)) d
     \<and> (\<forall>e<d. sl_used (T ! home (length T) (sl_hash (T ! r)) e)))"

definition n_used :: "StrIdxSlot list \<Rightarrow> nat" where
  "n_used T = length (filter sl_used T)"

definition table_ok :: "StrIdxSlot list \<Rightarrow> bool" where
  "table_ok T \<longleftrightarrow> (\<exists>k. length T = 2 ^ k) \<and> n_used T < length T \<and> (\<forall>r<length T. sl_used (T ! r) \<longrightarrow> reachable T r)"

lemma and_mask_mod: "length T = 2 ^ k \<Longrightarrow> i AND (length T - 1) = i mod length T"
  by (metis mask_eq_exp_minus_1 take_bit_eq_mask take_bit_eq_mod)

lemma home_step:
  assumes "length T = 2 ^ k"
  shows "(home (length T) h d + 1) AND (length T - 1) = home (length T) h (Suc d)"
  unfolding and_mask_mod [OF assms] home_def by (simp add: mod_Suc_eq)

lemma home_less: "0 < c \<Longrightarrow> home c h d < c"
  by (simp add: home_def)

text \<open>Every slot is on the walk from every start.\<close>

lemma home_onto:
  assumes "r < c" shows "\<exists>d<c. home c h d = r"
proof -
  let ?d = "(r + (c - h mod c)) mod c"
  have "(h + ?d) mod c = (h mod c + (r + (c - h mod c))) mod c" by (simp add: mod_simps)
  also have "h mod c + (r + (c - h mod c)) = r + c" using assms mod_less_divisor [of c h] by linarith
  finally have "home c h ?d = r" using assms by (simp add: home_def)
  moreover have "?d < c" using assms by simp
  ultimately show ?thesis by blast
qed

lemma probe_stops:
  assumes "length T = 2 ^ k" and "d + n = length T" and "\<exists>e. d \<le> e \<and> e < length T \<and> \<not> sl_used (T ! home (length T) h e)"
  shows "\<exists>e. idx_probe T (length T - 1) stop (home (length T) h d) n = Some (home (length T) h e) \<and> d \<le> e \<and> e < length T
     \<and> (\<forall>j. d \<le> j \<longrightarrow> j < e \<longrightarrow> sl_used (T ! home (length T) h j) \<and> \<not> stop (T ! home (length T) h j))
     \<and> (\<not> sl_used (T ! home (length T) h e) \<or> stop (T ! home (length T) h e))"
  using assms(2,3)
proof (induction n arbitrary: d)
  case 0
  then show ?case by auto
next
  case (Suc n)
  show ?case
  proof (cases "\<not> sl_used (T ! home (length T) h d) \<or> stop (T ! home (length T) h d)")
    case True
    with Suc.prems show ?thesis by (intro exI [of _ d]) auto
  next
    case False
    have "\<exists>e. Suc d \<le> e \<and> e < length T \<and> \<not> sl_used (T ! home (length T) h e)"
      using Suc.prems(2) False by (metis le_antisym not_less_eq_eq)
    from Suc.IH [OF _ this] Suc.prems(1) obtain e where
      e: "idx_probe T (length T - 1) stop (home (length T) h (Suc d)) n = Some (home (length T) h e)" "Suc d \<le> e" "e < length T"
        "\<forall>j. Suc d \<le> j \<longrightarrow> j < e \<longrightarrow> sl_used (T ! home (length T) h j) \<and> \<not> stop (T ! home (length T) h j)"
        "\<not> sl_used (T ! home (length T) h e) \<or> stop (T ! home (length T) h e)" by auto
    have "\<forall>j. d \<le> j \<longrightarrow> j < e \<longrightarrow> sl_used (T ! home (length T) h j) \<and> \<not> stop (T ! home (length T) h j)"
      using e(4) False by (metis le_antisym not_less_eq_eq)
    with e False show ?thesis
      by (intro exI [of _ e]) (auto simp: home_step [OF assms(1)] simp del: One_nat_def)
  qed
qed

lemma unused_exists: "n_used T < length T \<Longrightarrow> \<exists>r<length T. \<not> sl_used (T ! r)"
proof (rule ccontr)
  assume "n_used T < length T" "\<not> (\<exists>r<length T. \<not> sl_used (T ! r))"
  then show False by (metis filter_True in_set_conv_nth n_used_def order_less_irrefl)
qed

text \<open>The walk from a hash ends at its first slot that is unused or meets the condition.\<close>

lemma walk_spec:
  assumes "table_ok (sp_idx p)" and "sp_idx_cap p = length (sp_idx p)"
  shows "\<exists>e. idx_walk p stop h = Some (home (length (sp_idx p)) h e) \<and> e < length (sp_idx p)
     \<and> (\<forall>j<e. sl_used (sp_idx p ! home (length (sp_idx p)) h j) \<and> \<not> stop (sp_idx p ! home (length (sp_idx p)) h j))
     \<and> (\<not> sl_used (sp_idx p ! home (length (sp_idx p)) h e) \<or> stop (sp_idx p ! home (length (sp_idx p)) h e))"
proof -
  let ?T = "sp_idx p"
  obtain k where k: "length ?T = 2 ^ k" using assms(1) by (auto simp: table_ok_def)
  obtain r where "r < length ?T" "\<not> sl_used (?T ! r)" using unused_exists assms(1) by (auto simp: table_ok_def)
  then have "\<exists>e. 0 \<le> e \<and> e < length ?T \<and> \<not> sl_used (?T ! home (length ?T) h e)" using home_onto by (metis le0)
  from probe_stops [OF k _ this, of "length ?T" stop] show ?thesis
    using assms(2) and_mask_mod [OF k, of h] by (auto simp: idx_walk_def home_def)
qed


section \<open>Placing an entry\<close>

definition entries :: "StrPool \<Rightarrow> StrIdxSlot set" where
  "entries p = {s \<in> set (sp_idx p). sl_used s}"

definition index_ok :: "StrPool \<Rightarrow> bool" where
  "index_ok p \<longleftrightarrow> sp_idx_cap p = length (sp_idx p) \<and> sp_idx_count p = n_used (sp_idx p) \<and> table_ok (sp_idx p)"

lemma n_used_update:
  "r < length T \<Longrightarrow> \<not> sl_used (T ! r) \<Longrightarrow> sl_used s \<Longrightarrow> n_used (T[r := s]) = Suc (n_used T)"
proof (induction T arbitrary: r)
  case (Cons t T)
  then show ?case by (cases r) (auto simp: n_used_def)
qed simp

lemma reachable_update:
  assumes "reachable T r" and "r < length T" and "\<not> sl_used (T ! i)" and "sl_used (T ! r)" and "sl_used s" and "i < length T"
  shows "reachable (T[i := s]) r"
  using assms by (auto simp: reachable_def nth_list_update)

lemma entries_update:
  assumes "i < length T" and "\<not> sl_used (T ! i)" and "sl_used s"
  shows "{t \<in> set (T[i := s]). sl_used t} = insert s {t \<in> set T. sl_used t}"
proof -
  have "t \<in> set (T[i := s])" if t: "t \<in> set T" "sl_used t" for t
  proof -
    obtain j where "j < length T" "T ! j = t" using t(1) by (auto simp: in_set_conv_nth)
    then show ?thesis using assms t(2) by (metis in_set_conv_nth length_list_update nth_list_update_neq)
  qed
  moreover have "s \<in> set (T[i := s])" using assms(1) by (rule set_update_memI)
  moreover have "t = s \<or> t \<in> set T" if "t \<in> set (T[i := s])" for t using that set_update_subset_insert by fastforce
  ultimately show ?thesis using assms(3) by blast
qed

lemma idx_place_spec:
  assumes ok: "index_ok p" and room: "n_used (sp_idx p) + 1 < length (sp_idx p)"
  shows "\<exists>p'. idx_place p h off n = Some p' \<and> index_ok p' \<and> n_used (sp_idx p') \<le> n_used (sp_idx p) + 1
     \<and> sp_idx_cap p' = sp_idx_cap p \<and> sp_bytes p' = sp_bytes p \<and> sp_used p' = sp_used p \<and> sp_cap p' = sp_cap p
     \<and> entries p' = insert \<lparr>sl_hash = h, sl_offset = off, sl_len = n, sl_used = True\<rparr> (entries p)"
proof -
  let ?T = "sp_idx p" and ?new = "\<lparr>sl_hash = h, sl_offset = off, sl_len = n, sl_used = True\<rparr>"
  let ?stop = "\<lambda>s. sl_hash s = h \<and> sl_len s = n \<and> sl_offset s = off"
  have t: "table_ok ?T" "sp_idx_cap p = length ?T" using ok by (simp_all add: index_ok_def)
  from walk_spec [OF t, of ?stop h] obtain e where
    e: "idx_walk p ?stop h = Some (home (length ?T) h e)" "e < length ?T"
      "\<forall>j<e. sl_used (?T ! home (length ?T) h j) \<and> \<not> ?stop (?T ! home (length ?T) h j)"
      "\<not> sl_used (?T ! home (length ?T) h e) \<or> ?stop (?T ! home (length ?T) h e)" by auto
  let ?r = "home (length ?T) h e"
  have r: "?r < length ?T" using e(2) by (intro home_less) linarith
  show ?thesis
  proof (cases "sl_used (?T ! ?r)")
    case True
    with e(4) have "?T ! ?r = ?new" by (cases "?T ! ?r") simp
    then have "?new \<in> entries p" using r by (auto simp: entries_def in_set_conv_nth)
    with True e(1) ok show ?thesis by (auto simp: idx_place_def insert_absorb)
  next
    case False
    let ?U = "?T[?r := ?new]"
    have u: "n_used ?U = Suc (n_used ?T)" using n_used_update [OF r False] by simp
    have "reachable ?U j" if "j < length ?U" "sl_used (?U ! j)" for j
    proof (cases "j = ?r")
      case True
      have "?U ! home (length ?T) h i = ?T ! home (length ?T) h i" if "i < e" for i
        using e(3) that False by (metis nth_list_update_neq)
      then show ?thesis using e(2,3) r True unfolding reachable_def
        by (intro exI [of _ e]) auto
    next
      case neq: False
      with that have "sl_used (?T ! j)" "reachable ?T j" using t(1) by (auto simp: table_ok_def)
      then show ?thesis using reachable_update [of ?T j ?r ?new] False r that by simp
    qed
    then have "table_ok ?U" using t(1) u room by (auto simp: table_ok_def)
    moreover have "entries (p\<lparr>sp_idx := ?U, sp_idx_count := sp_idx_count p + 1\<rparr>) = insert ?new (entries p)"
      using entries_update [OF r False, of ?new] by (simp add: entries_def)
    ultimately show ?thesis using False e(1) ok u by (auto simp: idx_place_def index_ok_def)
  qed
qed

section \<open>Growing\<close>

declare index_put.simps [simp del]

lemma index_put_room: "\<not> idx_full p \<Longrightarrow> index_put (Suc d) p h off n = idx_place p h off n"
  by (simp add: index_put.simps)

lemma put_all_spec:
  assumes "\<And>s. s \<in> set ss \<Longrightarrow> sl_used s \<Longrightarrow> s = \<lparr>sl_hash = sl_hash s, sl_offset = sl_offset s, sl_len = sl_len s, sl_used = True\<rparr>"
    and "index_ok p" and "(n_used (sp_idx p) + n_used ss + 1) * 10 < length (sp_idx p) * 7"
  shows "\<exists>p'. put_all (index_put (Suc d)) ss p = Some p' \<and> index_ok p' \<and> n_used (sp_idx p') \<le> n_used (sp_idx p) + n_used ss
     \<and> sp_idx_cap p' = sp_idx_cap p \<and> sp_bytes p' = sp_bytes p \<and> sp_used p' = sp_used p \<and> sp_cap p' = sp_cap p
     \<and> entries p' = {s \<in> set ss. sl_used s} \<union> entries p"
  using assms
proof (induction ss arbitrary: p)
  case Nil
  then show ?case by (auto simp: n_used_def)
next
  case (Cons s ss)
  show ?case
  proof (cases "sl_used s")
    case False
    then have "n_used (s # ss) = n_used ss" by (simp add: n_used_def)
    moreover have "{t \<in> set (s # ss). sl_used t} = {t \<in> set ss. sl_used t}" using False by auto
    ultimately show ?thesis using Cons.IH [of p] Cons.prems False by simp
  next
    case True
    then have u: "n_used (s # ss) = Suc (n_used ss)" by (simp add: n_used_def)
    have full: "\<not> idx_full p" using Cons.prems(2,3) by (auto simp: idx_full_def index_ok_def)
    have "n_used (sp_idx p) + 1 < length (sp_idx p)" using Cons.prems(3) by simp
    from idx_place_spec [OF Cons.prems(2) this] obtain q where
      q: "idx_place p (sl_hash s) (sl_offset s) (sl_len s) = Some q" "index_ok q" "n_used (sp_idx q) \<le> n_used (sp_idx p) + 1"
        "sp_idx_cap q = sp_idx_cap p" "sp_bytes q = sp_bytes p" "sp_used q = sp_used p" "sp_cap q = sp_cap p"
        "entries q = insert \<lparr>sl_hash = sl_hash s, sl_offset = sl_offset s, sl_len = sl_len s, sl_used = True\<rparr> (entries p)"
      by blast
    have len: "length (sp_idx q) = length (sp_idx p)" using q(2,4) Cons.prems(2) by (simp add: index_ok_def)
    have "(n_used (sp_idx q) + n_used ss + 1) * 10 < length (sp_idx q) * 7" using Cons.prems(3) q(3) u len by simp
    from Cons.IH [OF _ q(2) this] Cons.prems(1) obtain p' where
      p': "put_all (index_put (Suc d)) ss q = Some p'" "index_ok p'" "n_used (sp_idx p') \<le> n_used (sp_idx q) + n_used ss"
        "sp_idx_cap p' = sp_idx_cap q" "sp_bytes p' = sp_bytes q" "sp_used p' = sp_used q" "sp_cap p' = sp_cap q"
        "entries p' = {s \<in> set ss. sl_used s} \<union> entries q" by auto
    moreover have "\<lparr>sl_hash = sl_hash s, sl_offset = sl_offset s, sl_len = sl_len s, sl_used = True\<rparr> = s"
      using Cons.prems(1) [of s] True by simp
    ultimately show ?thesis using True q u by (auto simp: index_put_room [OF full])
  qed
qed

text \<open>The invariant of the index: at most 70 per cent are used, or there is no table yet.\<close>

definition load_ok :: "StrPool \<Rightarrow> bool" where
  "load_ok p \<longleftrightarrow> (sp_idx p = [] \<and> sp_idx_cap p = 0 \<and> sp_idx_count p = 0)
     \<or> (index_ok p \<and> 64 \<le> length (sp_idx p) \<and> n_used (sp_idx p) * 10 \<le> length (sp_idx p) * 7)"

lemma table_zero: "c = 2 ^ k \<Longrightarrow> table_ok (replicate c slot_zero)"
  by (auto simp: table_ok_def n_used_def slot_zero_def)

lemma strpool_index_put_spec:
  assumes "load_ok p"
  shows "\<exists>p'. strpool_index_put p h off n = Some p' \<and> load_ok p' \<and> sp_idx p' \<noteq> []
     \<and> sp_bytes p' = sp_bytes p \<and> sp_used p' = sp_used p \<and> sp_cap p' = sp_cap p
     \<and> entries p' = insert \<lparr>sl_hash = h, sl_offset = off, sl_len = n, sl_used = True\<rparr> (entries p)"
proof -
  have place: "\<exists>p'. idx_place q h off n = Some p' \<and> load_ok p' \<and> sp_idx p' \<noteq> []
     \<and> sp_bytes p' = sp_bytes q \<and> sp_used p' = sp_used q \<and> sp_cap p' = sp_cap q
     \<and> entries p' = insert \<lparr>sl_hash = h, sl_offset = off, sl_len = n, sl_used = True\<rparr> (entries q)"
    if q: "index_ok q" "64 \<le> length (sp_idx q)" "(n_used (sp_idx q) + 1) * 10 \<le> length (sp_idx q) * 7" for q
  proof -
    have "n_used (sp_idx q) + 1 < length (sp_idx q)" using q(2,3) by simp
    from idx_place_spec [OF q(1) this] obtain p' where p': "idx_place q h off n = Some p'" "index_ok p'"
        "n_used (sp_idx p') \<le> n_used (sp_idx q) + 1" "sp_idx_cap p' = sp_idx_cap q"
        "sp_bytes p' = sp_bytes q" "sp_used p' = sp_used q" "sp_cap p' = sp_cap q"
        "entries p' = insert \<lparr>sl_hash = h, sl_offset = off, sl_len = n, sl_used = True\<rparr> (entries q)" by blast
    have "length (sp_idx p') = length (sp_idx q)" using p'(2,4) q(1) by (simp add: index_ok_def)
    with p' q have "load_ok p'" "sp_idx p' \<noteq> []" by (auto simp: load_ok_def)
    with p' show ?thesis by blast
  qed
  show ?thesis
  proof (cases "idx_full p")
    case False
    then have "index_ok p" "64 \<le> length (sp_idx p)" "(n_used (sp_idx p) + 1) * 10 \<le> length (sp_idx p) * 7"
      using assms by (auto simp: idx_full_def load_ok_def index_ok_def)
    from place [OF this] show ?thesis by (simp add: strpool_index_put_def numeral_2_eq_2 index_put_room [OF False])
  next
    case True
    let ?c = "if sp_idx_cap p \<noteq> 0 then sp_idx_cap p * 2 else 64"
    let ?q = "p\<lparr>sp_idx := replicate ?c slot_zero, sp_idx_cap := ?c, sp_idx_count := 0\<rparr>"
    have c: "\<exists>k. ?c = 2 ^ k" "64 \<le> ?c" "(n_used (sp_idx p) + 1) * 10 < ?c * 7"
    proof -
      show "64 \<le> ?c" "(n_used (sp_idx p) + 1) * 10 < ?c * 7"
        using assms by (auto simp: load_ok_def index_ok_def n_used_def)
      have "\<exists>k. (64::nat) = 2 ^ k" by (rule exI [of _ 6]) simp
      moreover have "\<exists>k. (2::nat) ^ j * 2 = 2 ^ k" for j by (rule exI [of _ "Suc j"]) simp
      ultimately show "\<exists>k. ?c = 2 ^ k" using assms by (auto simp: load_ok_def index_ok_def table_ok_def)
    qed
    have z: "n_used (sp_idx ?q) = 0" by (simp add: n_used_def slot_zero_def)
    have "table_ok (replicate ?c slot_zero)" using c(1) table_zero by blast
    then have i: "index_ok ?q" using z by (simp add: index_ok_def)
    have "(n_used (sp_idx ?q) + n_used (sp_idx p) + 1) * 10 < length (sp_idx ?q) * 7" using z c(3) by simp
    from put_all_spec [OF _ i this, of 0] obtain q' where
      q': "put_all (index_put 1) (sp_idx p) ?q = Some q'" "index_ok q'" "n_used (sp_idx q') \<le> n_used (sp_idx p)"
        "sp_idx_cap q' = ?c" "sp_bytes q' = sp_bytes p" "sp_used q' = sp_used p" "sp_cap q' = sp_cap p"
        "entries q' = {s \<in> set (sp_idx p). sl_used s} \<union> entries ?q" using z by auto
    have e: "entries q' = entries p" using q'(8) by (auto simp: entries_def slot_zero_def)
    have l: "length (sp_idx q') = ?c" using q'(2,4) by (simp add: index_ok_def)
    have "64 \<le> length (sp_idx q')" "(n_used (sp_idx q') + 1) * 10 \<le> length (sp_idx q') * 7"
      using l c(2,3) q'(3) by simp_all
    from place [OF q'(2) this] obtain p' where "idx_place q' h off n = Some p'" "load_ok p'" "sp_idx p' \<noteq> []"
        "sp_bytes p' = sp_bytes q'" "sp_used p' = sp_used q'" "sp_cap p' = sp_cap q'"
        "entries p' = insert \<lparr>sl_hash = h, sl_offset = off, sl_len = n, sl_used = True\<rparr> (entries q')" by blast
    then show ?thesis using True q' e by (auto simp: strpool_index_put_def numeral_2_eq_2 strpool_index_grow_def Let_def index_put.simps(2))
  qed
qed

section \<open>Interning as a contract\<close>

text \<open>
  What a client may expect of a table of interned strings: adding a string succeeds, the string then has a
  reference, strings that have one keep it, and a reference denotes its string.
\<close>

fun intern_all :: "('s \<Rightarrow> string \<Rightarrow> ('r \<times> 's) option) \<Rightarrow> 's \<Rightarrow> string list \<Rightarrow> ('r list \<times> 's) option" where
  "intern_all add p [] = Some ([], p)"
| "intern_all add p (s # ss) =
     (case add p s of
        None \<Rightarrow> None
      | Some (r, p) \<Rightarrow> map_option (\<lambda>(rs, p). (r # rs, p)) (intern_all add p ss))"

locale interner =
  fixes add :: "'s \<Rightarrow> string \<Rightarrow> ('r \<times> 's) option"
    and seen :: "'s \<Rightarrow> string \<Rightarrow> 'r option"
    and den :: "'s \<Rightarrow> 'r \<Rightarrow> string"
    and ok :: "'s \<Rightarrow> bool"
  assumes add_ok: "ok p \<Longrightarrow> \<exists>r q. add p s = Some (r, q) \<and> ok q \<and> seen q s = Some r \<and> seen p \<subseteq>\<^sub>m seen q"
    and seen_den: "ok p \<Longrightarrow> seen p s = Some r \<Longrightarrow> den p r = s"
begin

lemma intern_all_ok:
  "ok p \<Longrightarrow> \<exists>rs q. intern_all add p ss = Some (rs, q) \<and> ok q \<and> seen p \<subseteq>\<^sub>m seen q \<and> map Some rs = map (seen q) ss"
proof (induction ss arbitrary: p)
  case (Cons s ss)
  obtain r q where q: "add p s = Some (r, q)" "ok q" "seen q s = Some r" "seen p \<subseteq>\<^sub>m seen q"
    using add_ok [OF Cons.prems] by blast
  obtain rs t where t: "intern_all add q ss = Some (rs, t)" "ok t" "seen q \<subseteq>\<^sub>m seen t" "map Some rs = map (seen t) ss"
    using Cons.IH [OF q(2)] by blast
  have "seen t s = Some r" using t(3) q(3) by (auto simp: map_le_def dom_def)
  moreover have "seen p \<subseteq>\<^sub>m seen t" using q(4) t(3) by (rule map_le_trans)
  ultimately show ?case using q(1) t by (intro exI [of _ "r # rs"] exI [of _ t]) simp
qed simp

lemma intern_all_map:
  assumes "ok p"
  shows "\<exists>R q. intern_all add p ss = Some (map R ss, q) \<and> ok q \<and> map (\<lambda>s. den q (R s)) ss = ss"
proof -
  obtain rs q where q: "intern_all add p ss = Some (rs, q)" "ok q" "map Some rs = map (seen q) ss"
    using intern_all_ok [OF assms] by blast
  let ?R = "\<lambda>s. the (seen q s)"
  have "map the (map Some rs) = map the (map (seen q) ss)" using q(3) by simp
  then have r: "rs = map ?R ss" by (simp add: comp_def)
  have "den q (?R s) = s" if "s \<in> set ss" for s
  proof -
    have "seen q s \<in> Some ` set rs" using arg_cong [OF q(3), of set] that by auto
    then show ?thesis using seen_den [OF q(2)] by auto
  qed
  then have "map (\<lambda>s. den q (?R s)) ss = ss" by (simp add: map_idI)
  with q r show ?thesis by blast
qed

end

section \<open>The pool interns\<close>

definition run_of :: "string \<Rightarrow> StrIdxSlot \<Rightarrow> string" where
  "run_of B s = take (sl_len s) (drop (sl_offset s) B)"

text \<open>Every entry is a run of the pool with its hash, and no run has two entries.\<close>

definition entries_ok :: "nat \<Rightarrow> StrPool \<Rightarrow> bool" where
  "entries_ok W p \<longleftrightarrow>
     (\<forall>s\<in>entries p. 0 < sl_len s \<and> sl_offset s + sl_len s \<le> sp_used p
        \<and> sl_hash s = strpool_hash W (run_of (pool_text p) s) \<and> sl_used s)
     \<and> (\<forall>s\<in>entries p. \<forall>t\<in>entries p. run_of (pool_text p) s = run_of (pool_text p) t \<longrightarrow> s = t)"

definition strpool_ok :: "nat \<Rightarrow> StrPool \<Rightarrow> bool" where
  "strpool_ok W p \<longleftrightarrow> bytes_ok p \<and> load_ok p \<and> entries_ok W p"

definition seen_run :: "StrPool \<Rightarrow> string \<Rightarrow> StrRef option" where
  "seen_run p s =
     (if s = [] then Some \<lparr>sr_offset = 0, sr_len = 0\<rparr>
      else map_option (\<lambda>sl. \<lparr>sr_offset = sl_offset sl, sr_len = length s\<rparr>)
             (find (\<lambda>sl. sl_used sl \<and> run_of (pool_text p) sl = s) (sp_idx p)))"

definition ref_text :: "string \<Rightarrow> StrRef \<Rightarrow> string" where
  "ref_text B r = take (sr_len r) (drop (sr_offset r) B)"

lemma find_entry:
  "find (\<lambda>sl. sl_used sl \<and> P sl) (sp_idx p) = Some s \<Longrightarrow> s \<in> entries p \<and> P s"
  by (auto simp: find_Some_iff entries_def)

lemma entries_slots: "s \<in> entries p \<longleftrightarrow> (\<exists>r<length (sp_idx p). sp_idx p ! r = s \<and> sl_used s)"
  by (auto simp: entries_def in_set_conv_nth)

lemma run_of_length: "entries_ok W p \<Longrightarrow> bytes_ok p \<Longrightarrow> s \<in> entries p \<Longrightarrow> length (run_of (pool_text p) s) = sl_len s"
  by (auto simp: entries_ok_def run_of_def)

lemma bytes_at_run:
  assumes "entries_ok W p" and "bytes_ok p" and "s \<in> entries p" and "sl_len s = length t"
  shows "bytes_at p (sl_offset s) t \<longleftrightarrow> run_of (pool_text p) s = t"
  using bytes_at_occurs [of p "sl_offset s" t] assms by (auto simp: entries_ok_def occurs_at_def run_of_def)

text \<open>The walk finds the entry of a run if there is one.\<close>

lemma strpool_index_get_spec:
  assumes "strpool_ok W p" and "s \<noteq> []"
  shows "strpool_index_get p (strpool_hash W s) s = Some (map_option sr_offset (seen_run p s))"
proof (cases "sp_idx p = []")
  case True
  then show ?thesis using assms by (auto simp: strpool_index_get_def strpool_ok_def load_ok_def seen_run_def index_ok_def)
next
  case False
  let ?T = "sp_idx p" and ?h = "strpool_hash W s"
  let ?stop = "\<lambda>sl. sl_hash sl = ?h \<and> sl_len sl = length s \<and> bytes_at p (sl_offset sl) s"
  have ok: "table_ok ?T" "sp_idx_cap p = length ?T" "bytes_ok p" "entries_ok W p"
    using assms(1) False by (auto simp: strpool_ok_def load_ok_def index_ok_def)
  from walk_spec [OF ok(1,2), of ?stop ?h] obtain e where
    e: "idx_walk p ?stop ?h = Some (home (length ?T) ?h e)" "e < length ?T"
      "\<forall>j<e. sl_used (?T ! home (length ?T) ?h j) \<and> \<not> ?stop (?T ! home (length ?T) ?h j)"
      "\<not> sl_used (?T ! home (length ?T) ?h e) \<or> ?stop (?T ! home (length ?T) ?h e)" by auto
  let ?r = "home (length ?T) ?h e"
  have r: "?r < length ?T" using e(2) by (intro home_less) linarith
  have stop: "?stop sl \<longleftrightarrow> run_of (pool_text p) sl = s" if "sl \<in> entries p" for sl
  proof
    assume st: "?stop sl"
    then show "run_of (pool_text p) sl = s" using bytes_at_run [OF ok(4,3) that, of s] by simp
  next
    assume q: "run_of (pool_text p) sl = s"
    then have "sl_len sl = length s" using run_of_length [OF ok(4,3) that] by simp
    moreover have "sl_hash sl = ?h" using ok(4) that q by (auto simp: entries_ok_def)
    ultimately show "?stop sl" using bytes_at_run [OF ok(4,3) that, of s] q by simp
  qed
  have get: "strpool_index_get p ?h s = Some (if sl_used (?T ! ?r) then Some (sl_offset (?T ! ?r)) else None)"
    using e(1) False ok(2) by (simp add: strpool_index_get_def)
  show ?thesis
  proof (cases "find (\<lambda>sl. sl_used sl \<and> run_of (pool_text p) sl = s) ?T")
    case None
    have "\<not> sl_used (?T ! ?r)"
    proof
      assume u: "sl_used (?T ! ?r)"
      then have "?T ! ?r \<in> entries p" using r by (auto simp: entries_slots)
      with e(4) u stop have "run_of (pool_text p) (?T ! ?r) = s" by blast
      with None u r show False by (auto simp: find_None_iff)
    qed
    with get None assms(2) show ?thesis by (simp add: seen_run_def)
  next
    case (Some t)
    then have t: "t \<in> entries p" "run_of (pool_text p) t = s" using find_entry [OF Some] by simp_all
    then obtain r0 where r0: "r0 < length ?T" "?T ! r0 = t" "sl_used t" by (auto simp: entries_slots)
    then have "reachable ?T r0" using ok(1) by (auto simp: table_ok_def)
    moreover have "sl_hash t = ?h" using stop t by blast
    ultimately obtain d where d: "r0 = home (length ?T) ?h d" "\<forall>j<d. sl_used (?T ! home (length ?T) ?h j)"
      using r0 by (auto simp: reachable_def)
    have "e \<le> d" using e(3) d(1) r0 stop t by (metis not_le)
    then have u: "sl_used (?T ! ?r)" using d r0 by (cases "e = d") auto
    then have "?T ! ?r \<in> entries p" using r by (auto simp: entries_slots)
    moreover from this have "run_of (pool_text p) (?T ! ?r) = s" using e(4) u stop by blast
    ultimately have "?T ! ?r = t" using ok(4) t by (auto simp: entries_ok_def)
    with get u Some assms(2) show ?thesis by (simp add: seen_run_def)
  qed
qed

text \<open>Appending to the array, and recording a run.\<close>

lemma pool_append_spec:
  assumes "bytes_ok p"
  shows "\<exists>q. pool_append p s = Some q \<and> bytes_ok q \<and> pool_text q = pool_text p @ s \<and> sp_used q = sp_used p + length s
     \<and> sp_idx q = sp_idx p \<and> sp_idx_cap q = sp_idx_cap p \<and> sp_idx_count q = sp_idx_count p"
proof -
  have "\<exists>q. pool_reserve p (length s) = Some q \<and> bytes_ok q \<and> pool_text q = pool_text p \<and> sp_used q = sp_used p
     \<and> sp_used q + length s \<le> sp_cap q \<and> sp_idx q = sp_idx p \<and> sp_idx_cap q = sp_idx_cap p \<and> sp_idx_count q = sp_idx_count p"
  proof (cases "sp_used p + length s > sp_cap p")
    case True
    have "0 < (if sp_cap p \<noteq> 0 then sp_cap p else 64)" by simp
    from grow_cap_Some [OF this, of "sp_used p + length s"] obtain c where
      c: "grow_cap (sp_used p + length s) (if sp_cap p \<noteq> 0 then sp_cap p else 64) = Some c" "sp_used p + length s \<le> c"
        "(if sp_cap p \<noteq> 0 then sp_cap p else 64) \<le> c" by blast
    with True assms show ?thesis by (auto simp: pool_reserve_def bytes_ok_def pool_text_def split: if_splits)
  next
    case False
    with assms show ?thesis by (simp add: pool_reserve_def)
  qed
  then obtain q where q: "pool_reserve p (length s) = Some q" "bytes_ok q" "pool_text q = pool_text p" "sp_used q = sp_used p"
      "sp_used q + length s \<le> sp_cap q" "sp_idx q = sp_idx p" "sp_idx_cap q = sp_idx_cap p" "sp_idx_count q = sp_idx_count p"
    by blast
  then show ?thesis using assms by (auto simp: pool_append_def bytes_ok_def pool_text_def)
qed

lemma run_of_append: "sl_offset s + sl_len s \<le> length B \<Longrightarrow> run_of (B @ C) s = run_of B s"
  by (simp add: run_of_def)

lemma entries_ok_append:
  assumes "entries_ok W p" and "bytes_ok p" and "pool_text q = pool_text p @ C" and "sp_used q = sp_used p + length C"
    and "entries q = entries p"
  shows "entries_ok W q"
proof -
  have "run_of (pool_text q) s = run_of (pool_text p) s" if "s \<in> entries p" for s
    using that assms(1-3) by (auto simp: entries_ok_def intro!: run_of_append)
  then show ?thesis using assms(1,4,5) by (fastforce simp: entries_ok_def)
qed

text \<open>What the entries say of a run.\<close>

lemma seen_run_entry:
  assumes "entries_ok W p" and "s \<noteq> []"
  shows "seen_run p s = Some r \<longleftrightarrow> (\<exists>sl\<in>entries p. run_of (pool_text p) sl = s \<and> r = \<lparr>sr_offset = sl_offset sl, sr_len = length s\<rparr>)"
proof
  assume "seen_run p s = Some r"
  with assms(2) obtain sl where "find (\<lambda>sl. sl_used sl \<and> run_of (pool_text p) sl = s) (sp_idx p) = Some sl"
      "r = \<lparr>sr_offset = sl_offset sl, sr_len = length s\<rparr>" by (auto simp: seen_run_def)
  with find_entry [OF this(1)] show "\<exists>sl\<in>entries p. run_of (pool_text p) sl = s \<and> r = \<lparr>sr_offset = sl_offset sl, sr_len = length s\<rparr>"
    by blast
next
  assume "\<exists>sl\<in>entries p. run_of (pool_text p) sl = s \<and> r = \<lparr>sr_offset = sl_offset sl, sr_len = length s\<rparr>"
  then obtain sl where sl: "sl \<in> entries p" "run_of (pool_text p) sl = s" "r = \<lparr>sr_offset = sl_offset sl, sr_len = length s\<rparr>" by blast
  then have "find (\<lambda>sl. sl_used sl \<and> run_of (pool_text p) sl = s) (sp_idx p) \<noteq> None"
    by (auto simp: find_None_iff entries_def)
  then obtain t where t: "find (\<lambda>sl. sl_used sl \<and> run_of (pool_text p) sl = s) (sp_idx p) = Some t" by blast
  then have "t = sl" using find_entry [OF t] sl assms(1) by (simp add: entries_ok_def)
  with t sl(3) assms(2) show "seen_run p s = Some r" by (simp add: seen_run_def)
qed

text \<open>Recording a run that occurs, as new or again.\<close>

lemma index_put_seen:
  assumes p: "strpool_ok W p" and s: "s \<noteq> []" and oc: "occurs_at (pool_text p) s off"
    and old: "\<forall>r. seen_run p s = Some r \<longrightarrow> sr_offset r = off"
  shows "\<exists>q. strpool_index_put p (strpool_hash W s) off (length s) = Some q \<and> strpool_ok W q \<and> pool_text q = pool_text p
     \<and> seen_run q = (seen_run p)(s \<mapsto> \<lparr>sr_offset = off, sr_len = length s\<rparr>)"
proof -
  let ?new = "\<lparr>sl_hash = strpool_hash W s, sl_offset = off, sl_len = length s, sl_used = True\<rparr>"
  have ok: "bytes_ok p" "load_ok p" "entries_ok W p" using p by (simp_all add: strpool_ok_def)
  obtain q where q: "strpool_index_put p (strpool_hash W s) off (length s) = Some q" "load_ok q"
      "sp_bytes q = sp_bytes p" "sp_used q = sp_used p" "sp_cap q = sp_cap p" "entries q = insert ?new (entries p)"
    using strpool_index_put_spec [OF ok(2)] by blast
  have tx: "pool_text q = pool_text p" using q by (simp add: pool_text_def)
  have new: "run_of (pool_text p) ?new = s" using oc by (simp add: occurs_at_def run_of_def)
  have same: "t = ?new" if t: "t \<in> entries p" "run_of (pool_text p) t = s" for t
  proof -
    have "seen_run p s = Some \<lparr>sr_offset = sl_offset t, sr_len = length s\<rparr>" using seen_run_entry [OF ok(3) s] t by blast
    then have "sl_offset t = off" using old by simp
    moreover have "sl_len t = length s" "sl_hash t = strpool_hash W s" "sl_used t"
      using t ok run_of_length [OF ok(3,1) t(1)] by (auto simp: entries_ok_def)
    ultimately show ?thesis by (cases t) simp
  qed
  have e: "entries_ok W q"
    unfolding entries_ok_def q(6) tx
  proof (intro conjI ballI impI)
    fix t assume "t \<in> insert ?new (entries p)"
    then show "0 < sl_len t" "sl_offset t + sl_len t \<le> sp_used q" "sl_hash t = strpool_hash W (run_of (pool_text p) t)" "sl_used t"
      using s oc ok(1,3) q(4) new by (auto simp: occurs_at_def entries_ok_def)
  next
    fix t u assume "t \<in> insert ?new (entries p)" "u \<in> insert ?new (entries p)" "run_of (pool_text p) t = run_of (pool_text p) u"
    then show "t = u" using same new ok(3) by (auto simp: entries_ok_def)
  qed
  then have okq: "strpool_ok W q" using q ok(1) by (simp add: strpool_ok_def bytes_ok_def)
  have "seen_run q t = ((seen_run p)(s \<mapsto> \<lparr>sr_offset = off, sr_len = length s\<rparr>)) t" for t
  proof (cases "t = []")
    case True
    then show ?thesis using s by (simp add: seen_run_def)
  next
    case False
    show ?thesis
    proof (cases "t = s")
      case True
      have "?new \<in> entries q" using q(6) by simp
      then have "seen_run q s = Some \<lparr>sr_offset = off, sr_len = length s\<rparr>"
        unfolding seen_run_entry [OF e s] using new tx by (intro bexI [of _ ?new]) simp_all
      with True show ?thesis by simp
    next
      case neq: False
      then have "seen_run q t = Some r \<longleftrightarrow> seen_run p t = Some r" for r
        unfolding seen_run_entry [OF e False] seen_run_entry [OF ok(3) False] tx q(6) using new by auto
      then have "seen_run q t = seen_run p t" by (metis not_Some_eq)
      with neq show ?thesis by simp
    qed
  qed
  with q(1) okq tx show ?thesis by blast
qed

text \<open>An interned run is found where it was found or put the first time.\<close>

lemma strpool_add_spec:
  assumes p: "strpool_ok W p"
  shows "\<exists>r q. strpool_add W p s = Some (r, q) \<and> strpool_ok W q
     \<and> seen_run q = (seen_run p)(s \<mapsto> r)
     \<and> (case seen_run p s of
          Some r' \<Rightarrow> r = r' \<and> pool_text q = pool_text p
        | None \<Rightarrow> (r, pool_text q) = plain_add (pool_text p) s)"
proof (cases "s = []")
  case True
  then show ?thesis using p by (auto simp: strpool_add_def seen_run_def fun_upd_idem)
next
  case False
  let ?h = "strpool_hash W s"
  have ok: "bytes_ok p" "entries_ok W p" using p by (simp_all add: strpool_ok_def)
  note get = strpool_index_get_spec [OF p False]
  show ?thesis
  proof (cases "seen_run p s")
    case (Some r)
    then obtain sl where sl: "sl \<in> entries p" "run_of (pool_text p) sl = s" "r = \<lparr>sr_offset = sl_offset sl, sr_len = length s\<rparr>"
      using seen_run_entry [OF ok(2) False] by blast
    then have "occurs_at (pool_text p) s (sr_offset r)"
      using ok run_of_length [OF ok(2,1) sl(1)] by (auto simp: occurs_at_def run_of_def entries_ok_def)
    from index_put_seen [OF p False this] Some obtain q where
      "strpool_index_put p ?h (sr_offset r) (length s) = Some q" "strpool_ok W q" "pool_text q = pool_text p"
      "seen_run q = (seen_run p)(s \<mapsto> \<lparr>sr_offset = sr_offset r, sr_len = length s\<rparr>)" by auto
    with Some get False sl(3) show ?thesis by (auto simp: strpool_add_def Let_def)
  next
    case None
    show ?thesis
    proof (cases "first_occurrence (pool_text p) s")
      case (Some off)
      then have "occurs_at (pool_text p) s off" by (simp add: first_occurrence_Some)
      from index_put_seen [OF p False this] None obtain q where
        "strpool_index_put p ?h off (length s) = Some q" "strpool_ok W q" "pool_text q = pool_text p"
        "seen_run q = (seen_run p)(s \<mapsto> \<lparr>sr_offset = off, sr_len = length s\<rparr>)" by auto
      with Some None get False show ?thesis
        by (auto simp: strpool_add_def Let_def strpool_scan_first [OF ok(1)] plain_add_def)
    next
      case absent: None
      obtain t where t: "pool_append p s = Some t" "bytes_ok t" "pool_text t = pool_text p @ s" "sp_used t = sp_used p + length s"
          "sp_idx t = sp_idx p" "sp_idx_cap t = sp_idx_cap p" "sp_idx_count t = sp_idx_count p"
        using pool_append_spec [OF ok(1)] by blast
      have e: "entries t = entries p" using t(5) by (simp add: entries_def)
      have "load_ok t" using p t(5-7) by (simp add: strpool_ok_def load_ok_def index_ok_def)
      then have okt: "strpool_ok W t" using t entries_ok_append [OF ok(2,1) t(3,4) e] by (simp add: strpool_ok_def)
      have seen: "seen_run t u = seen_run p u" if "u \<noteq> []" for u
      proof -
        have run: "run_of (pool_text t) sl = run_of (pool_text p) sl" if "sl \<in> entries p" for sl
          using that ok t(3) by (auto simp: entries_ok_def intro!: run_of_append)
        have "seen_run t u = Some r \<longleftrightarrow> seen_run p u = Some r" for r
          using seen_run_entry [OF _ that, of W t r] seen_run_entry [OF ok(2) that, of r] okt run e
          by (auto simp: strpool_ok_def)
        then show ?thesis by (metis not_Some_eq)
      qed
      then have seen': "seen_run t = seen_run p" by (auto simp: seen_run_def)
      have oc: "occurs_at (pool_text t) s (sp_used p)"
        using t(3) occurs_at_end [of "pool_text p" s] ok(1) by simp
      from index_put_seen [OF okt False oc] None seen' obtain q where
        "strpool_index_put t ?h (sp_used p) (length s) = Some q" "strpool_ok W q" "pool_text q = pool_text t"
        "seen_run q = (seen_run t)(s \<mapsto> \<lparr>sr_offset = sp_used p, sr_len = length s\<rparr>)" by auto
      with absent None get False t seen' ok(1) show ?thesis
        by (auto simp: strpool_add_def Let_def strpool_scan_first plain_add_def)
    qed
  qed
qed

lemma seen_run_denotes:
  assumes "strpool_ok W p" and "seen_run p s = Some r"
  shows "ref_text (pool_text p) r = s" and "occurs_at (pool_text p) s (sr_offset r)"
proof -
  have ok: "bytes_ok p" "entries_ok W p" using assms(1) by (simp_all add: strpool_ok_def)
  have "ref_text (pool_text p) r = s \<and> occurs_at (pool_text p) s (sr_offset r)"
  proof (cases "s = []")
    case True
    then show ?thesis using assms(2) by (auto simp: seen_run_def ref_text_def occurs_at_def)
  next
    case False
    then obtain sl where sl: "sl \<in> entries p" "run_of (pool_text p) sl = s" "r = \<lparr>sr_offset = sl_offset sl, sr_len = length s\<rparr>"
      using seen_run_entry [OF ok(2)] assms(2) by blast
    then show ?thesis using ok run_of_length [OF ok(2,1) sl(1)]
      by (auto simp: occurs_at_def run_of_def ref_text_def entries_ok_def)
  qed
  then show "ref_text (pool_text p) r = s" "occurs_at (pool_text p) s (sr_offset r)" by simp_all
qed

lemma seen_run_kept:
  assumes "strpool_ok W p" and "strpool_add W p s = Some (r, q)"
  shows "seen_run p \<subseteq>\<^sub>m seen_run q"
  using strpool_add_spec [OF assms(1), of s] assms(2)
  by (auto simp: map_le_def split: option.splits)

interpretation pool: interner "strpool_add W" seen_run "\<lambda>p. ref_text (pool_text p)" "strpool_ok W" for W
proof
  show "\<exists>r q. strpool_add W p s = Some (r, q) \<and> strpool_ok W q \<and> seen_run q s = Some r \<and> seen_run p \<subseteq>\<^sub>m seen_run q"
    if ok: "strpool_ok W p" for p s
    using strpool_add_spec [OF ok, of s] seen_run_kept [OF ok] by fastforce
qed (rule seen_run_denotes(1))

text \<open>The bytes are those of a pool without an index.\<close>

lemma plain_add_occurs: "occurs_at B s i \<Longrightarrow> snd (plain_add B s) = B"
  using first_occurrence_None [of B s] by (auto simp: plain_add_def split: option.splits)

lemma strpool_add_text:
  assumes "strpool_ok W p" and "strpool_add W p s = Some (r, q)"
  shows "pool_text q = snd (plain_add (pool_text p) s)"
  using strpool_add_spec [OF assms(1), of s] assms(2) seen_run_denotes(2) [OF assms(1), of s] plain_add_occurs
  by (auto split: option.splits) (metis snd_conv)

lemma intern_all_text:
  "strpool_ok W p \<Longrightarrow> intern_all (strpool_add W) p ss = Some (rs, q) \<Longrightarrow>
     pool_text q = fold (\<lambda>s B. snd (plain_add B s)) ss (pool_text p)"
proof (induction ss arbitrary: p rs)
  case (Cons s ss)
  obtain r t where t: "strpool_add W p s = Some (r, t)" "strpool_ok W t" using pool.add_ok [OF Cons.prems(1)] by blast
  with Cons.prems(2) obtain rs' where "intern_all (strpool_add W) t ss = Some (rs', q)" by (auto split: option.splits)
  from Cons.IH [OF t(2) this] show ?case using strpool_add_text [OF Cons.prems(1) t(1)] by simp
qed simp

lemma strpool_ok_empty: "strpool_ok W pool_empty" "pool_text pool_empty = []"
  by (simp_all add: strpool_ok_def pool_empty_def bytes_ok_def load_ok_def entries_ok_def entries_def pool_text_def)

section \<open>Constant-string globals\<close>

definition KSTR_MAX :: nat where "KSTR_MAX = 256"

text \<open>FNV-1a in 32 bits; 0 becomes 1.\<close>

definition kstr_hash :: "string \<Rightarrow> int" where
  "kstr_hash s =
     (let h = foldl (\<lambda>h c. (h XOR of_nat (code c)) * 16777619) (2166136261 :: u32) s
      in sint (if h = 0 then 1 else h))"

definition MKEYS :: "(string \<times> string) list" where
  "MKEYS =
    [(''$g_mkey_index'', ''__index''),
     (''$g_mkey_newindex'', ''__newindex''),
     (''$g_mkey_add'', ''__add''),
     (''$g_mkey_sub'', ''__sub''),
     (''$g_mkey_mul'', ''__mul''),
     (''$g_mkey_div'', ''__div''),
     (''$g_mkey_mod'', ''__mod''),
     (''$g_mkey_pow'', ''__pow''),
     (''$g_mkey_unm'', ''__unm''),
     (''$g_mkey_idiv'', ''__idiv''),
     (''$g_mkey_band'', ''__band''),
     (''$g_mkey_bor'', ''__bor''),
     (''$g_mkey_bxor'', ''__bxor''),
     (''$g_mkey_shl'', ''__shl''),
     (''$g_mkey_shr'', ''__shr''),
     (''$g_mkey_bnot'', ''__bnot''),
     (''$g_mkey_concat'', ''__concat''),
     (''$g_mkey_len'', ''__len''),
     (''$g_mkey_pairs'', ''__pairs''),
     (''$g_mkey_eq'', ''__eq''),
     (''$g_mkey_lt'', ''__lt''),
     (''$g_mkey_le'', ''__le''),
     (''$g_mkey_call'', ''__call''),
     (''$g_mkey_close'', ''__close''),
     (''$g_mkey_tostring'', ''__tostring''),
     (''$g_mkey_metatable'', ''__metatable''),
     (''$g_mkey_name'', ''__name''),
     (''$g_tname_nil'', ''nil''),
     (''$g_tname_boolean'', ''boolean''),
     (''$g_tname_number'', ''number''),
     (''$g_tname_string'', ''string''),
     (''$g_tname_table'', ''table''),
     (''$g_tname_function'', ''function''),
     (''$g_key_n'', ''n'')]"

definition mkey_name :: "string \<Rightarrow> string option" where
  "mkey_name s = map_option fst (find (\<lambda>(name, key). key = s) MKEYS)"

text \<open>The part of the context that holds the constants: \<open>strs\<close>, \<open>kstrs\<close> and \<open>kstr_list\<close>.\<close>

record Consts =
  cn_strs :: StrPool
  cn_kstrs :: StrPool
  cn_list :: "StrRef list"

definition no_consts :: Consts where
  "no_consts = \<lparr>cn_strs = pool_empty, cn_kstrs = pool_empty, cn_list = []\<rparr>"

text \<open>\<open>snprintf\<close> into \<open>n\<close> bytes.\<close>

definition in_buf :: "nat \<Rightarrow> string \<Rightarrow> string" where
  "in_buf n s = take (n - 1) s"

definition kstr_ref_name :: "StrRef \<Rightarrow> string" where
  "kstr_ref_name r = in_buf 64 (''$kstr_'' @ dec_str (sr_offset r) @ ''_'' @ dec_str (sr_len r))"

definition kstr_name :: "nat \<Rightarrow> Consts \<Rightarrow> string \<Rightarrow> (string \<times> Consts) option" where
  "kstr_name W c s =
     (if s = [] then Some (''$g_empty_str'', c)
      else case mkey_name s of
             Some n \<Rightarrow> Some (n, c)
           | None \<Rightarrow>
               (case strpool_add W (cn_kstrs c) s of
                  None \<Rightarrow> None
                | Some (r, p) \<Rightarrow>
                    Some (kstr_ref_name r,
                      c\<lparr>cn_kstrs := p, cn_list := (if r \<in> set (cn_list c) then cn_list c else cn_list c @ [r])\<rparr>)))"

definition kstr_expr :: "nat \<Rightarrow> nat \<Rightarrow> Consts \<Rightarrow> string \<Rightarrow> (string \<times> Consts) option" where
  "kstr_expr W bufsz c s =
     (if length s \<le> KSTR_MAX
      then map_option (\<lambda>(n, c). (in_buf bufsz (''(global.get '' @ n @ '')''), c)) (kstr_name W c s)
      else map_option (\<lambda>(r, p).
             (in_buf bufsz (''(struct.new $LuaString (array.new_data $LuaArr $str_data (i32.const '' @ dec_str (sr_offset r)
                @ '') (i32.const '' @ dec_str (sr_len r) @ '')) (i32.const 0))''),
              c\<lparr>cn_strs := p\<rparr>)) (strpool_add W (cn_strs c) s))"

definition emit_global_const_str :: "string \<Rightarrow> string \<Rightarrow> string" where
  "emit_global_const_str glob s =
     ''  (global '' @ glob @ '' (ref $LuaString)'' @ [LF]
     @ ''    (struct.new $LuaString (array.new_fixed $LuaArr '' @ dec_str (length s)
     @ concat (map (\<lambda>ch. '' (i32.const '' @ dec_str (code ch) @ '')'') s)
     @ '') (i32.const '' @ int_str (kstr_hash s) @ '')))'' @ [LF]"

definition kstr_header :: string where
  "kstr_header = LF # ''  ;; @@SECTION:kstr@@ hoisted constant strings (bytes + precomputed hash)'' @ [LF]"

definition emit_kstr_globals :: "Consts \<Rightarrow> string" where
  "emit_kstr_globals c =
     (if cn_list c = [] then []
      else kstr_header
        @ concat (map (\<lambda>r. emit_global_const_str (kstr_ref_name r) (take (sr_len r) (drop (sr_offset r) (sp_bytes (cn_kstrs c)))))
            (cn_list c)))"

definition emit_mkey_globals :: string where
  "emit_mkey_globals = concat (map (\<lambda>(name, key). emit_global_const_str name key) MKEYS)"

section \<open>Every constant has its own global\<close>

text \<open>The strings that are hoisted, and the names of all.\<close>

definition hoisted :: "string \<Rightarrow> bool" where
  "hoisted s \<longleftrightarrow> s \<noteq> [] \<and> mkey_name s = None"

definition kname :: "Consts \<Rightarrow> string \<Rightarrow> string" where
  "kname c s =
     (if s = [] then ''$g_empty_str''
      else case mkey_name s of
             Some n \<Rightarrow> n
           | None \<Rightarrow> kstr_ref_name (the (seen_run (cn_kstrs c) s)))"

text \<open>The list has a reference for each string of \<open>D\<close>, in that order.\<close>

definition consts_ok :: "nat \<Rightarrow> Consts \<Rightarrow> string list \<Rightarrow> bool" where
  "consts_ok W c D \<longleftrightarrow> strpool_ok W (cn_kstrs c) \<and> distinct D \<and> list_all hoisted D
     \<and> map Some (cn_list c) = map (seen_run (cn_kstrs c)) D"

definition add_first :: "string list \<Rightarrow> string \<Rightarrow> string list" where
  "add_first D s = (if hoisted s \<and> s \<notin> set D then D @ [s] else D)"

lemma seen_run_inj:
  "strpool_ok W p \<Longrightarrow> seen_run p s = Some r \<Longrightarrow> seen_run p t = Some r \<Longrightarrow> s = t"
  using seen_run_denotes(1) by metis

lemma kstr_name_spec:
  assumes ok: "consts_ok W c D"
  shows "\<exists>c'. kstr_name W c s = Some (kname c' s, c') \<and> consts_ok W c' (add_first D s)
     \<and> seen_run (cn_kstrs c) \<subseteq>\<^sub>m seen_run (cn_kstrs c')
     \<and> (hoisted s \<longrightarrow> seen_run (cn_kstrs c') s \<noteq> None)
     \<and> length (pool_text (cn_kstrs c')) \<le> length (pool_text (cn_kstrs c)) + length s"
proof (cases "hoisted s")
  case False
  then show ?thesis using ok by (auto simp: kstr_name_def hoisted_def kname_def add_first_def split: option.splits)
next
  case True
  let ?p = "cn_kstrs c"
  have p: "strpool_ok W ?p" using ok by (simp add: consts_ok_def)
  obtain r q where q: "strpool_add W ?p s = Some (r, q)" "strpool_ok W q" "seen_run q = (seen_run ?p)(s \<mapsto> r)"
      "case seen_run ?p s of Some r' \<Rightarrow> r = r' \<and> pool_text q = pool_text ?p | None \<Rightarrow> (r, pool_text q) = plain_add (pool_text ?p) s"
    using strpool_add_spec [OF p] by blast
  note le = seen_run_kept [OF p q(1)]
  let ?c = "c\<lparr>cn_kstrs := q, cn_list := (if r \<in> set (cn_list c) then cn_list c else cn_list c @ [r])\<rparr>"
  have old: "map Some (cn_list c) = map (seen_run q) D"
  proof -
    have some: "seen_run q t = seen_run ?p t" if "t \<in> set D" for t
    proof -
      have "seen_run ?p t \<in> Some ` set (cn_list c)" using ok that by (metis consts_ok_def image_eqI list.set_map)
      then show ?thesis using le by (auto simp: map_le_def dom_def)
    qed
    then show ?thesis using ok by (simp add: consts_ok_def)
  qed
  have mem: "r \<in> set (cn_list c) \<longleftrightarrow> s \<in> set D"
  proof -
    have "r \<in> set (cn_list c) \<longleftrightarrow> Some r \<in> set (map Some (cn_list c))" by auto
    also have "\<dots> \<longleftrightarrow> (\<exists>t\<in>set D. seen_run q t = Some r)" by (simp add: old image_iff eq_commute [of "Some r"])
    also have "\<dots> \<longleftrightarrow> s \<in> set D"
    proof -
      have "seen_run q s = Some r" using q(3) by simp
      then have "seen_run q t = Some r \<longleftrightarrow> t = s" for t using seen_run_inj [OF q(2)] by blast
      then show ?thesis by simp
    qed
    finally show ?thesis .
  qed
  have "consts_ok W ?c (add_first D s)"
    using ok q(2,3) old mem True by (auto simp: consts_ok_def add_first_def)
  moreover have "kstr_name W c s = Some (kname ?c s, ?c)"
    using True q(1,3) by (auto simp: kstr_name_def hoisted_def kname_def)
  moreover have "length (pool_text q) \<le> length (pool_text ?p) + length s"
    using q(4) by (auto simp: plain_add_def split: option.splits)
  ultimately show ?thesis using le q(3) by (intro exI [of _ ?c]) simp
qed

text \<open>The requests of a program, one after the other.\<close>

lemma kname_stable:
  assumes "seen_run (cn_kstrs c) \<subseteq>\<^sub>m seen_run (cn_kstrs c')" and "hoisted s \<longrightarrow> seen_run (cn_kstrs c) s \<noteq> None"
  shows "kname c' s = kname c s"
  using assms by (auto simp: kname_def hoisted_def map_le_def dom_def split: option.splits)

lemma kstr_names_spec:
  "consts_ok W c D \<Longrightarrow> \<exists>c'. intern_all (kstr_name W) c ss = Some (map (kname c') ss, c')
     \<and> consts_ok W c' (foldl add_first D ss) \<and> seen_run (cn_kstrs c) \<subseteq>\<^sub>m seen_run (cn_kstrs c')
     \<and> (\<forall>s\<in>set ss. hoisted s \<longrightarrow> seen_run (cn_kstrs c') s \<noteq> None)
     \<and> length (pool_text (cn_kstrs c')) \<le> length (pool_text (cn_kstrs c)) + length (concat ss)"
proof (induction ss arbitrary: c D)
  case Nil
  then show ?case by auto
next
  case (Cons s ss)
  obtain c1 where c1: "kstr_name W c s = Some (kname c1 s, c1)" "consts_ok W c1 (add_first D s)"
      "seen_run (cn_kstrs c) \<subseteq>\<^sub>m seen_run (cn_kstrs c1)" "hoisted s \<longrightarrow> seen_run (cn_kstrs c1) s \<noteq> None"
      "length (pool_text (cn_kstrs c1)) \<le> length (pool_text (cn_kstrs c)) + length s"
    using kstr_name_spec [OF Cons.prems, of s] by blast
  obtain c2 where c2: "intern_all (kstr_name W) c1 ss = Some (map (kname c2) ss, c2)"
      "consts_ok W c2 (foldl add_first (add_first D s) ss)" "seen_run (cn_kstrs c1) \<subseteq>\<^sub>m seen_run (cn_kstrs c2)"
      "\<forall>s\<in>set ss. hoisted s \<longrightarrow> seen_run (cn_kstrs c2) s \<noteq> None"
      "length (pool_text (cn_kstrs c2)) \<le> length (pool_text (cn_kstrs c1)) + length (concat ss)"
    using Cons.IH [OF c1(2)] by blast
  have "kname c2 s = kname c1 s" by (rule kname_stable [OF c2(3) c1(4)])
  moreover have "hoisted s \<longrightarrow> seen_run (cn_kstrs c2) s \<noteq> None" using c1(4) c2(3) by (auto simp: map_le_def dom_def)
  moreover have "seen_run (cn_kstrs c) \<subseteq>\<^sub>m seen_run (cn_kstrs c2)" using c1(3) c2(3) by (rule map_le_trans)
  ultimately show ?case using c1 c2 by (intro exI [of _ c2]) auto
qed

lemma no_consts_ok: "consts_ok W no_consts []" "pool_text (cn_kstrs no_consts) = []"
  by (simp_all add: consts_ok_def no_consts_def strpool_ok_empty)

lemma MKEYS_names:
  "distinct (map fst MKEYS)" "list_all (\<lambda>(n, k). take 3 n = ''$g_'' \<and> n \<noteq> ''$g_empty_str'') MKEYS"
  by (simp_all add: MKEYS_def)

lemma mkey_name_Some: "mkey_name s = Some n \<Longrightarrow> (n, s) \<in> set MKEYS"
  by (auto simp: mkey_name_def find_Some_iff in_set_conv_nth)

lemma mkey_name_inj: "mkey_name s = Some n \<Longrightarrow> mkey_name t = Some n \<Longrightarrow> s = t"
  using mkey_name_Some MKEYS_names(1) by (metis eq_key_imp_eq_value)

lemma mkey_name_form: "mkey_name s = Some n \<Longrightarrow> take 3 n = ''$g_'' \<and> n \<noteq> ''$g_empty_str''"
  using mkey_name_Some MKEYS_names(2) by (fastforce simp: list_all_iff)

lemma ref_name_length:
  assumes "sr_offset r < 10 ^ 20" and "sr_len r < 10 ^ 20"
  shows "kstr_ref_name r = ''$kstr_'' @ dec_str (sr_offset r) @ ''_'' @ dec_str (sr_len r)"
  using length_dec_str [OF assms(1)] length_dec_str [OF assms(2)] by (simp add: kstr_ref_name_def in_buf_def)

lemma digits_split:
  assumes "dec_str a @ CHR ''_'' # x = dec_str b @ CHR ''_'' # y"
  shows "a = b \<and> x = y"
proof -
  have t: "takeWhile is_digit (dec_str n @ CHR ''_'' # z) = dec_str n" for n z
    using dec_str_digits by (subst takeWhile_append2) (auto simp: is_digit_def)
  from arg_cong [OF assms, of "takeWhile is_digit"] have "a = b" by (simp add: t)
  with assms show ?thesis by simp
qed

lemma ref_name_inj:
  assumes "kstr_ref_name r = kstr_ref_name r'" and "sr_offset r < 10 ^ 20" "sr_len r < 10 ^ 20"
    and "sr_offset r' < 10 ^ 20" "sr_len r' < 10 ^ 20"
  shows "r = r'"
  using assms digits_split [of "sr_offset r" "dec_str (sr_len r)" "sr_offset r'" "dec_str (sr_len r')"]
  by (cases r; cases r') (simp add: ref_name_length)

lemma seen_run_bounds:
  assumes "strpool_ok W p" and "seen_run p s = Some r" and "length (pool_text p) < n"
  shows "sr_offset r < n" "sr_len r < n"
proof -
  have "occurs_at (pool_text p) s (sr_offset r)" using seen_run_denotes(2) [OF assms(1,2)] .
  moreover have "sr_len r = length s" using assms(2) by (auto simp: seen_run_def split: if_splits)
  ultimately show "sr_offset r < n" "sr_len r < n" using assms(3) by (auto simp: occurs_at_def)
qed

lemma kname_inj:
  assumes ok: "consts_ok W c D" and small: "length (pool_text (cn_kstrs c)) < 10 ^ 20"
    and s: "hoisted s \<longrightarrow> seen_run (cn_kstrs c) s \<noteq> None" and t: "hoisted t \<longrightarrow> seen_run (cn_kstrs c) t \<noteq> None"
    and eq: "kname c s = kname c t"
  shows "s = t"
proof -
  have p: "strpool_ok W (cn_kstrs c)" using ok by (simp add: consts_ok_def)
  have k: "take 3 (kname c u) = ''$ks'' \<and> (\<exists>r. seen_run (cn_kstrs c) u = Some r \<and> kname c u = kstr_ref_name r
      \<and> sr_offset r < 10 ^ 20 \<and> sr_len r < 10 ^ 20)"
    if u: "hoisted u" "hoisted u \<longrightarrow> seen_run (cn_kstrs c) u \<noteq> None" for u
  proof -
    obtain r where r: "seen_run (cn_kstrs c) u = Some r" using u by blast
    then have "kname c u = kstr_ref_name r" using u(1) by (simp add: kname_def hoisted_def)
    with r seen_run_bounds [OF p r small] show ?thesis by (simp add: ref_name_length)
  qed
  have n: "take 3 (kname c u) = ''$g_''" if "\<not> hoisted u" for u
    using that mkey_name_form by (auto simp: kname_def hoisted_def split: option.splits)
  show ?thesis
  proof (cases "hoisted s")
    case True
    then have "hoisted t" using eq k [OF _ s] n [of t] by (cases "hoisted t") auto
    with k [OF True s] k [OF _ t] eq seen_run_inj [OF p] ref_name_inj show ?thesis by metis
  next
    case False
    then have "\<not> hoisted t" using eq k [OF _ t] n [of s] by auto
    with False eq mkey_name_form mkey_name_inj show ?thesis
      by (auto simp: kname_def hoisted_def split: option.splits if_splits)
  qed
qed

text \<open>The declarations at the end of the module.\<close>

lemma emit_kstr_globals_spec:
  assumes ok: "consts_ok W c D"
  shows "emit_kstr_globals c = (if D = [] then [] else kstr_header @ concat (map (\<lambda>s. emit_global_const_str (kname c s) s) D))"
proof -
  let ?p = "cn_kstrs c"
  have p: "strpool_ok W ?p" and l: "map Some (cn_list c) = map (seen_run ?p) D" and h: "list_all hoisted D"
    using ok by (simp_all add: consts_ok_def)
  have e: "emit_global_const_str (kstr_ref_name r) (take (sr_len r) (drop (sr_offset r) (sp_bytes ?p))) = emit_global_const_str (kname c s) s"
    if r: "seen_run ?p s = Some r" and s: "hoisted s" for r s
  proof -
    have "sr_offset r + sr_len r \<le> sp_used ?p"
      using seen_run_denotes(2) [OF p r] r p by (auto simp: occurs_at_def seen_run_def strpool_ok_def split: if_splits)
    then have "take (sr_len r) (drop (sr_offset r) (sp_bytes ?p)) = ref_text (pool_text ?p) r"
      by (simp add: ref_text_def pool_text_def drop_take min_def)
    then show ?thesis using seen_run_denotes(1) [OF p r] r s by (simp add: kname_def hoisted_def)
  qed
  have "map (\<lambda>r. emit_global_const_str (kstr_ref_name r) (take (sr_len r) (drop (sr_offset r) (sp_bytes ?p)))) rs
      = map (\<lambda>s. emit_global_const_str (kname c s) s) E"
    if "map Some rs = map (seen_run ?p) E" "list_all hoisted E" for rs E
    using that
  proof (induction rs arbitrary: E)
    case (Cons r rs)
    then obtain s E' where "E = s # E'" "Some r = seen_run ?p s" "map Some rs = map (seen_run ?p) E'" by auto
    with Cons e show ?case by simp
  qed simp
  from this [OF l h] l show ?thesis by (auto simp: emit_kstr_globals_def)
qed

lemma foldl_add_first: "set (foldl add_first D ss) = set D \<union> {s \<in> set ss. hoisted s}"
  by (induction ss arbitrary: D) (auto simp: add_first_def)

section \<open>Results\<close>

text \<open>C16: The literal pool interns: whatever strings are added in whatever order, the hash index never loops
  and the pool never runs out of room, every string gets one reference, the same each time, the reference denotes
  exactly its bytes in the final pool, and the bytes are those of a pool that has no index and only
  searches for an earlier occurrence.\<close>

theorem pool_interns:
  "\<exists>R p. intern_all (strpool_add W) pool_empty ss = Some (map R ss, p)
     \<and> map (\<lambda>s. ref_text (pool_text p) (R s)) ss = ss
     \<and> pool_text p = fold (\<lambda>s B. snd (plain_add B s)) ss []"
proof -
  obtain R p where R: "intern_all (strpool_add W) pool_empty ss = Some (map R ss, p)"
      "map (\<lambda>s. ref_text (pool_text p) (R s)) ss = ss"
    using pool.intern_all_map [OF strpool_ok_empty(1)] by blast
  from intern_all_text [OF strpool_ok_empty(1) R(1)] R strpool_ok_empty(2) show ?thesis by auto
qed

text \<open>C18: Every constant string has its own global: among the strings a program asks for, two have the same
  name only if they are equal, and the module declares, once each, exactly the hoisted ones, under
  that name and with their bytes and hash.\<close>

theorem constants_have_own_globals:
  assumes "length (concat ss) < 2 ^ 64"
  shows "\<exists>N D c. intern_all (kstr_name W) no_consts ss = Some (map N ss, c) \<and> inj_on N (set ss)
     \<and> distinct D \<and> set D = {s \<in> set ss. s \<noteq> [] \<and> mkey_name s = None}
     \<and> emit_kstr_globals c
         = (if D = [] then [] else kstr_header @ concat (map (\<lambda>s. emit_global_const_str (N s) s) D))"
proof -
  let ?D = "foldl add_first [] ss"
  obtain c where c: "intern_all (kstr_name W) no_consts ss = Some (map (kname c) ss, c)" "consts_ok W c ?D"
      "\<forall>s\<in>set ss. hoisted s \<longrightarrow> seen_run (cn_kstrs c) s \<noteq> None"
      "length (pool_text (cn_kstrs c)) \<le> length (concat ss)"
    using kstr_names_spec [OF no_consts_ok(1), where ss = ss and W = W] no_consts_ok(2) by auto
  have "length (pool_text (cn_kstrs c)) < 10 ^ 20" using c(4) assms by simp
  then have "inj_on (kname c) (set ss)" using kname_inj [OF c(2)] c(3) by (auto intro: inj_onI)
  moreover have "set ?D = {s \<in> set ss. s \<noteq> [] \<and> mkey_name s = None}"
    by (simp add: foldl_add_first hoisted_def)
  moreover have "distinct ?D" using c(2) by (simp add: consts_ok_def)
  ultimately show ?thesis using c(1) emit_kstr_globals_spec [OF c(2)] by blast
qed

lemma constants_have_own_globals_witness:
  "\<exists>N D c. intern_all (kstr_name 64) no_consts [''x'', ''__index'', [], ''x''] = Some (map N [''x'', ''__index'', [], ''x''], c)
     \<and> inj_on N {''x'', ''__index'', []} \<and> set D = {s \<in> {''x'', ''__index'', []}. s \<noteq> [] \<and> mkey_name s = None}"
  using constants_have_own_globals [of "[''x'', ''__index'', [], ''x'']" 64] by (auto simp del: intern_all.simps)

text \<open>
  The comment on the pool says that offsets are those of the version without an index. A run that overlaps
  the end of the pool when it is appended occurs earlier afterwards, and the index keeps the later offset.
\<close>

lemma repeated_run_keeps_first_offset:
  "\<exists>p. intern_all (strpool_add W) pool_empty [''aa'', ''aaa'', ''aaa'']
     = Some ([\<lparr>sr_offset = 0, sr_len = 2\<rparr>, \<lparr>sr_offset = 2, sr_len = 3\<rparr>, \<lparr>sr_offset = 2, sr_len = 3\<rparr>], p)"
  "plain_add (snd (plain_add (snd (plain_add [] ''aa'')) ''aaa'')) ''aaa'' = (\<lparr>sr_offset = 0, sr_len = 3\<rparr>, ''aaaaa'')"
proof -
  have plain: "plain_add [] ''aa'' = (\<lparr>sr_offset = 0, sr_len = 2\<rparr>, ''aa'')"
    "plain_add ''aa'' ''aaa'' = (\<lparr>sr_offset = 2, sr_len = 3\<rparr>, ''aaaaa'')"
    by (simp_all add: plain_add_def first_occurrence_def occurs_at_def upt_conv_Cons)
  show "plain_add (snd (plain_add (snd (plain_add [] ''aa'')) ''aaa'')) ''aaa'' = (\<lparr>sr_offset = 0, sr_len = 3\<rparr>, ''aaaaa'')"
    unfolding plain by (simp add: plain plain_add_def first_occurrence_def occurs_at_def upt_conv_Cons)
  have e: "seen_run pool_empty s = None" if "s \<noteq> []" for s using that by (simp add: seen_run_def pool_empty_def)
  obtain r p where p: "strpool_add W pool_empty ''aa'' = Some (r, p)" "strpool_ok W p" "seen_run p = (seen_run pool_empty)(''aa'' \<mapsto> r)"
      "(r, pool_text p) = plain_add (pool_text pool_empty) ''aa''"
    using strpool_add_spec [OF strpool_ok_empty(1), of W "''aa''"] e by auto
  obtain r' q where q: "strpool_add W p ''aaa'' = Some (r', q)" "strpool_ok W q" "seen_run q = (seen_run p)(''aaa'' \<mapsto> r')"
      "(r', pool_text q) = plain_add (pool_text p) ''aaa''"
    using strpool_add_spec [OF p(2), of "''aaa''"] e p(3) by auto
  obtain t where "strpool_add W q ''aaa'' = Some (r', t)"
    using strpool_add_spec [OF q(2), of "''aaa''"] q(3) by auto
  then show "\<exists>p. intern_all (strpool_add W) pool_empty [''aa'', ''aaa'', ''aaa'']
     = Some ([\<lparr>sr_offset = 0, sr_len = 2\<rparr>, \<lparr>sr_offset = 2, sr_len = 3\<rparr>, \<lparr>sr_offset = 2, sr_len = 3\<rparr>], p)"
    using p(1,4) q(1,4) plain strpool_ok_empty(2) by simp
qed

end
