(* ===== verification/Freestanding_Memory.thy ===== *)
theory Freestanding_Memory
  imports Prelude "HOL-Library.Monad_Syntax"
begin

text \<open>
  The linear memory of the compiler built as WebAssembly, and the memory and string functions of its C
  library (\<open>src/src/freestanding/baselib.c\<close>). The memory is a partial map from addresses to bytes: an
  access outside it traps, which is the value None, and so is a loop that never ends. The functions
  return the pointers of the code; the lemmas say what they leave in the memory.
\<close>

section \<open>Memory\<close>

type_synonym memory = "nat \<rightharpoonup> byte"

definition store8 :: "memory \<Rightarrow> nat \<Rightarrow> byte \<Rightarrow> memory option" where
  "store8 m a v = (if m a = None then None else Some (m(a \<mapsto> v)))"

definition load32 :: "memory \<Rightarrow> nat \<Rightarrow> nat option" where
  "load32 m a =
     do { b0 \<leftarrow> m a; b1 \<leftarrow> m (a + 1); b2 \<leftarrow> m (a + 2); b3 \<leftarrow> m (a + 3);
          Some (unat b0 + 2 ^ 8 * unat b1 + 2 ^ 16 * unat b2 + 2 ^ 24 * unat b3) }"

definition store32 :: "memory \<Rightarrow> nat \<Rightarrow> nat \<Rightarrow> memory option" where
  "store32 m a v =
     do { m \<leftarrow> store8 m a (of_nat v); m \<leftarrow> store8 m (a + 1) (of_nat (v div 2 ^ 8));
          m \<leftarrow> store8 m (a + 2) (of_nat (v div 2 ^ 16)); store8 m (a + 3) (of_nat (v div 2 ^ 24)) }"

section \<open>Bytes in memory\<close>

text \<open>A run of bytes at an address, the memory with a run written to it, and a C string at an address.\<close>

definition bytes_in :: "memory \<Rightarrow> nat \<Rightarrow> byte list \<Rightarrow> bool" where
  "bytes_in m a bs \<longleftrightarrow> (\<forall>i<length bs. m (a + i) = Some (bs ! i))"

definition room :: "memory \<Rightarrow> nat \<Rightarrow> nat \<Rightarrow> bool" where
  "room m a n \<longleftrightarrow> {a..<a + n} \<subseteq> dom m"

definition blit :: "memory \<Rightarrow> nat \<Rightarrow> byte list \<Rightarrow> memory" where
  "blit m a bs = (\<lambda>x. if a \<le> x \<and> x < a + length bs then Some (bs ! (x - a)) else m x)"

definition str_in :: "memory \<Rightarrow> nat \<Rightarrow> byte list \<Rightarrow> bool" where
  "str_in m a bs \<longleftrightarrow> bytes_in m a (bs @ [0]) \<and> 0 \<notin> set bs"

lemma bytes_in_Nil [simp]: "bytes_in m a []"
  by (simp add: bytes_in_def)

lemma bytes_in_Cons [simp]: "bytes_in m a (b # bs) \<longleftrightarrow> m a = Some b \<and> bytes_in m (Suc a) bs"
  by (auto simp: bytes_in_def nth_Cons split: nat.splits)

lemma bytes_in_append [simp]: "bytes_in m a (bs @ cs) \<longleftrightarrow> bytes_in m a bs \<and> bytes_in m (a + length bs) cs"
  by (induction bs arbitrary: a) auto

lemma bytes_in_room: "bytes_in m a bs \<Longrightarrow> room m a (length bs)"
  unfolding bytes_in_def room_def
  by (metis atLeastLessThan_iff domI le_Suc_ex nat_add_left_cancel_less subsetI)

lemma room_Suc [simp]: "room m a (Suc n) \<longleftrightarrow> (\<exists>b. m a = Some b) \<and> room m (Suc a) n"
proof -
  have "{a..<a + Suc n} = insert a {Suc a..<Suc a + n}" by auto
  then show ?thesis by (auto simp: room_def dom_def)
qed

lemma room_0 [simp]: "room m a 0"
  by (simp add: room_def)

lemma room_last: "room m a (Suc n) \<longleftrightarrow> room m a n \<and> (\<exists>b. m (a + n) = Some b)"
  by (auto simp: room_def dom_def subset_eq less_Suc_eq)

lemma room_upd [simp]: "m x = Some c \<Longrightarrow> room (m(x \<mapsto> b)) a n = room m a n"
  by (auto simp: room_def dom_def)

lemma bytes_in_cong: "(\<And>x. a \<le> x \<Longrightarrow> x < a + length bs \<Longrightarrow> m x = m' x) \<Longrightarrow> bytes_in m a bs = bytes_in m' a bs"
  by (simp add: bytes_in_def)

lemma bytes_in_ex: "room m a n \<Longrightarrow> \<exists>bs. length bs = n \<and> bytes_in m a bs"
proof (induction n arbitrary: a)
  case (Suc n)
  then obtain b where b: "m a = Some b" "room m (Suc a) n" by auto
  with Suc.IH [of "Suc a"] obtain bs where "m a = Some b" "length bs = n" "bytes_in m (Suc a) bs" by blast
  then have "length (b # bs) = Suc n \<and> bytes_in m a (b # bs)" by simp
  then show ?case by blast
qed simp

lemma bytes_in_unique: "bytes_in m a bs \<Longrightarrow> bytes_in m a cs \<Longrightarrow> length bs = length cs \<Longrightarrow> bs = cs"
  by (metis bytes_in_def nth_equalityI option.inject)

lemma bytes_in_take: "bytes_in m a bs \<Longrightarrow> bytes_in m a (take n bs)"
  by (simp add: bytes_in_def)

lemma blit_Nil [simp]: "blit m a [] = m"
  by (auto simp: blit_def fun_eq_iff)

lemma blit_Cons: "blit m a (b # bs) = blit (m(a \<mapsto> b)) (Suc a) bs"
  by (auto simp: blit_def fun_eq_iff nth_Cons' less_Suc_eq_le)

lemma blit_snoc: "blit m a (bs @ [b]) = blit (m(a + length bs \<mapsto> b)) a bs"
  by (auto simp: blit_def fun_eq_iff nth_append)

lemma bytes_in_blit [simp]: "bytes_in (blit m a bs) a bs"
  by (simp add: blit_def bytes_in_def)

lemma blit_other: "x < a \<or> a + length bs \<le> x \<Longrightarrow> blit m a bs x = m x"
  by (auto simp: blit_def)

lemma blit_dom: "room m a (length bs) \<Longrightarrow> dom (blit m a bs) = dom m"
  by (auto simp: blit_def dom_def room_def split: if_splits)

section \<open>Words in memory\<close>

definition put32 :: "memory \<Rightarrow> nat \<Rightarrow> nat \<Rightarrow> memory" where
  "put32 m a v = blit m a [of_nat v, of_nat (v div 2 ^ 8), of_nat (v div 2 ^ 16), of_nat (v div 2 ^ 24)]"

lemma four: "(4 :: nat) = Suc (Suc (Suc (Suc 0)))" "{a..<a + 4} = {a, Suc a, Suc (Suc a), Suc (Suc (Suc a))}" for a :: nat
  by auto

lemma store32_put: "room m a 4 \<Longrightarrow> store32 m a v = Some (put32 m a v)"
proof -
  assume "room m a 4"
  then have "room m a (Suc (Suc (Suc (Suc 0))))" by (simp only: four(1))
  then show ?thesis by (auto simp: store32_def store8_def put32_def blit_Cons numeral_3_eq_3)
qed

lemma put32_other: "x < a \<or> a + 4 \<le> x \<Longrightarrow> put32 m a v x = m x"
  unfolding put32_def by (rule blit_other) auto

lemma put32_dom: "room m a 4 \<Longrightarrow> dom (put32 m a v) = dom m"
  unfolding put32_def by (rule blit_dom) (simp add: four(1) del: room_Suc)

lemma digits_256:
  "v < 2 ^ 32 \<Longrightarrow> v mod 256 + 256 * (v div 256 mod 256) + 65536 * (v div 65536 mod 256) + 16777216 * (v div 16777216 mod 256) = (v :: nat)"
proof -
  assume v: "v < 2 ^ 32"
  have d: "v div 65536 = v div 256 div 256" "v div 16777216 = v div 65536 div 256"
    by (simp_all add: div_mult2_eq [symmetric])
  have s: "v = v mod 256 + 256 * (v div 256)" "v div 256 = v div 256 mod 256 + 256 * (v div 65536)"
    "v div 65536 = v div 65536 mod 256 + 256 * (v div 16777216)"
    unfolding d by (simp_all only: mod_mult_div_eq)
  have "v div 16777216 mod 256 = v div 16777216" using v by (simp add: less_mult_imp_div_less)
  show ?thesis using s \<open>v div 16777216 mod 256 = v div 16777216\<close> by linarith
qed

lemma load32_put_same: "v < 2 ^ 32 \<Longrightarrow> load32 (put32 m a v) a = Some v"
  using digits_256 [of v] by (simp add: load32_def put32_def blit_def unsigned_of_nat take_bit_eq_mod nth_Cons')

lemma load32_cong: "(\<And>x. a \<le> x \<Longrightarrow> x < a + 4 \<Longrightarrow> m x = m' x) \<Longrightarrow> load32 m a = load32 m' a"
  by (simp add: load32_def)

lemma load32_put_other: "b + 4 \<le> a \<or> a + 4 \<le> b \<Longrightarrow> load32 (put32 m a v) b = load32 m b"
  by (intro load32_cong put32_other) auto

lemma load32_less: "load32 m a = Some v \<Longrightarrow> v < 2 ^ 32"
proof -
  assume "load32 m a = Some v"
  then obtain b0 b1 b2 b3 :: byte where
    "v = unat b0 + 2 ^ 8 * unat b1 + 2 ^ 16 * unat b2 + 2 ^ 24 * unat b3"
    by (auto simp: load32_def bind_eq_Some_conv)
  moreover have "unat b < 256" for b :: byte using unsigned_less [of b] by simp
  from this [of b0] this [of b1] this [of b2] this [of b3]
  have "unat b0 + 2 ^ 8 * unat b1 + 2 ^ 16 * unat b2 + 2 ^ 24 * unat b3 < 2 ^ 32" by simp
  ultimately show ?thesis by simp
qed

section \<open>Copying\<close>

text \<open>The loops that count up and the loop of \<open>memmove\<close> that counts down.\<close>

fun copy_up :: "memory \<Rightarrow> nat \<Rightarrow> nat \<Rightarrow> nat \<Rightarrow> memory option" where
  "copy_up m d s 0 = Some m"
| "copy_up m d s (Suc n) = do { b \<leftarrow> m s; m \<leftarrow> store8 m d b; copy_up m (d + 1) (s + 1) n }"

fun copy_down :: "memory \<Rightarrow> nat \<Rightarrow> nat \<Rightarrow> nat \<Rightarrow> memory option" where
  "copy_down m d s 0 = Some m"
| "copy_down m d s (Suc n) = do { b \<leftarrow> m (s + n); m \<leftarrow> store8 m (d + n) b; copy_down m d s n }"

fun fill :: "memory \<Rightarrow> nat \<Rightarrow> byte \<Rightarrow> nat \<Rightarrow> memory option" where
  "fill m d v 0 = Some m"
| "fill m d v (Suc n) = do { m \<leftarrow> store8 m d v; fill m (d + 1) v n }"

definition memcpy :: "memory \<Rightarrow> nat \<Rightarrow> nat \<Rightarrow> nat \<Rightarrow> memory option" where
  "memcpy = copy_up"

definition memmove :: "memory \<Rightarrow> nat \<Rightarrow> nat \<Rightarrow> nat \<Rightarrow> memory option" where
  "memmove m d s n =
     (if d = s \<or> n = 0 then Some m
      else if d < s then copy_up m d s n
      else copy_down m d s n)"

definition memset :: "memory \<Rightarrow> nat \<Rightarrow> int \<Rightarrow> nat \<Rightarrow> memory option" where
  "memset m d c n = fill m d (of_int c) n"

lemma copy_up_blit:
  "bytes_in m s bs \<Longrightarrow> room m d (length bs) \<Longrightarrow> d \<le> s \<or> s + length bs \<le> d \<Longrightarrow> copy_up m d s (length bs) = Some (blit m d bs)"
proof (induction bs arbitrary: m d s)
  case (Cons b bs)
  from Cons.prems have m: "m s = Some b" "\<exists>c. m d = Some c" "bytes_in m (Suc s) bs" "room m (Suc d) (length bs)" by auto
  have "bytes_in (m(d \<mapsto> b)) (Suc s) bs = bytes_in m (Suc s) bs" using Cons.prems(3) by (intro bytes_in_cong) auto
  moreover have "room (m(d \<mapsto> b)) (Suc d) (length bs)" using m(2,4) by auto
  ultimately show ?case using Cons.IH [of "m(d \<mapsto> b)" "Suc s" "Suc d"] m Cons.prems(3)
    by (auto simp: store8_def blit_Cons simp del: fun_upd_apply)
qed simp

lemma copy_down_blit:
  "bytes_in m s bs \<Longrightarrow> room m d (length bs) \<Longrightarrow> s \<le> d \<Longrightarrow> copy_down m d s (length bs) = Some (blit m d bs)"
proof (induction bs arbitrary: m rule: rev_induct)
  case (snoc b bs)
  from snoc.prems have m: "m (s + length bs) = Some b" "\<exists>c. m (d + length bs) = Some c" "bytes_in m s bs" "room m d (length bs)"
    by (auto simp: room_last simp del: room_Suc)
  have "bytes_in (m(d + length bs \<mapsto> b)) s bs = bytes_in m s bs" using snoc.prems(3) by (intro bytes_in_cong) auto
  moreover have "room (m(d + length bs \<mapsto> b)) d (length bs)" using m(2,4) by auto
  ultimately show ?case using snoc.IH [of "m(d + length bs \<mapsto> b)"] m snoc.prems(3)
    by (auto simp: store8_def blit_snoc simp del: fun_upd_apply)
qed simp

lemma memcpy_blit:
  "bytes_in m s bs \<Longrightarrow> room m d (length bs) \<Longrightarrow> d \<le> s \<or> s + length bs \<le> d \<Longrightarrow> memcpy m d s (length bs) = Some (blit m d bs)"
  unfolding memcpy_def by (rule copy_up_blit)

lemma blit_self: "bytes_in m s bs \<Longrightarrow> blit m s bs = m"
  unfolding blit_def bytes_in_def fun_eq_iff by (metis le_Suc_ex nat_add_left_cancel_less add_diff_cancel_left')

lemma memset_blit: "room m d n \<Longrightarrow> memset m d c n = Some (blit m d (replicate n (of_int c)))"
proof -
  have "room m d n \<Longrightarrow> fill m d v n = Some (blit m d (replicate n v))" for v
  proof (induction n arbitrary: m d)
    case (Suc n)
    then obtain b where "m d = Some b" "room m (Suc d) n" by auto
    then show ?case using Suc.IH [of "m(d \<mapsto> v)" "Suc d"] by (auto simp: store8_def blit_Cons simp del: fun_upd_apply)
  qed simp
  then show "room m d n \<Longrightarrow> memset m d c n = Some (blit m d (replicate n (of_int c)))" by (simp add: memset_def)
qed

text \<open>\<open>memmove\<close> copies overlapping runs as if through a buffer of their own.\<close>

lemma memmove_blit:
  assumes "bytes_in m s bs" and "room m d (length bs)"
  shows "memmove m d s (length bs) = Some (blit m d bs)"
  using copy_up_blit [OF assms] copy_down_blit [OF assms] blit_self [of m s bs] assms(1)
  by (cases "bs = []") (auto simp: memmove_def)

section \<open>Comparing and searching\<close>

fun memcmp :: "memory \<Rightarrow> nat \<Rightarrow> nat \<Rightarrow> nat \<Rightarrow> int option" where
  "memcmp m a b 0 = Some 0"
| "memcmp m a b (Suc n) =
     do { x \<leftarrow> m a; y \<leftarrow> m b; if x \<noteq> y then Some (uint x - uint y) else memcmp m (a + 1) (b + 1) n }"

text \<open>The loops over a string only end at its NUL (or trap at the end of the memory).\<close>

partial_function (option) strlen_from :: "memory \<Rightarrow> nat \<Rightarrow> nat \<Rightarrow> nat option" where
  "strlen_from m s p = do { c \<leftarrow> m p; if c \<noteq> 0 then strlen_from m s (p + 1) else Some (p - s) }"

definition strlen :: "memory \<Rightarrow> nat \<Rightarrow> nat option" where
  "strlen m s = strlen_from m s s"

partial_function (option) strcmp :: "memory \<Rightarrow> nat \<Rightarrow> nat \<Rightarrow> int option" where
  "strcmp m a b =
     do { x \<leftarrow> m a; y \<leftarrow> m b;
          if x \<noteq> 0 \<and> x = y then strcmp m (a + 1) (b + 1) else Some (uint x - uint y) }"

fun strncmp :: "memory \<Rightarrow> nat \<Rightarrow> nat \<Rightarrow> nat \<Rightarrow> int option" where
  "strncmp m a b 0 = Some 0"
| "strncmp m a b (Suc n) =
     do { x \<leftarrow> m a; y \<leftarrow> m b;
          if x \<noteq> y then Some (uint x - uint y)
          else if x = 0 then Some 0
          else strncmp m (a + 1) (b + 1) n }"

text \<open>0 is the null pointer.\<close>

partial_function (option) strchr :: "memory \<Rightarrow> nat \<Rightarrow> byte \<Rightarrow> nat option" where
  "strchr m s ch = do { c \<leftarrow> m s; if c = ch then Some s else if c = 0 then Some 0 else strchr m (s + 1) ch }"

partial_function (option) copy_str :: "memory \<Rightarrow> nat \<Rightarrow> nat \<Rightarrow> memory option" where
  "copy_str m d s =
     do { c \<leftarrow> m s; m \<leftarrow> store8 m d c; if c \<noteq> 0 then copy_str m (d + 1) (s + 1) else Some m }"

definition strcpy :: "memory \<Rightarrow> nat \<Rightarrow> nat \<Rightarrow> memory option" where
  "strcpy = copy_str"

text \<open>The difference of the first bytes in which two runs differ.\<close>

fun first_diff :: "byte list \<Rightarrow> byte list \<Rightarrow> int" where
  "first_diff (x # xs) (y # ys) = (if x \<noteq> y then uint x - uint y else first_diff xs ys)"
| "first_diff _ _ = 0"

lemma first_diff_0: "length xs = length ys \<Longrightarrow> first_diff xs ys = 0 \<longleftrightarrow> xs = ys"
  by (induction xs ys rule: first_diff.induct) (auto simp: unsigned_word_eqI)

lemma str_in_Cons: "str_in m a (b # bs) \<longleftrightarrow> m a = Some b \<and> b \<noteq> 0 \<and> str_in m (Suc a) bs"
  by (auto simp: str_in_def)

lemma str_in_Nil: "str_in m a [] \<longleftrightarrow> m a = Some 0"
  by (simp add: str_in_def)

lemma memcmp_diff: "bytes_in m a xs \<Longrightarrow> bytes_in m b ys \<Longrightarrow> length xs = length ys \<Longrightarrow> memcmp m a b (length xs) = Some (first_diff xs ys)"
  by (induction xs ys arbitrary: a b rule: first_diff.induct) auto

lemma strlen_from_ok: "str_in m p bs \<Longrightarrow> s \<le> p \<Longrightarrow> strlen_from m s p = Some (p - s + length bs)"
  by (induction bs arbitrary: p) (subst strlen_from.simps; simp add: str_in_Cons str_in_Nil Suc_diff_le)+

lemma strlen_ok: "str_in m s bs \<Longrightarrow> strlen m s = Some (length bs)"
  by (simp add: strlen_def strlen_from_ok)

lemma strcmp_diff: "str_in m a xs \<Longrightarrow> str_in m b ys \<Longrightarrow> strcmp m a b = Some (first_diff (xs @ [0]) (ys @ [0]))"
proof (induction xs arbitrary: a b ys)
  case Nil
  then show ?case by (cases ys) (subst strcmp.simps; auto simp: str_in_Cons str_in_Nil)+
next
  case (Cons x xs)
  then show ?case by (cases ys) (subst strcmp.simps; auto simp: str_in_Cons str_in_Nil)+
qed

lemma strncmp_diff: "str_in m a xs \<Longrightarrow> str_in m b ys \<Longrightarrow> strncmp m a b n = Some (first_diff (take n (xs @ [0])) (take n (ys @ [0])))"
proof (induction n arbitrary: a b xs ys)
  case (Suc n)
  then show ?case by (cases xs; cases ys) (auto simp: str_in_Cons str_in_Nil)
qed simp

lemma strchr_ok: "str_in m s bs \<Longrightarrow> strchr m s ch =
    Some (if ch = 0 then s + length bs
          else if ch \<in> set bs then s + length (takeWhile (\<lambda>c. c \<noteq> ch) bs) else 0)"
proof (induction bs arbitrary: s)
  case Nil
  then show ?case by (subst strchr.simps) (simp add: str_in_Nil)
next
  case (Cons b bs)
  then show ?case by (subst strchr.simps) (auto simp: str_in_Cons)
qed

lemma copy_str_ok: "str_in m s bs \<Longrightarrow> room m d (Suc (length bs)) \<Longrightarrow> d \<le> s \<or> s + length bs < d \<Longrightarrow>
    copy_str m d s = Some (blit m d (bs @ [0]))"
proof (induction bs arbitrary: m d s)
  case Nil
  then show ?case by (subst copy_str.simps) (auto simp: str_in_Nil store8_def blit_Cons)
next
  case (Cons b bs)
  from Cons.prems have m: "m s = Some b" "b \<noteq> 0" "str_in m (Suc s) bs" "\<exists>c. m d = Some c" "room m (Suc d) (Suc (length bs))"
    by (auto simp: str_in_Cons)
  have "str_in (m(d \<mapsto> b)) (Suc s) bs"
    using m(3) Cons.prems(3) bytes_in_cong [of "Suc s" "bs @ [0]" "m(d \<mapsto> b)" m] by (auto simp: str_in_def simp del: bytes_in_append)
  moreover have "room (m(d \<mapsto> b)) (Suc d) (Suc (length bs))" using m(4,5) by (auto simp del: room_Suc)
  ultimately show ?case using Cons.IH [of "m(d \<mapsto> b)" "Suc s" "Suc d"] m(1,2,4) Cons.prems(3)
    by (subst copy_str.simps) (auto simp: store8_def blit_Cons simp del: room_Suc fun_upd_apply)
qed

end
