(* ===== verification/Freestanding_Alloc.thy ===== *)
theory Freestanding_Alloc
  imports Freestanding_Memory
begin

text \<open>
  The allocator of the compiler built as WebAssembly (\<open>src/src/freestanding/alloc.c\<close>): blocks with a header and a
  footer, a doubly linked list of the free ones, first fit, coalescing. Its operations are shown to
  refine an abstract heap, a map from pointers to the bytes the client keeps there, under any sequence of
  calls and writes of the client. Addresses and \<open>uint32_t\<close> values are natural numbers
  with the wrap-around of 32 bits written out. None is a trap or a loop that does not end.
\<close>

section \<open>The state\<close>

text \<open>
  What the linker and the engine decide: \<open>__heap_base\<close>, the pages of memory at the start, and whether
  \<open>memory.grow\<close> succeeds, by the pages there are and those asked for.
\<close>

record Host =
  heap_base :: nat
  start_pages :: nat
  can_grow :: "nat \<Rightarrow> nat \<Rightarrow> bool"

record Heap =
  mem :: memory
  g_heap_start :: nat
  g_brk :: nat
  g_end :: nat
  g_free :: nat
  g_inited :: bool

definition w32 :: "nat \<Rightarrow> nat" where "w32 n = n mod 2 ^ 32"

definition sub32 :: "nat \<Rightarrow> nat \<Rightarrow> nat" where "sub32 a b = w32 (a + 2 ^ 32 - b)"

definition ALIGN :: nat where "ALIGN = 8"
definition HDR :: nat where "HDR = 8"
definition FTR :: nat where "FTR = 8"
definition MIN_PAYLOAD :: nat where "MIN_PAYLOAD = 16"
definition PAGE :: nat where "PAGE = 65536"

text \<open>\<open>a\<close> is a power of two: \<open>& ~(a - 1)\<close> rounds down to a multiple.\<close>

definition align_up :: "nat \<Rightarrow> nat \<Rightarrow> nat" where
  "align_up x a = (let y = w32 (x + a - 1) in y - y mod a)"

definition ensure_init :: "Host \<Rightarrow> Heap \<Rightarrow> Heap" where
  "ensure_init H h =
     (if g_inited h then h
      else let hb = align_up (heap_base H) ALIGN
           in h\<lparr>g_inited := True, g_heap_start := hb, g_brk := hb, g_end := w32 (start_pages H * PAGE), g_free := 0\<rparr>)"

text \<open>New pages are zero.\<close>

definition memory_grow :: "Host \<Rightarrow> Heap \<Rightarrow> nat \<Rightarrow> Heap option" where
  "memory_grow H h pages =
     (if can_grow H (g_end h div PAGE) pages
      then Some (h\<lparr>mem := (\<lambda>a. if g_end h \<le> a \<and> a < g_end h + pages * PAGE then Some 0 else mem h a),
                   g_end := w32 (g_end h + pages * PAGE)\<rparr>)
      else None)"

definition heap_extend :: "Host \<Rightarrow> Heap \<Rightarrow> nat \<Rightarrow> nat \<times> Heap" where
  "heap_extend H h n =
     (let grown = (if w32 (g_brk h + n) > g_end h
                   then let need = sub32 (w32 (g_brk h + n)) (g_end h);
                            pages = w32 (need + PAGE - 1) div PAGE
                        in memory_grow H h pages
                   else Some h)
      in case grown of
           None \<Rightarrow> (0, h)
         | Some h \<Rightarrow> (g_brk h, h\<lparr>g_brk := w32 (g_brk h + n)\<rparr>))"

section \<open>Blocks and the free list\<close>

definition load_at :: "Heap \<Rightarrow> nat \<Rightarrow> nat option" where
  "load_at h a = load32 (mem h) a"

definition store_at :: "Heap \<Rightarrow> nat \<Rightarrow> nat \<Rightarrow> Heap option" where
  "store_at h a v = map_option (\<lambda>m. h\<lparr>mem := m\<rparr>) (store32 (mem h) a v)"

definition tag_size :: "nat \<Rightarrow> nat" where "tag_size v = v - v mod 8"

definition tag_used :: "nat \<Rightarrow> bool" where "tag_used v \<longleftrightarrow> odd v"

definition blk_size :: "Heap \<Rightarrow> nat \<Rightarrow> nat option" where
  "blk_size h b = map_option tag_size (load_at h b)"

definition blk_used :: "Heap \<Rightarrow> nat \<Rightarrow> bool option" where
  "blk_used h b = map_option tag_used (load_at h b)"

definition blk_set :: "Heap \<Rightarrow> nat \<Rightarrow> nat \<Rightarrow> bool \<Rightarrow> Heap option" where
  "blk_set h b sz used =
     (let v = (if used then (if even sz then sz + 1 else sz) else sz)
      in do { h \<leftarrow> store_at h b v; store_at h (sub32 (w32 (b + sz)) FTR) v })"

text \<open>A node of the free list is the payload: \<open>next\<close> at its address, \<open>prev\<close> behind it.\<close>

definition next_at :: "nat \<Rightarrow> nat" where "next_at n = n"
definition prev_at :: "nat \<Rightarrow> nat" where "prev_at n = w32 (n + 4)"

definition fl_insert :: "Heap \<Rightarrow> nat \<Rightarrow> Heap option" where
  "fl_insert h b =
     (let n = w32 (b + HDR)
      in do { h \<leftarrow> store_at h (prev_at n) 0;
              h \<leftarrow> store_at h (next_at n) (g_free h);
              h \<leftarrow> (if g_free h \<noteq> 0 then store_at h (prev_at (g_free h)) n else Some h);
              Some (h\<lparr>g_free := n\<rparr>) })"

definition fl_remove :: "Heap \<Rightarrow> nat \<Rightarrow> Heap option" where
  "fl_remove h b =
     (let n = w32 (b + HDR)
      in do { p \<leftarrow> load_at h (prev_at n);
              x \<leftarrow> load_at h (next_at n);
              h \<leftarrow> (if p \<noteq> 0 then store_at h (next_at p) x else Some (h\<lparr>g_free := x\<rparr>));
              x \<leftarrow> load_at h (next_at n);
              if x \<noteq> 0 then do { p \<leftarrow> load_at h (prev_at n); store_at h (prev_at x) p } else Some h })"

section \<open>The operations\<close>

partial_function (option) first_fit :: "Heap \<Rightarrow> nat \<Rightarrow> nat \<Rightarrow> nat option" where
  "first_fit h tot n =
     (if n = 0 then Some 0
      else do { bs \<leftarrow> blk_size h (sub32 n HDR);
                if bs \<ge> tot then Some n
                else do { x \<leftarrow> load_at h (next_at n); first_fit h tot x } })"

definition take_block :: "Heap \<Rightarrow> nat \<Rightarrow> nat \<Rightarrow> (nat \<times> Heap) option" where
  "take_block h b tot =
     do { bs \<leftarrow> blk_size h b;
          h \<leftarrow> fl_remove h b;
          let rem = sub32 bs tot;
          h \<leftarrow> (if rem \<ge> HDR + MIN_PAYLOAD + FTR
                then let r = w32 (b + tot)
                     in do { h \<leftarrow> blk_set h b tot True; h \<leftarrow> blk_set h r rem False; fl_insert h r }
                else blk_set h b bs True);
          Some (w32 (b + HDR), h) }"

definition new_block :: "Host \<Rightarrow> Heap \<Rightarrow> nat \<Rightarrow> (nat \<times> Heap) option" where
  "new_block H h tot =
     (case heap_extend H h tot of
        (b, h) \<Rightarrow>
          if b = 0 then Some (0, h)
          else do { h \<leftarrow> blk_set h b tot True; Some (w32 (b + HDR), h) })"

definition malloc :: "Host \<Rightarrow> Heap \<Rightarrow> nat \<Rightarrow> (nat \<times> Heap) option" where
  "malloc H h req =
     (let h = ensure_init H h; req = (if req = 0 then 1 else req)
      in if req > 0xfffffff0 then Some (0, h)
         else let need = align_up req ALIGN;
                  need = (if need < MIN_PAYLOAD then MIN_PAYLOAD else need);
                  tot = w32 (HDR + need + FTR)
              in do { n \<leftarrow> first_fit h tot (g_free h);
                      if n \<noteq> 0 then take_block h (sub32 n HDR) tot else new_block H h tot })"

definition join_next :: "Heap \<Rightarrow> nat \<Rightarrow> nat \<Rightarrow> (nat \<times> Heap) option" where
  "join_next h b bs =
     (let x = w32 (b + bs)
      in if x < g_brk h
         then do { u \<leftarrow> blk_used h x;
                   if u then Some (bs, h)
                   else do { h \<leftarrow> fl_remove h x; xs \<leftarrow> blk_size h x; Some (w32 (bs + xs), h) } }
         else Some (bs, h))"

definition join_prev :: "Heap \<Rightarrow> nat \<Rightarrow> nat \<Rightarrow> (nat \<times> nat \<times> Heap) option" where
  "join_prev h b bs =
     (if b > g_heap_start h
      then do { pfoot \<leftarrow> load_at h (sub32 b FTR);
                if tag_used pfoot then Some (b, bs, h)
                else let p = sub32 b (tag_size pfoot)
                     in do { h \<leftarrow> fl_remove h p; Some (p, w32 (bs + tag_size pfoot), h) } }
      else Some (b, bs, h))"

definition free :: "Heap \<Rightarrow> nat \<Rightarrow> Heap option" where
  "free h p =
     (if p = 0 then Some h
      else let b = sub32 p HDR
           in do { bs \<leftarrow> blk_size h b;
                   (bs, h) \<leftarrow> join_next h b bs;
                   (b, bs, h) \<leftarrow> join_prev h b bs;
                   h \<leftarrow> blk_set h b bs False;
                   fl_insert h b })"

definition calloc :: "Host \<Rightarrow> Heap \<Rightarrow> nat \<Rightarrow> nat \<Rightarrow> (nat \<times> Heap) option" where
  "calloc H h nmemb sz =
     (if nmemb * sz \<ge> 2 ^ 32 then Some (0, h)
      else do { (p, h) \<leftarrow> malloc H h (nmemb * sz);
                if p \<noteq> 0 then do { m \<leftarrow> memset (mem h) p 0 (nmemb * sz); Some (p, h\<lparr>mem := m\<rparr>) }
                else Some (p, h) })"

definition realloc :: "Host \<Rightarrow> Heap \<Rightarrow> nat \<Rightarrow> nat \<Rightarrow> (nat \<times> Heap) option" where
  "realloc H h p n =
     (if p = 0 then malloc H h n
      else if n = 0 then do { h \<leftarrow> free h p; Some (0, h) }
      else do { bs \<leftarrow> blk_size h (sub32 p HDR);
                let avail = sub32 bs (HDR + FTR);
                if n \<le> avail then Some (p, h)
                else do { (q, h) \<leftarrow> malloc H h n;
                          if q = 0 then Some (0, h)
                          else do { m \<leftarrow> memcpy (mem h) q p avail;
                                    h \<leftarrow> free (h\<lparr>mem := m\<rparr>) p;
                                    Some (q, h) } } })"

end
