(* ===== verification/Freestanding_Heap.thy ===== *)
theory Freestanding_Heap
  imports Freestanding_Alloc
begin

text \<open>
  The invariant of the allocator and what its steps do to it. The memory between \<open>g_heap_start\<close> and \<open>g_brk\<close>
  is tiled by blocks; inside an operation a block can be a hole, which is neither in use nor in the free list
  and has no valid tags.
\<close>

section \<open>Blocks\<close>

datatype kind = Used | Free | Hole

type_synonym block = "nat \<times> nat \<times> kind"

fun tiles :: "nat \<Rightarrow> block list \<Rightarrow> nat \<Rightarrow> bool" where
  "tiles a [] e \<longleftrightarrow> a = e"
| "tiles a ((c, s, k) # B) e \<longleftrightarrow> c = a \<and> 32 \<le> s \<and> 8 dvd s \<and> tiles (a + s) B e"

lemma tiles_append: "tiles a (B @ C) e \<longleftrightarrow> (\<exists>x. tiles a B x \<and> tiles x C e)"
  by (induction a B e rule: tiles.induct) auto

lemma tiles_le: "tiles a B e \<Longrightarrow> a \<le> e"
  by (induction a B e rule: tiles.induct) auto

lemma tiles_mem: "tiles a B e \<Longrightarrow> (c, s, k) \<in> set B \<Longrightarrow> a \<le> c \<and> c + s \<le> e \<and> 32 \<le> s \<and> 8 dvd s \<and> (8 dvd a \<longrightarrow> 8 dvd c)"
proof (induction a B e rule: tiles.induct)
  case (2 a c' s' k' B e)
  then show ?case using tiles_le [of "a + s'" B e] by auto
qed simp

lemma tiles_split:
  assumes "tiles a (B1 @ (c, s, k) # B2) e"
  shows "tiles a B1 c" "tiles (c + s) B2 e" "32 \<le> s" "8 dvd s"
  using assms by (auto simp: tiles_append)

lemma tiles_others:
  assumes "tiles a (B1 @ (c, s, k) # B2) e" and "(c', s', k') \<in> set B1 \<union> set B2"
  shows "c' + s' \<le> c \<or> c + s \<le> c'"
  using assms(2) tiles_mem [OF tiles_split(1) [OF assms(1)]] tiles_mem [OF tiles_split(2) [OF assms(1)]] by blast

lemma tiles_disjoint:
  assumes "tiles a B e" and "(c, s, k) \<in> set B" and "(c', s', k') \<in> set B"
  shows "(c, s, k) = (c', s', k') \<or> c' + s' \<le> c \<or> c + s \<le> c'"
proof -
  obtain B1 B2 where "B = B1 @ (c, s, k) # B2" using assms(2) by (meson split_list)
  with assms tiles_others [of a B1 c s k B2 e c' s' k'] show ?thesis by auto
qed

lemma tiles_same_start: "tiles a B e \<Longrightarrow> (c, s, k) \<in> set B \<Longrightarrow> (c, s', k') \<in> set B \<Longrightarrow> s = s' \<and> k = k'"
  using tiles_disjoint [of a B e c s k c s' k'] tiles_mem [of a B e c s k] tiles_mem [of a B e c s' k'] by auto

lemma tiles_kind: "tiles a (B1 @ (c, s, k) # B2) e \<Longrightarrow> tiles a (B1 @ (c, s, k') # B2) e"
  by (auto simp: tiles_append)

text \<open>The tags of a block, and the links of a run of the free list between a previous and a next node.\<close>

definition tag_of :: "nat \<Rightarrow> kind \<Rightarrow> nat" where
  "tag_of s k = (if k = Used then s + 1 else s)"

fun tagged :: "memory \<Rightarrow> block \<Rightarrow> bool" where
  "tagged m (c, s, k) \<longleftrightarrow> k = Hole \<or> load32 m c = Some (tag_of s k) \<and> load32 m (c + s - 8) = Some (tag_of s k)"

fun link :: "nat list \<Rightarrow> nat \<Rightarrow> nat" where
  "link [] x = x"
| "link (b # bs) x = b + 8"

fun dll :: "memory \<Rightarrow> nat \<Rightarrow> nat list \<Rightarrow> nat \<Rightarrow> bool" where
  "dll m p [] x \<longleftrightarrow> True"
| "dll m p (b # bs) x \<longleftrightarrow> load32 m (b + 8) = Some (link bs x) \<and> load32 m (b + 12) = Some p \<and> dll m (b + 8) bs x"

lemma link_append: "link (xs @ ys) x = link xs (link ys x)"
  by (cases xs) auto

lemma link_id [simp]: "xs \<noteq> [] \<Longrightarrow> link xs x = hd xs + 8"
  by (cases xs) auto

lemma dll_append: "dll m p (xs @ ys) x \<longleftrightarrow> dll m p xs (link ys x) \<and> dll m (link (rev xs) p) ys x"
proof (induction xs arbitrary: p)
  case (Cons b xs)
  have "link (rev xs) (b + 8) = link (rev xs @ [b]) p" by (simp add: link_append)
  then show ?case by (auto simp: Cons link_append)
qed simp

lemma dll_frame:
  "(\<And>b. b \<in> set xs \<Longrightarrow> load32 m' (b + 8) = load32 m (b + 8) \<and> load32 m' (b + 12) = load32 m (b + 12)) \<Longrightarrow>
    dll m' p xs x = dll m p xs x"
  by (induction xs arbitrary: p) auto

definition apart :: "nat set \<Rightarrow> bool" where
  "apart S \<longleftrightarrow> (\<forall>b\<in>S. \<forall>c\<in>S. b \<noteq> c \<longrightarrow> b + 16 \<le> c \<or> c + 16 \<le> b)"

lemma apartD: "apart S \<Longrightarrow> b \<in> S \<Longrightarrow> c \<in> S \<Longrightarrow> b \<noteq> c \<Longrightarrow> b + 16 \<le> c \<or> c + 16 \<le> b"
  by (auto simp: apart_def)

lemma dll_set_next:
  assumes "dll m p (zs @ [z]) x" and "apart (set (zs @ [z]))" and "distinct (zs @ [z])" and "y < 2 ^ 32"
  shows "dll (put32 m (z + 8) y) p (zs @ [z]) y"
proof -
  let ?m = "put32 m (z + 8) y"
  have "dll ?m p zs (z + 8) = dll m p zs (z + 8)"
  proof (rule dll_frame)
    fix b assume "b \<in> set zs"
    then have "b + 16 \<le> z \<or> z + 16 \<le> b" using assms(2,3) by (auto simp: apart_def)
    then show "load32 ?m (b + 8) = load32 m (b + 8) \<and> load32 ?m (b + 12) = load32 m (b + 12)"
      by (intro conjI load32_put_other) auto
  qed
  moreover have "load32 ?m (z + 12) = load32 m (z + 12)" by (rule load32_put_other) simp
  ultimately show ?thesis using assms(1,4) by (simp add: dll_append load32_put_same)
qed

lemma dll_set_prev:
  assumes "dll m p (z # zs) x" and "apart (set (z # zs))" and "distinct (z # zs)" and "q < 2 ^ 32"
  shows "dll (put32 m (z + 12) q) q (z # zs) x"
proof -
  let ?m = "put32 m (z + 12) q"
  have "dll ?m (z + 8) zs x = dll m (z + 8) zs x"
  proof (rule dll_frame)
    fix b assume "b \<in> set zs"
    then have "b + 16 \<le> z \<or> z + 16 \<le> b" using assms(2,3) by (auto simp: apart_def)
    then show "load32 ?m (b + 8) = load32 m (b + 8) \<and> load32 ?m (b + 12) = load32 m (b + 12)"
      by (intro conjI load32_put_other) auto
  qed
  moreover have "load32 ?m (z + 8) = load32 m (z + 8)" by (rule load32_put_other) simp
  ultimately show ?thesis using assms(1,4) by (simp add: load32_put_same)
qed

section \<open>The invariant\<close>

definition frees :: "block list \<Rightarrow> nat set" where
  "frees B = {c. \<exists>s. (c, s, Free) \<in> set B}"

definition heap_ok :: "Heap \<Rightarrow> block list \<Rightarrow> nat list \<Rightarrow> bool" where
  "heap_ok h B fl \<longleftrightarrow> g_inited h \<and> 8 dvd g_heap_start h \<and> 0 < g_heap_start h
     \<and> tiles (g_heap_start h) B (g_brk h) \<and> g_brk h \<le> g_end h \<and> g_end h < 2 ^ 32 \<and> PAGE dvd g_end h
     \<and> dom (mem h) = {..<g_end h} \<and> (\<forall>x\<in>set B. tagged (mem h) x)
     \<and> distinct fl \<and> set fl = frees B \<and> g_free h = link fl 0 \<and> dll (mem h) 0 fl 0"

text \<open>The memory below the heap and the payloads of the blocks in use stay.\<close>

definition keeps :: "Heap \<Rightarrow> Heap \<Rightarrow> block list \<Rightarrow> bool" where
  "keeps h h' B \<longleftrightarrow> g_heap_start h' = g_heap_start h \<and> (\<forall>x<g_heap_start h. mem h' x = mem h x)
     \<and> (\<forall>c s x. (c, s, Used) \<in> set B \<longrightarrow> c + 8 \<le> x \<longrightarrow> x < c + s - 8 \<longrightarrow> mem h' x = mem h x)"

lemma keeps_refl [simp]: "keeps h h B"
  by (simp add: keeps_def)

lemma keeps_trans: "keeps h h' B \<Longrightarrow> keeps h' h'' B' \<Longrightarrow> (\<And>c s. (c, s, Used) \<in> set B \<Longrightarrow> (c, s, Used) \<in> set B') \<Longrightarrow> keeps h h'' B"
  unfolding keeps_def by metis

lemma w32_id [simp]: "n < 2 ^ 32 \<Longrightarrow> w32 n = n"
  by (simp add: w32_def)

lemma sub32_id [simp]: "b \<le> a \<Longrightarrow> a < 2 ^ 32 \<Longrightarrow> sub32 a b = a - b"
proof -
  assume "b \<le> a" "a < 2 ^ 32"
  then have "a + 2 ^ 32 - b = (a - b) + 2 ^ 32" "a - b < 2 ^ 32" by linarith+
  then show ?thesis by (simp only: sub32_def w32_def mod_add_self2 mod_less)
qed

lemma store_at_ok: "dom (mem h) = {..<E} \<Longrightarrow> a + 4 \<le> E \<Longrightarrow> store_at h a v = Some (h\<lparr>mem := put32 (mem h) a v\<rparr>)"
  by (simp add: store_at_def store32_put room_def subset_eq)

lemma dom_put32: "dom m = {..<E} \<Longrightarrow> a + 4 \<le> E \<Longrightarrow> dom (put32 m a v) = {..<E}"
  by (subst put32_dom) (auto simp: room_def)

text \<open>What a change of the links of some blocks that are not in use leaves.\<close>

definition only_links :: "memory \<Rightarrow> memory \<Rightarrow> nat set \<Rightarrow> bool" where
  "only_links m m' L \<longleftrightarrow> (\<forall>x. (\<forall>b\<in>L. x < b + 8 \<or> b + 16 \<le> x) \<longrightarrow> m' x = m x)"

lemma only_links_refl [simp]: "only_links m m L"
  by (simp add: only_links_def)

lemma only_links_put: "only_links m m' L \<Longrightarrow> b \<in> L \<Longrightarrow> b + 8 \<le> a \<Longrightarrow> a + 4 \<le> b + 16 \<Longrightarrow> only_links m (put32 m' a v) L"
  by (fastforce simp: only_links_def intro!: trans [OF put32_other])

lemma tagged_links:
  assumes "only_links m m' L" and "tiles a B e" and "L \<subseteq> {c. \<exists>s k. (c, s, k) \<in> set B}" and "y \<in> set B"
  shows "tagged m' y = tagged m y"
proof -
  obtain c s k where y: "y = (c, s, k)" by (cases y)
  have s: "32 \<le> s" using tiles_mem [OF assms(2)] assms(4) y by blast
  have "m' x = m x" if x: "c \<le> x \<and> x < c + 4 \<or> c + s - 8 \<le> x \<and> x < c + s - 4" for x
  proof -
    have "x < b + 8 \<or> b + 16 \<le> x" if b: "b \<in> L" for b
    proof -
      obtain t j where "(b, t, j) \<in> set B" using assms(3) b by auto
      with tiles_disjoint [OF assms(2) this assms(4) [unfolded y]] tiles_mem [OF assms(2)] have "32 \<le> t"
        "(b, t, j) = (c, s, k) \<or> c + s \<le> b \<or> b + t \<le> c" by blast+
      with x s show ?thesis by auto
    qed
    with assms(1) show ?thesis by (simp add: only_links_def)
  qed
  then have "load32 m' c = load32 m c" "load32 m' (c + s - 8) = load32 m (c + s - 8)"
    using s by (auto intro!: load32_cong)
  then show ?thesis by (simp add: y)
qed

lemma keeps_links:
  assumes "only_links (mem h) (mem h') L" and "tiles (g_heap_start h) B e" and "\<And>b. b \<in> L \<Longrightarrow> \<exists>s k. (b, s, k) \<in> set B \<and> k \<noteq> Used"
    and "g_heap_start h' = g_heap_start h"
  shows "keeps h h' B"
proof -
  have "mem h' x = mem h x" if c: "(c, s, Used) \<in> set B" "c + 8 \<le> x" "x < c + s - 8" for c s x
  proof -
    have "x < b + 8 \<or> b + 16 \<le> x" if l: "b \<in> L" for b
    proof -
      obtain t k where b: "(b, t, k) \<in> set B" "k \<noteq> Used" using assms(3) [OF l] by blast
      then show ?thesis using tiles_disjoint [OF assms(2) b(1) c(1)] tiles_mem [OF assms(2) b(1)] c(2,3) by auto
    qed
    with assms(1) show ?thesis by (simp add: only_links_def)
  qed
  moreover have "mem h' x = mem h x" if x: "x < g_heap_start h" for x
  proof -
    have "x < b + 8" if l: "b \<in> L" for b
    proof -
      obtain t k where "(b, t, k) \<in> set B" using assms(3) [OF l] by blast
      then show ?thesis using tiles_mem [OF assms(2), of b t k] x by simp
    qed
    with assms(1) show ?thesis by (simp add: only_links_def)
  qed
  ultimately show ?thesis using assms(4) by (simp add: keeps_def)
qed

lemma frees_apart: "tiles a B e \<Longrightarrow> apart (frees B)"
  unfolding apart_def frees_def
proof (intro ballI impI)
  fix b c assume t: "tiles a B e" and "b \<in> {c. \<exists>s. (c, s, Free) \<in> set B}" "c \<in> {c. \<exists>s. (c, s, Free) \<in> set B}" "b \<noteq> c"
  then obtain s s' where "(b, s, Free) \<in> set B" "(c, s', Free) \<in> set B" by auto
  with tiles_disjoint [OF t this] tiles_mem [OF t this(1)] tiles_mem [OF t this(2)] \<open>b \<noteq> c\<close>
  show "b + 16 \<le> c \<or> c + 16 \<le> b" by auto
qed

lemma apart_mono: "apart S \<Longrightarrow> T \<subseteq> S \<Longrightarrow> apart T"
  by (auto simp: apart_def)


section \<open>The free list\<close>

lemma frees_split: "tiles a (B1 @ (b, s, Free) # B2) e \<Longrightarrow> frees (B1 @ (b, s, Hole) # B2) = frees (B1 @ (b, s, Free) # B2) - {b}"
proof -
  assume t: "tiles a (B1 @ (b, s, Free) # B2) e"
  have "(b, s', Free) \<notin> set B1 \<union> set B2" for s'
    using tiles_others [OF t, of b s' Free] tiles_mem [OF t, of b s' Free] tiles_split(3) [OF t] by auto
  then show ?thesis by (auto simp: frees_def)
qed

text \<open>The blocks whose tags are not those of the block at \<open>b\<close>.\<close>

lemma tagged_rest:
  assumes "\<forall>x\<in>set (B1 @ (b, s, k) # B2). tagged m x" shows "\<forall>x\<in>set (B1 @ (b, s, Hole) # B2). tagged m x"
  using assms by auto

lemma heap_bounds:
  assumes "heap_ok h B fl" and "(c, s, k) \<in> set B"
  shows "0 < c" "8 \<le> c" "8 dvd c" "32 \<le> s" "8 dvd s" "c + s \<le> g_brk h" "g_brk h \<le> g_end h" "g_end h < 2 ^ 32"
    "dom (mem h) = {..<g_end h}" "g_heap_start h \<le> c"
proof -
  have "g_heap_start h \<le> c \<and> c + s \<le> g_brk h \<and> 32 \<le> s \<and> 8 dvd s \<and> 8 dvd c"
    using assms tiles_mem [of "g_heap_start h" B "g_brk h" c s k] by (simp add: heap_ok_def)
  moreover have "8 \<le> g_heap_start h" using assms(1) by (auto simp: heap_ok_def elim: dvdE)
  ultimately show "0 < c" "8 \<le> c" "8 dvd c" "32 \<le> s" "8 dvd s" "c + s \<le> g_brk h" "g_brk h \<le> g_end h" "g_end h < 2 ^ 32"
    "dom (mem h) = {..<g_end h}" "g_heap_start h \<le> c"
    using assms(1) by (auto simp: heap_ok_def)
qed

lemma free_block: "heap_ok h B fl \<Longrightarrow> b \<in> set fl \<Longrightarrow> \<exists>s. (b, s, Free) \<in> set B"
  by (auto simp: heap_ok_def frees_def)

lemma fl_remove_mem:
  assumes ok: "heap_ok h B (xs @ b # ys)"
  shows "\<exists>h'. fl_remove h b = Some h' \<and> dll (mem h') 0 (xs @ ys) 0 \<and> only_links (mem h) (mem h') (set (xs @ b # ys))
     \<and> dom (mem h') = dom (mem h) \<and> g_free h' = link (xs @ ys) 0
     \<and> h' = h\<lparr>mem := mem h', g_free := g_free h'\<rparr>"
proof -
  let ?p = "link (rev xs) 0" and ?x = "link ys 0" and ?S = "xs @ b # ys" and ?E = "g_end h"
  have d: "dll (mem h) 0 (xs @ b # ys) 0" "distinct ?S" "dom (mem h) = {..<?E}" "?E < 2 ^ 32" "g_free h = link ?S 0" "apart (set ?S)"
    using ok frees_apart [of "g_heap_start h" B "g_brk h"] by (simp_all add: heap_ok_def)
  have lim: "8 \<le> c \<and> c + 32 \<le> ?E" if c: "c \<in> set ?S" for c
  proof -
    obtain s where "(c, s, Free) \<in> set B" using free_block [OF ok c] by blast
    from heap_bounds [OF ok this] show ?thesis by linarith
  qed
  have b: "b + 32 \<le> ?E" using lim [of b] by simp
  have seg: "dll (mem h) 0 xs (b + 8)" "load32 (mem h) (b + 8) = Some ?x" "load32 (mem h) (b + 12) = Some ?p" "dll (mem h) (b + 8) ys 0"
    using d(1) by (auto simp: dll_append)
  have p: "?p = (if xs = [] then 0 else last xs + 8)" by (cases xs rule: rev_cases) auto
  have x: "?x = (if ys = [] then 0 else hd ys + 8)" by simp
  have ends: "xs \<noteq> [] \<Longrightarrow> last xs \<in> set ?S" "ys \<noteq> [] \<Longrightarrow> hd ys \<in> set ?S" by auto
  have small: "?x < 2 ^ 32" "?p < 2 ^ 32" using p x lim [OF ends(1)] lim [OF ends(2)] d(4) by (auto split: if_splits)
  define m1 where "m1 = (if xs = [] then mem h else put32 (mem h) (last xs + 8) ?x)"
  define h1 where "h1 = (if xs = [] then h\<lparr>g_free := ?x\<rparr> else h\<lparr>mem := m1\<rparr>)"
  define m2 where "m2 = (if ys = [] then m1 else put32 m1 (hd ys + 12) ?p)"
  have step1: "(if ?p \<noteq> 0 then store_at h (next_at ?p) ?x else Some (h\<lparr>g_free := ?x\<rparr>)) = Some h1"
    using lim [OF ends(1)] p d(3) by (auto simp: h1_def m1_def next_at_def store_at_ok)
  have m1: "dom m1 = {..<?E}" using d(3) dom_put32 [OF d(3), of "last xs + 8" ?x] lim [OF ends(1)] by (cases "xs = []") (simp_all add: m1_def)
  have same1: "load32 m1 (c + 8) = load32 (mem h) (c + 8) \<and> load32 m1 (c + 12) = load32 (mem h) (c + 12)"
    if c: "c \<in> set (b # ys)" for c
  proof (cases "xs = []")
    case False
    then have "last xs \<in> set xs" by simp
    then have "last xs \<noteq> c" using c d(2) by auto
    with c have "last xs + 16 \<le> c \<or> c + 16 \<le> last xs" by (intro apartD [OF d(6) ends(1) [OF False]]) auto
    then show ?thesis using False by (auto simp: m1_def intro!: load32_put_other)
  qed (simp add: m1_def)
  have xs1: "dll m1 0 xs ?x"
  proof (cases xs rule: rev_cases)
    case (snoc zs z)
    have "dll (put32 (mem h) (z + 8) ?x) 0 (zs @ [z]) ?x"
      using seg(1) d(2) small(1) snoc apart_mono [OF d(6), of "set xs"] by (intro dll_set_next [of _ _ _ _ "b + 8"]) auto
    with snoc show ?thesis by (simp add: m1_def)
  qed simp
  have ys1: "dll m1 (b + 8) ys 0" using dll_frame [of ys m1 "mem h"] same1 seg(4) by simp
  have m2: "dom m2 = {..<?E}" using m1 dom_put32 [OF m1, of "hd ys + 12" ?p] lim [OF ends(2)] by (cases "ys = []") (simp_all add: m2_def)
  have xs2: "dll m2 0 xs ?x"
  proof (cases "ys = []")
    case False
    then have y: "hd ys \<in> set ys" by simp
    have "dll m2 0 xs ?x = dll m1 0 xs ?x"
    proof (rule dll_frame)
      fix c assume "c \<in> set xs"
      then have "hd ys \<noteq> c" "c \<in> set ?S" using y d(2) by auto
      then have "hd ys + 16 \<le> c \<or> c + 16 \<le> hd ys" by (intro apartD [OF d(6) ends(2) [OF False]]) auto
      then show "load32 m2 (c + 8) = load32 m1 (c + 8) \<and> load32 m2 (c + 12) = load32 m1 (c + 12)"
        using False by (auto simp: m2_def intro!: load32_put_other)
    qed
    with xs1 show ?thesis by simp
  qed (use xs1 in \<open>simp add: m2_def\<close>)
  have ys2: "dll m2 ?p ys 0"
  proof (cases ys)
    case (Cons z zs)
    have "dll (put32 m1 (z + 12) ?p) ?p (z # zs) 0"
      using ys1 d(2) small(2) Cons apart_mono [OF d(6), of "set ys"] by (intro dll_set_prev [of _ "b + 8"]) auto
    with Cons show ?thesis by (simp add: m2_def)
  qed simp
  have ats: "prev_at (b + 8) = b + 12" "next_at (b + 8) = b + 8" "w32 (b + HDR) = b + 8"
    using b d(4) by (simp_all add: prev_at_def next_at_def HDR_def)
  have l0: "load_at h (b + 8) = Some ?x" "load_at h (b + 12) = Some ?p" using seg(2,3) by (simp_all add: load_at_def)
  have l1: "load_at h1 (b + 8) = Some ?x" "load_at h1 (b + 12) = Some ?p"
    using same1 [of b] seg(2,3) by (auto simp: h1_def m1_def load_at_def)
  have "(if ?x \<noteq> 0 then store_at h1 (prev_at ?x) ?p else Some h1) = Some (h1\<lparr>mem := m2\<rparr>)"
  proof (cases "ys = []")
    case False
    have "prev_at ?x = hd ys + 12" using False lim [OF ends(2)] d(4) by (simp add: prev_at_def)
    moreover have "mem h1 = m1" by (simp add: h1_def m1_def)
    moreover have "store_at h1 (hd ys + 12) ?p = Some (h1\<lparr>mem := put32 (mem h1) (hd ys + 12) ?p\<rparr>)"
      using m1 lim [OF ends(2) [OF False]] \<open>mem h1 = m1\<close> by (intro store_at_ok [where E = ?E]) auto
    ultimately show ?thesis using False by (simp add: m2_def)
  qed (simp add: m2_def h1_def m1_def)
  then obtain r where r: "(if ?x \<noteq> 0 then store_at h1 (prev_at ?x) ?p else Some h1) = Some r" "h1\<lparr>mem := m2\<rparr> = r"
    by blast
  have "fl_remove h b = Some (h1\<lparr>mem := m2\<rparr>)"
    using step1 r(1) unfolding r(2) by (simp add: fl_remove_def ats l0 l1 Let_def del: link_id split del: if_split cong: if_cong)
  moreover have "only_links (mem h) m1 (set ?S)"
    using only_links_put [OF only_links_refl ends(1), of "last xs + 8" "mem h" ?x] by (auto simp: m1_def)
  then have "only_links (mem h) m2 (set ?S)"
    using only_links_put [OF _ ends(2), of "mem h" m1 "hd ys + 12" ?p] by (auto simp: m2_def)
  moreover have "dll m2 0 (xs @ ys) 0" using xs2 ys2 by (simp add: dll_append)
  moreover have "g_free h1 = link (xs @ ys) 0" using d(5) by (cases xs) (auto simp: h1_def)
  ultimately show ?thesis using m2 d(3) by (intro exI [of _ "h1\<lparr>mem := m2\<rparr>"]) (auto simp: h1_def)
qed

lemma fl_remove_ok:
  assumes ok: "heap_ok h (B1 @ (b, s, Free) # B2) fl"
  shows "\<exists>h' fl'. fl_remove h b = Some h' \<and> heap_ok h' (B1 @ (b, s, Hole) # B2) fl'
     \<and> keeps h h' (B1 @ (b, s, Free) # B2) \<and> load_at h' b = Some s \<and> g_brk h' = g_brk h \<and> g_end h' = g_end h"
proof -
  let ?B = "B1 @ (b, s, Free) # B2"
  have t: "tiles (g_heap_start h) ?B (g_brk h)" using ok by (simp add: heap_ok_def)
  have "b \<in> set fl" using ok by (auto simp: heap_ok_def frees_def)
  then obtain xs ys where fl: "fl = xs @ b # ys" by (meson split_list)
  from fl_remove_mem [OF ok [unfolded fl]] obtain h' where h': "fl_remove h b = Some h'" "dll (mem h') 0 (xs @ ys) 0"
      "only_links (mem h) (mem h') (set fl)" "dom (mem h') = dom (mem h)" "g_free h' = link (xs @ ys) 0"
      "h' = h\<lparr>mem := mem h', g_free := g_free h'\<rparr>" by (auto simp: fl)
  have same: "g_inited h' = g_inited h" "g_heap_start h' = g_heap_start h" "g_brk h' = g_brk h" "g_end h' = g_end h"
    using h'(6) by (metis Heap.select_convs Heap.update_convs Heap.surjective)+
  have sub: "set fl \<subseteq> {c. \<exists>s k. (c, s, k) \<in> set ?B}" using ok unfolding heap_ok_def frees_def by blast
  have tags: "\<forall>x\<in>set ?B. tagged (mem h') x"
    using tagged_links [OF h'(3) t sub] ok by (simp add: heap_ok_def del: tagged.simps)
  have "set (xs @ ys) = frees (B1 @ (b, s, Hole) # B2)" using frees_split [OF t] ok by (auto simp: heap_ok_def fl)
  then have "heap_ok h' (B1 @ (b, s, Hole) # B2) (xs @ ys)"
    using ok h'(2,4,5) same tagged_rest [OF tags] tiles_kind [OF t] by (auto simp: heap_ok_def fl simp del: tagged.simps)
  moreover have "keeps h h' ?B"
    using keeps_links [OF h'(3) t _ same(2)] free_block [OF ok] by blast
  moreover have "load_at h' b = Some s" using tags by (auto simp: load_at_def tag_of_def)
  ultimately show ?thesis using h'(1) same by blast
qed


section \<open>Marking a hole\<close>

definition outside :: "memory \<Rightarrow> memory \<Rightarrow> nat \<Rightarrow> nat \<Rightarrow> bool" where
  "outside m m' c s \<longleftrightarrow> (\<forall>x. x < c \<or> c + s \<le> x \<longrightarrow> m' x = m x)"

lemma load32_outside: "outside m m' c s \<Longrightarrow> a + 4 \<le> c \<or> c + s \<le> a \<Longrightarrow> load32 m' a = load32 m a"
  by (rule load32_cong) (auto simp: outside_def)

lemma tagged_outside:
  "outside m m' c s \<Longrightarrow> c' + s' \<le> c \<or> c + s \<le> c' \<Longrightarrow> 32 \<le> s' \<Longrightarrow> tagged m' (c', s', k) = tagged m (c', s', k)"
proof -
  assume o: "outside m m' c s" and a: "c' + s' \<le> c \<or> c + s \<le> c'" "32 \<le> s'"
  have "load32 m' c' = load32 m c'" by (rule load32_outside [OF o]) (use a in linarith)
  moreover have "load32 m' (c' + s' - 8) = load32 m (c' + s' - 8)" by (rule load32_outside [OF o]) (use a in linarith)
  ultimately show "tagged m' (c', s', k) = tagged m (c', s', k)" by simp
qed

definition tags_put :: "memory \<Rightarrow> nat \<Rightarrow> nat \<Rightarrow> kind \<Rightarrow> memory" where
  "tags_put m b s k = put32 (put32 m b (tag_of s k)) (b + s - 8) (tag_of s k)"

lemma tags_put_facts:
  assumes "32 \<le> s" and "b + s < 2 ^ 32" and "8 dvd s"
  shows "outside m (tags_put m b s k) b s" "tagged (tags_put m b s k) (b, s, k)"
proof -
  have "put32 (put32 m b v) (b + s - 8) v x = m x" if x: "x < b \<or> b + s \<le> x" for x v
  proof -
    have "put32 (put32 m b v) (b + s - 8) v x = put32 m b v x" by (rule put32_other) (use assms x in linarith)
    also have "\<dots> = m x" by (rule put32_other) (use assms x in linarith)
    finally show ?thesis .
  qed
  then show "outside m (tags_put m b s k) b s" by (auto simp: outside_def tags_put_def)
  have "s < 4294967296" "8 dvd s" using assms(2,3) by simp_all
  then have "s + 1 < 4294967296" by presburger
  then have "tag_of s k < 2 ^ 32" by (simp add: tag_of_def)
  moreover have "load32 (put32 (put32 m b v) (b + s - 8) v) b = load32 (put32 m b v) b" for v
    by (rule load32_put_other) (use assms(1) in linarith)
  ultimately show "tagged (tags_put m b s k) (b, s, k)"
    by (simp add: tags_put_def load32_put_same)
qed

lemma dom_tags_put: "dom m = {..<E} \<Longrightarrow> b + s \<le> E \<Longrightarrow> 32 \<le> s \<Longrightarrow> dom (tags_put m b s k) = {..<E}"
  unfolding tags_put_def by (intro dom_put32) simp_all

lemma blk_set_mem:
  assumes d: "dom (mem h) = {..<E}" and "b + s \<le> E" and "E < 2 ^ 32" and "32 \<le> s" and "8 dvd s"
  shows "blk_set h b s u = Some (h\<lparr>mem := tags_put (mem h) b s (if u then Used else Free)\<rparr>)"
proof -
  have "even s" using assms(5) by auto
  then have v: "(if u then if even s then s + 1 else s else s) = tag_of s (if u then Used else Free)" (is "_ = ?v")
    by (simp add: tag_of_def)
  have a: "sub32 (w32 (b + s)) FTR = b + s - 8" using assms by (simp add: FTR_def)
  have "store_at h b ?v = Some (h\<lparr>mem := put32 (mem h) b ?v\<rparr>)" using assms by (intro store_at_ok [OF d]) simp
  moreover have "store_at (h\<lparr>mem := put32 (mem h) b ?v\<rparr>) (b + s - 8) ?v
      = Some (h\<lparr>mem := put32 (mem h) b ?v\<rparr>\<lparr>mem := put32 (mem (h\<lparr>mem := put32 (mem h) b ?v\<rparr>)) (b + s - 8) ?v\<rparr>)"
    using assms dom_put32 [OF d, of b ?v] by (intro store_at_ok [where E = E]) auto
  ultimately show ?thesis by (simp add: blk_set_def v a tags_put_def Let_def)
qed

lemma frees_hole:
  assumes "tiles a (B1 @ (b, s, Hole) # B2) e"
  shows "frees (B1 @ (b, s, Free) # B2) = insert b (frees (B1 @ (b, s, Hole) # B2))"
    "frees (B1 @ (b, s, Used) # B2) = frees (B1 @ (b, s, Hole) # B2)" "b \<notin> frees (B1 @ (b, s, Hole) # B2)"
  using frees_split [OF tiles_kind [OF assms]] by (auto simp: frees_def)

text \<open>What writing inside a hole leaves.\<close>

lemma inside_hole:
  assumes ok: "heap_ok h (B1 @ (b, s, Hole) # B2) fl" and o: "outside (mem h) m b s"
  shows "\<forall>y\<in>set B1 \<union> set B2. tagged m y" "dll m 0 fl 0" "b \<notin> set fl"
    "keeps h (h\<lparr>mem := m\<rparr>) (B1 @ (b, s, k) # B2) \<or> k = Used"
proof -
  let ?B = "B1 @ (b, s, Hole) # B2"
  have t: "tiles (g_heap_start h) ?B (g_brk h)" and tags: "\<forall>y\<in>set ?B. tagged (mem h) y"
    and dl: "dll (mem h) 0 fl 0" and fl: "set fl = frees ?B"
    using ok by (simp_all add: heap_ok_def)
  have away: "c' + s' \<le> b \<or> b + s \<le> c'" "32 \<le> s'" if "(c', s', k') \<in> set B1 \<union> set B2" for c' s' k'
    using tiles_others [OF t that] tiles_mem [OF t, of c' s' k'] that by auto
  show "\<forall>y\<in>set B1 \<union> set B2. tagged m y"
  proof
    fix y assume y: "y \<in> set B1 \<union> set B2"
    obtain c' s' k' where "y = (c', s', k')" by (cases y)
    then show "tagged m y" using tagged_outside [OF o away, of c' s' k'] y tags by (auto simp del: tagged.simps)
  qed
  show "b \<notin> set fl" using frees_hole(3) [OF t] fl by simp
  show "dll m 0 fl 0"
  proof (rule iffD2 [OF dll_frame dl])
    fix c assume "c \<in> set fl"
    then obtain s' where "(c, s', Free) \<in> set B1 \<union> set B2" using fl by (auto simp: frees_def)
    from away [OF this] show "load32 m (c + 8) = load32 (mem h) (c + 8) \<and> load32 m (c + 12) = load32 (mem h) (c + 12)"
      by (intro conjI load32_outside [OF o]) auto
  qed
  have "m x = mem h x" if "(c, s', Used) \<in> set B1 \<union> set B2" "c + 8 \<le> x" "x < c + s' - 8" for c s' x
    using away [OF that(1)] that(2,3) o by (auto simp: outside_def)
  moreover have "m x = mem h x" if "x < g_heap_start h" for x
    using heap_bounds(10) [OF ok, of b s Hole] that o by (auto simp: outside_def)
  ultimately show "keeps h (h\<lparr>mem := m\<rparr>) (B1 @ (b, s, k) # B2) \<or> k = Used" by (auto simp: keeps_def)
qed

lemma set_used_ok:
  assumes ok: "heap_ok h (B1 @ (b, s, Hole) # B2) fl"
  shows "\<exists>h'. blk_set h b s True = Some h' \<and> heap_ok h' (B1 @ (b, s, Used) # B2) fl
     \<and> keeps h h' (B1 @ (b, s, Hole) # B2) \<and> g_brk h' = g_brk h \<and> g_end h' = g_end h"
proof -
  note b = heap_bounds [OF ok, of b s Hole, simplified]
  let ?m = "tags_put (mem h) b s Used"
  have t: "tiles (g_heap_start h) (B1 @ (b, s, Hole) # B2) (g_brk h)" using ok by (simp add: heap_ok_def)
  have f: "outside (mem h) ?m b s" "tagged ?m (b, s, Used)" "dom ?m = {..<g_end h}"
    using tags_put_facts [of s b "mem h" Used] dom_tags_put [of "mem h" "g_end h" b s Used] b by (simp_all del: tagged.simps)
  have "heap_ok (h\<lparr>mem := ?m\<rparr>) (B1 @ (b, s, Used) # B2) fl"
    using ok inside_hole(1,2) [OF ok f(1)] f(2,3) tiles_kind [OF t] frees_hole(2) [OF t]
    by (auto simp: heap_ok_def simp del: tagged.simps)
  moreover have "blk_set h b s True = Some (h\<lparr>mem := ?m\<rparr>)" using blk_set_mem [of h "g_end h" b s True] b by auto
  ultimately show ?thesis using inside_hole(4) [OF ok f(1), of Hole] by auto
qed

lemma fl_insert_mem:
  assumes d: "dom (mem h) = {..<E}" and e: "E < 2 ^ 32" and b: "b + 32 \<le> E"
    and fl: "\<forall>c\<in>set fl. c + 32 \<le> E" and dl: "dll (mem h) 0 fl 0" and g: "g_free h = link fl 0"
    and ap: "apart (insert b (set fl))" and di: "distinct (b # fl)"
  shows "\<exists>m. fl_insert h b = Some (h\<lparr>mem := m, g_free := b + 8\<rparr>) \<and> dll m 0 (b # fl) 0
    \<and> only_links (mem h) m (insert b (set fl)) \<and> dom m = {..<E}"
proof -
  define m2 where "m2 = put32 (put32 (mem h) (b + 12) 0) (b + 8) (g_free h)"
  define m3 where "m3 = (if fl = [] then m2 else put32 m2 (hd fl + 12) (b + 8))"
  have ats: "prev_at (b + 8) = b + 12" "next_at (b + 8) = b + 8" "w32 (b + HDR) = b + 8"
    using b e by (simp_all add: prev_at_def next_at_def HDR_def)
  have small: "g_free h < 2 ^ 32" using g fl e by (cases fl) auto
  have d1: "dom (put32 (mem h) (b + 12) 0) = {..<E}" using d b by (intro dom_put32) auto
  then have d2: "dom m2 = {..<E}" unfolding m2_def using b by (intro dom_put32 [OF d1]) simp
  have d3: "dom m3 = {..<E}" using d2 dom_put32 [OF d2, of "hd fl + 12"] bspec [OF fl hd_in_set] by (cases "fl = []") (simp_all add: m3_def)
  have s1: "store_at h (b + 12) 0 = Some (h\<lparr>mem := put32 (mem h) (b + 12) 0\<rparr>)"
    using b by (intro store_at_ok [OF d]) simp
  have "store_at (h\<lparr>mem := put32 (mem h) (b + 12) 0\<rparr>) (b + 8) (g_free h)
     = Some (h\<lparr>mem := put32 (mem h) (b + 12) 0\<rparr>\<lparr>mem := put32 (mem (h\<lparr>mem := put32 (mem h) (b + 12) 0\<rparr>)) (b + 8) (g_free h)\<rparr>)"
    using d1 b by (intro store_at_ok [where E = E]) simp_all
  then have s2: "store_at (h\<lparr>mem := put32 (mem h) (b + 12) 0\<rparr>) (b + 8) (g_free h) = Some (h\<lparr>mem := m2\<rparr>)"
    by (simp add: m2_def)
  have s3: "(if g_free h \<noteq> 0 then store_at (h\<lparr>mem := m2\<rparr>) (prev_at (g_free h)) (b + 8) else Some (h\<lparr>mem := m2\<rparr>)) = Some (h\<lparr>mem := m3\<rparr>)"
  proof (cases "fl = []")
    case False
    then have hd: "hd fl + 32 \<le> E" using fl by simp
    have "store_at (h\<lparr>mem := m2\<rparr>) (hd fl + 12) (b + 8)
        = Some (h\<lparr>mem := m2\<rparr>\<lparr>mem := put32 (mem (h\<lparr>mem := m2\<rparr>)) (hd fl + 12) (b + 8)\<rparr>)"
      using d2 hd by (intro store_at_ok [where E = E]) simp_all
    moreover have "prev_at (g_free h) = hd fl + 12" using False g hd e by (simp add: prev_at_def)
    ultimately show ?thesis using False g by (simp add: m3_def)
  qed (simp add: m3_def g)
  have "fl_insert h b = Some (h\<lparr>mem := m3\<rparr>\<lparr>g_free := b + 8\<rparr>)"
    using s3 by (simp add: fl_insert_def ats s1 s2 Let_def split del: if_split cong: if_cong)
  moreover have "only_links (mem h) m2 (insert b (set fl))"
    unfolding m2_def by (intro only_links_put [where b = b] only_links_refl) auto
  then have "only_links (mem h) m3 (insert b (set fl))"
    using only_links_put [of "mem h" m2 "insert b (set fl)" "hd fl" "hd fl + 12" "b + 8"] by (auto simp: m3_def)
  moreover have "dll m3 0 (b # fl) 0"
  proof -
    have sep: "b + 16 \<le> c \<or> c + 16 \<le> b" if "c \<in> set fl" for c
      using apartD [OF ap, of b c] that di by auto
    have "dll m2 0 fl 0"
    proof (rule iffD2 [OF dll_frame dl])
      fix c assume "c \<in> set fl"
      with sep [OF this] show "load32 m2 (c + 8) = load32 (mem h) (c + 8) \<and> load32 m2 (c + 12) = load32 (mem h) (c + 12)"
        by (auto simp: m2_def load32_put_other)
    qed
    moreover have "load32 m2 (b + 8) = Some (g_free h)" "load32 m2 (b + 12) = Some 0"
      using small by (simp_all add: m2_def load32_put_same load32_put_other)
    moreover have "dll m3 (b + 8) fl 0 \<and> load32 m3 (b + 8) = load32 m2 (b + 8) \<and> load32 m3 (b + 12) = load32 m2 (b + 12)"
    proof (cases fl)
      case (Cons c cs)
      have "dll (put32 m2 (c + 12) (b + 8)) (b + 8) (c # cs) 0"
        using \<open>dll m2 0 fl 0\<close> di b e apart_mono [OF ap, of "set fl"] unfolding Cons by (intro dll_set_prev [of m2 0]) auto
      with sep [of c] show ?thesis by (auto simp: m3_def Cons load32_put_other)
    qed (simp add: m3_def)
    ultimately show ?thesis using g by simp
  qed
  ultimately show ?thesis using d3 by (intro exI [of _ m3]) simp
qed

lemma set_free_ok:
  assumes ok: "heap_ok h (B1 @ (b, s, Hole) # B2) fl"
  shows "\<exists>h1 h'. blk_set h b s False = Some h1 \<and> fl_insert h1 b = Some h' \<and> heap_ok h' (B1 @ (b, s, Free) # B2) (b # fl)
     \<and> keeps h h' (B1 @ (b, s, Hole) # B2) \<and> g_brk h' = g_brk h \<and> g_end h' = g_end h"
proof -
  let ?B = "B1 @ (b, s, Hole) # B2" and ?C = "B1 @ (b, s, Free) # B2" and ?E = "g_end h"
  note b = heap_bounds [OF ok, of b s Hole, simplified]
  define m1 where "m1 = tags_put (mem h) b s Free"
  define h1 where "h1 = h\<lparr>mem := m1\<rparr>"
  have t: "tiles (g_heap_start h) ?B (g_brk h)" using ok by (simp add: heap_ok_def)
  then have t': "tiles (g_heap_start h) ?C (g_brk h)" by (rule tiles_kind)
  have f: "outside (mem h) m1 b s" "tagged m1 (b, s, Free)" "dom m1 = {..<?E}"
    using tags_put_facts [of s b "mem h" Free] dom_tags_put [of "mem h" ?E b s Free] b by (simp_all add: m1_def del: tagged.simps)
  have i: "\<forall>y\<in>set B1 \<union> set B2. tagged m1 y" "dll m1 0 fl 0" "b \<notin> set fl" "keeps h h1 ?B"
    using inside_hole [OF ok f(1)] inside_hole(4) [OF ok f(1), of Hole] by (auto simp: h1_def)
  have fl: "set fl = frees ?B" "distinct fl" "g_free h = link fl 0" using ok by (simp_all add: heap_ok_def)
  then have S: "insert b (set fl) = frees ?C" using frees_hole(1) [OF t] by simp
  have "\<forall>c\<in>set fl. c + 32 \<le> ?E"
  proof
    fix c assume "c \<in> set fl"
    then obtain s' where "(c, s', Free) \<in> set ?B" using free_block [OF ok] by blast
    from heap_bounds [OF ok this] show "c + 32 \<le> ?E" by linarith
  qed
  moreover have "apart (insert b (set fl))" unfolding S by (rule frees_apart [OF t'])
  ultimately obtain m where m: "fl_insert h1 b = Some (h1\<lparr>mem := m, g_free := b + 8\<rparr>)" "dll m 0 (b # fl) 0"
      "only_links m1 m (insert b (set fl))" "dom m = {..<?E}"
    using fl_insert_mem [of h1 ?E b fl] f(3) i(2,3) b fl(2,3) by (auto simp: h1_def)
  define h' where "h' = h1\<lparr>mem := m, g_free := b + 8\<rparr>"
  have sub: "insert b (set fl) \<subseteq> {c. \<exists>s k. (c, s, k) \<in> set ?C}" unfolding S frees_def by blast
  have "\<forall>y\<in>set ?C. tagged m1 y" using i(1) f(2) by (auto simp del: tagged.simps)
  then have tags: "\<forall>y\<in>set ?C. tagged m y" using tagged_links [OF m(3) t' sub] by blast
  have "heap_ok h' ?C (b # fl)"
    using ok m(2,4) tags t' S fl i(3) by (auto simp: heap_ok_def h'_def h1_def simp del: tagged.simps)
  moreover have "keeps h1 h' ?C"
    using m(3) S t' by (intro keeps_links [where L = "insert b (set fl)" and B = ?C and e = "g_brk h"]) (auto simp: h'_def h1_def frees_def)
  then have "keeps h h' ?B" by (rule keeps_trans [OF i(4)]) auto
  moreover have "blk_set h b s False = Some h1" using blk_set_mem [of h ?E b s False] b by (auto simp: h1_def m1_def)
  ultimately show ?thesis using m(1) by (auto simp: h'_def h1_def)
qed

end
