(* ===== verification/Freestanding_Malloc.thy ===== *)
theory Freestanding_Malloc
  imports Freestanding_Heap
begin

text \<open>
  The operations of the allocator keep its invariant, end, and make no access outside the memory; what
  the client sees is an abstract heap of disjoint blocks that hold what it wrote.
\<close>

section \<open>Holes\<close>

lemma hole_split:
  assumes "32 \<le> s" and "32 \<le> s'" and "8 dvd s" and "8 dvd s'"
  shows "heap_ok h (B1 @ (b, s + s', Hole) # B2) fl \<longleftrightarrow> heap_ok h (B1 @ (b, s, Hole) # (b + s, s', Hole) # B2) fl"
  using assms by (auto simp: heap_ok_def tiles_append frees_def add.assoc simp del: tagged.simps) auto

lemma used_hole: "heap_ok h (B1 @ (b, s, Used) # B2) fl \<Longrightarrow> heap_ok h (B1 @ (b, s, Hole) # B2) fl"
  by (auto simp: heap_ok_def frees_def tiles_append simp del: tagged.simps) auto

lemma blk_size_tag:
  assumes "heap_ok h B fl" and "(c, s, k) \<in> set B" and "k \<noteq> Hole"
  shows "load_at h c = Some (tag_of s k)" "load_at h (c + s - 8) = Some (tag_of s k)"
    "blk_size h c = Some s" "blk_used h c = Some (k = Used)"
proof -
  have "tagged (mem h) (c, s, k)" using assms by (auto simp: heap_ok_def simp del: tagged.simps)
  then show t: "load_at h c = Some (tag_of s k)" "load_at h (c + s - 8) = Some (tag_of s k)"
    using assms(3) by (auto simp: load_at_def)
  obtain q where "s = 8 * q" using heap_bounds(5) [OF assms(1,2)] by (elim dvdE)
  then show "blk_size h c = Some s" "blk_used h c = Some (k = Used)"
    using t(1) by (auto simp: blk_size_def blk_used_def tag_of_def tag_size_def tag_used_def)
qed

section \<open>First fit\<close>

lemma first_fit_ok:
  assumes ok: "heap_ok h B (ys @ xs)"
  shows "\<exists>n. first_fit h tot (link xs 0) = Some n
     \<and> (if n = 0 then \<forall>b s. b \<in> set xs \<longrightarrow> (b, s, Free) \<in> set B \<longrightarrow> s < tot
        else \<exists>b s. n = b + 8 \<and> (b, s, Free) \<in> set B \<and> tot \<le> s)"
  using ok
proof (induction xs arbitrary: ys)
  case Nil
  then show ?case by (simp add: first_fit.simps)
next
  case (Cons b xs)
  obtain s where b: "(b, s, Free) \<in> set B" using free_block [OF Cons.prems] by auto
  note bb = heap_bounds [OF Cons.prems b]
  have sz: "blk_size h (sub32 (b + 8) HDR) = Some s"
    using blk_size_tag(3) [OF Cons.prems b] bb by (simp add: HDR_def)
  have uniq: "s' = s" if "(b, s', Free) \<in> set B" for s'
    using tiles_same_start [of "g_heap_start h" B "g_brk h"] that b Cons.prems by (auto simp: heap_ok_def)
  show ?case
  proof (cases "tot \<le> s")
    case True
    then show ?thesis using sz b by (auto simp: first_fit.simps)
  next
    case False
    have "load_at h (next_at (b + 8)) = Some (link xs 0)"
      using Cons.prems by (auto simp: heap_ok_def dll_append load_at_def next_at_def)
    then have "first_fit h tot (link (b # xs) 0) = first_fit h tot (link xs 0)"
      using False sz by (subst first_fit.simps) simp
    moreover have "heap_ok h B ((ys @ [b]) @ xs)" using Cons.prems by simp
    ultimately obtain n where n: "first_fit h tot (link (b # xs) 0) = Some n"
        "if n = 0 then \<forall>b s. b \<in> set xs \<longrightarrow> (b, s, Free) \<in> set B \<longrightarrow> s < tot
          else \<exists>b s. n = b + 8 \<and> (b, s, Free) \<in> set B \<and> tot \<le> s"
      using Cons.IH [of "ys @ [b]"] by auto
    show ?thesis
    proof (cases "n = 0")
      case True
      then show ?thesis using n False uniq by (intro exI [of _ n]) auto
    next
      case nz: False
      then show ?thesis using n by (intro exI [of _ n]) simp
    qed
  qed
qed

lemma take_block_ok:
  assumes ok: "heap_ok h (B1 @ (b, s, Free) # B2) fl" and tot: "tot \<le> s" "32 \<le> tot" "8 dvd tot"
  shows "\<exists>h' s' R fl'. take_block h b tot = Some (b + 8, h') \<and> heap_ok h' (B1 @ (b, s', Used) # R @ B2) fl'
     \<and> tot \<le> s' \<and> (R = [] \<or> (\<exists>c r. R = [(c, r, Free)])) \<and> keeps h h' (B1 @ (b, s, Free) # B2) \<and> g_brk h' = g_brk h \<and> g_end h' = g_end h"
proof -
  note bb = heap_bounds [OF ok, of b s Free, simplified]
  obtain h1 fl1 where h1: "fl_remove h b = Some h1" "heap_ok h1 (B1 @ (b, s, Hole) # B2) fl1"
      "keeps h h1 (B1 @ (b, s, Free) # B2)" "g_brk h1 = g_brk h" "g_end h1 = g_end h"
    using fl_remove_ok [OF ok] by blast
  have sz: "blk_size h b = Some s" using blk_size_tag(3) [OF ok, of b s Free] by simp
  have rem: "sub32 s tot = s - tot" "w32 (b + HDR) = b + 8" "w32 (b + tot) = b + tot"
    using bb tot by (simp_all add: HDR_def)
  have m32: "HDR + MIN_PAYLOAD + FTR = 32" by (simp add: HDR_def MIN_PAYLOAD_def FTR_def)
  show ?thesis
  proof (cases "32 \<le> s - tot")
    case True
    have "heap_ok h1 (B1 @ (b, tot, Hole) # (b + tot, s - tot, Hole) # B2) fl1"
      using h1(2) hole_split [of tot "s - tot" h1 B1 b B2 fl1] True tot bb(5) by simp
    from set_used_ok [OF this] obtain h2 where h2: "blk_set h1 b tot True = Some h2"
        "heap_ok h2 ((B1 @ [(b, tot, Used)]) @ (b + tot, s - tot, Hole) # B2) fl1"
        "keeps h1 h2 (B1 @ (b, tot, Hole) # (b + tot, s - tot, Hole) # B2)" "g_brk h2 = g_brk h1" "g_end h2 = g_end h1" by auto
    from set_free_ok [OF h2(2)] obtain h3 h4 where h4: "blk_set h2 (b + tot) (s - tot) False = Some h3" "fl_insert h3 (b + tot) = Some h4"
        "heap_ok h4 ((B1 @ [(b, tot, Used)]) @ (b + tot, s - tot, Free) # B2) ((b + tot) # fl1)"
        "keeps h2 h4 ((B1 @ [(b, tot, Used)]) @ (b + tot, s - tot, Hole) # B2)" "g_brk h4 = g_brk h2" "g_end h4 = g_end h2" by auto
    have "keeps h h2 (B1 @ (b, s, Free) # B2)" by (rule keeps_trans [OF h1(3) h2(3)]) auto
    then have "keeps h h4 (B1 @ (b, s, Free) # B2)" by (rule keeps_trans [OF _ h4(4)]) auto
    moreover have "take_block h b tot = Some (b + 8, h4)"
      using True sz h1(1) h2(1) h4(1,2) by (simp add: take_block_def rem m32)
    ultimately show ?thesis using h4(3,5,6) h1(4,5) h2(4,5)
      by (intro exI [of _ h4] exI [of _ tot] exI [of _ "[(b + tot, s - tot, Free)]"] exI [of _ "(b + tot) # fl1"]) simp
  next
    case False
    from set_used_ok [OF h1(2)] obtain h2 where h2: "blk_set h1 b s True = Some h2" "heap_ok h2 (B1 @ (b, s, Used) # B2) fl1"
        "keeps h1 h2 (B1 @ (b, s, Hole) # B2)" "g_brk h2 = g_brk h1" "g_end h2 = g_end h1" by auto
    have "keeps h h2 (B1 @ (b, s, Free) # B2)" by (rule keeps_trans [OF h1(3) h2(3)]) auto
    moreover have "take_block h b tot = Some (b + 8, h2)"
      using False sz h1(1) h2(1) by (simp add: take_block_def rem m32)
    ultimately show ?thesis using h2(2,4,5) h1(4,5) tot(1)
      by (intro exI [of _ h2] exI [of _ s] exI [of _ "[]"] exI [of _ fl1]) simp
  qed
qed

section \<open>Extending the heap\<close>

lemma heap_extend_ok:
  assumes ok: "heap_ok h B fl" and tot: "32 \<le> tot" "8 dvd tot" "g_brk h + tot + PAGE \<le> 2 ^ 32"
  shows "heap_extend H h tot = (0, h)
     \<or> (\<exists>h'. heap_extend H h tot = (g_brk h, h') \<and> heap_ok h' (B @ [(g_brk h, tot, Hole)]) fl \<and> keeps h h' B
          \<and> g_brk h' = g_brk h + tot \<and> 0 < g_brk h
          \<and> (g_end h' = g_end h \<or> (\<exists>n. can_grow H (g_end h div PAGE) n \<and> g_end h' = (g_end h div PAGE + n) * PAGE)))"
proof -
  have t: "tiles (g_heap_start h) B (g_brk h)" "8 dvd g_heap_start h" "0 < g_heap_start h" "g_brk h \<le> g_end h" "g_end h < 2 ^ 32"
      "PAGE dvd g_end h" "dom (mem h) = {..<g_end h}"
    using ok by (simp_all add: heap_ok_def)
  have brk: "0 < g_brk h" using tiles_le [OF t(1)] t(3) by simp
  have t': "tiles (g_heap_start h) (B @ [(g_brk h, tot, Hole)]) (g_brk h + tot)" using t(1) tot by (auto simp: tiles_append)
  have fr: "frees (B @ [(g_brk h, tot, Hole)]) = frees B" by (auto simp: frees_def)
  have w: "w32 (g_brk h + tot) = g_brk h + tot" using tot(3) by (simp add: PAGE_def)
  show ?thesis
  proof (cases "g_brk h + tot \<le> g_end h")
    case True
    have "heap_ok (h\<lparr>g_brk := g_brk h + tot\<rparr>) (B @ [(g_brk h, tot, Hole)]) fl"
      using ok True t' fr by (auto simp: heap_ok_def simp del: tagged.simps) simp
    moreover have "heap_extend H h tot = (g_brk h, h\<lparr>g_brk := g_brk h + tot\<rparr>)"
      using True w by (simp add: heap_extend_def)
    ultimately show ?thesis using brk by (auto simp: keeps_def)
  next
    case False
    define need where "need = g_brk h + tot - g_end h"
    define pages where "pages = (need + PAGE - 1) div PAGE"
    have need: "sub32 (w32 (g_brk h + tot)) (g_end h) = need" "w32 (need + PAGE - 1) div PAGE = pages"
      using False w tot(3) t(4) by (simp_all add: need_def pages_def PAGE_def)
    have pages: "need \<le> pages * PAGE" "pages * PAGE < need + PAGE"
      using div_mult_mod_eq [of "need + PAGE - 1" PAGE] mod_less_divisor [of PAGE "need + PAGE - 1"]
      by (simp_all add: pages_def PAGE_def)
    have e: "g_end h + pages * PAGE < 2 ^ 32" "g_brk h + tot \<le> g_end h + pages * PAGE"
      using pages tot(3) False by (simp_all add: need_def)
    show ?thesis
    proof (cases "can_grow H (g_end h div PAGE) pages")
      case grow: True
      define m where "m = (\<lambda>a. if g_end h \<le> a \<and> a < g_end h + pages * PAGE then Some 0 else mem h a)"
      define h' where "h' = h\<lparr>mem := m, g_end := g_end h + pages * PAGE, g_brk := g_brk h + tot\<rparr>"
      have o: "outside (mem h) m (g_end h) (pages * PAGE)" by (auto simp: outside_def m_def)
      have d: "dom m = {..<g_end h + pages * PAGE}" using t(7) by (auto simp: m_def dom_def set_eq_iff split: if_splits)
      have tags: "tagged m y = tagged (mem h) y" if y: "y \<in> set B" for y
      proof -
        obtain c s k where c: "y = (c, s, k)" by (cases y)
        with heap_bounds [OF ok, of c s k] y show ?thesis by (auto intro!: tagged_outside [OF o] simp del: tagged.simps)
      qed
      have "dll m 0 fl 0 = dll (mem h) 0 fl 0"
      proof (rule dll_frame)
        fix c assume "c \<in> set fl"
        then obtain s where "(c, s, Free) \<in> set B" using free_block [OF ok] by blast
        from heap_bounds [OF ok this]
        show "load32 m (c + 8) = load32 (mem h) (c + 8) \<and> load32 m (c + 12) = load32 (mem h) (c + 12)"
          by (intro conjI load32_outside [OF o]) linarith+
      qed
      moreover have "\<forall>y\<in>set (B @ [(g_brk h, tot, Hole)]). tagged m y" using tags ok by (auto simp: heap_ok_def simp del: tagged.simps) simp
      ultimately have "heap_ok h' (B @ [(g_brk h, tot, Hole)]) fl"
        using ok t' fr e d t(6) by (auto simp: heap_ok_def h'_def simp del: tagged.simps)
      note inv = this
      have "mem h' x = mem h x" if x: "(c, s, Used) \<in> set B" "x < c + s - 8" for c s x
        using heap_bounds(6,7) [OF ok x(1)] x(2) by (auto simp: h'_def m_def)
      moreover have "m x = mem h x" if "x < g_heap_start h" for x
        using that t(4) tiles_le [OF t(1)] by (auto simp: m_def)
      ultimately have "keeps h h' B" by (simp add: keeps_def h'_def)
      moreover have "heap_extend H h tot = (g_brk h, h')"
        using False grow e(1) need w by (simp add: heap_extend_def memory_grow_def h'_def m_def Let_def)
      moreover have "g_end h' = (g_end h div PAGE + pages) * PAGE" using t(6) by (auto simp: h'_def add_mult_distrib)
      ultimately show ?thesis using brk grow inv by (auto simp: h'_def)
    next
      case no: False
      then have "heap_extend H h tot = (0, h)" using False need w by (simp add: heap_extend_def memory_grow_def Let_def)
      then show ?thesis ..
    qed
  qed
qed


section \<open>Allocation and release\<close>

definition kinds :: "block list \<Rightarrow> kind list" where
  "kinds B = map (\<lambda>(c, s, k). k) B"

definition no_gap :: "kind \<Rightarrow> kind \<Rightarrow> bool" where
  "no_gap k k' \<longleftrightarrow> \<not> (k = Free \<and> k' = Free)"

text \<open>Between two calls there is no hole and there are no two neighbours that are free.\<close>

definition settled :: "block list \<Rightarrow> bool" where
  "settled B \<longleftrightarrow> Hole \<notin> set (kinds B) \<and> successively no_gap (kinds B)"

definition in_use :: "block list \<Rightarrow> (nat \<times> nat) set" where
  "in_use B = {(c, s). (c, s, Used) \<in> set B}"

lemma kinds_simps [simp]: "kinds [] = []" "kinds ((c, s, k) # B) = k # kinds B" "kinds (B @ C) = kinds B @ kinds C"
  "kinds B = [] \<longleftrightarrow> B = []"
  by (simp_all add: kinds_def)

lemma in_use_simps [simp]: "in_use [] = {}" "in_use ((c, s, k) # B) = (if k = Used then insert (c, s) (in_use B) else in_use B)"
  "in_use (B @ C) = in_use B \<union> in_use C"
  by (auto simp: in_use_def)

lemma no_gap_simps [simp]: "no_gap Used k" "no_gap k Used" "no_gap Hole k" "no_gap k Hole" "\<not> no_gap Free Free"
  by (auto simp: no_gap_def)

lemma settled_set_used: "settled (B1 @ (b, s, k) # B2) \<Longrightarrow> settled (B1 @ (b, s', Used) # B2)"
  by (auto simp: settled_def successively_append_iff successively_Cons)

lemma settled_set_free:
  "settled (B1 @ (b, s, Used) # B2) \<Longrightarrow> (B1 = [] \<or> last (kinds B1) \<noteq> Free) \<Longrightarrow> (B2 = [] \<or> hd (kinds B2) \<noteq> Free) \<Longrightarrow>
    settled (B1 @ (b, s', Free) # B2)"
  by (auto simp: settled_def successively_append_iff successively_Cons no_gap_def)

definition block_total :: "nat \<Rightarrow> nat" where
  "block_total n = 16 + max 16 (8 * ((max 1 n + 7) div 8))"

lemma block_total_facts: "32 \<le> block_total n" "8 dvd block_total n" "n + 16 \<le> block_total n" "block_total n \<le> n + 32"
  by (auto simp: block_total_def max_def)

lemma malloc_start:
  assumes "g_inited h" and "n + 32 < 2 ^ 32"
  shows "malloc H h n = do { p \<leftarrow> first_fit h (block_total n) (g_free h);
    if p \<noteq> 0 then take_block h (sub32 p HDR) (block_total n) else new_block H h (block_total n) }"
proof -
  let ?r = "if n = 0 then 1 else n"
  have "align_up ?r ALIGN = 8 * ((max 1 n + 7) div 8)"
    using assms(2) minus_mod_eq_mult_div [of "?r + 7" 8] by (auto simp: align_up_def ALIGN_def Let_def max_def add.commute)
  then have "w32 (HDR + (if align_up ?r ALIGN < MIN_PAYLOAD then MIN_PAYLOAD else align_up ?r ALIGN) + FTR) = block_total n"
    using block_total_facts(4) [of n] assms(2) by (auto simp: block_total_def HDR_def FTR_def MIN_PAYLOAD_def max_def)
  moreover have "\<not> ?r > 0xfffffff0" using assms(2) by simp
  ultimately show ?thesis using assms(1)
    unfolding malloc_def ensure_init_def Let_def by (simp only: if_True if_False)
qed

lemma malloc_ok:
  assumes ok: "heap_ok h B fl" and st: "settled B" and n: "g_brk h + n + 65568 \<le> 2 ^ 32"
  shows "\<exists>r h' B' fl'. malloc H h n = Some (r, h') \<and> heap_ok h' B' fl' \<and> settled B' \<and> keeps h h' B
     \<and> (r = 0 \<and> in_use B' = in_use B
        \<or> (\<exists>c s. r = c + 8 \<and> n + 16 \<le> s \<and> in_use B' = insert (c, s) (in_use B) \<and> c \<notin> fst ` in_use B))
     \<and> (g_end h' = g_end h \<or> (\<exists>k. can_grow H (g_end h div PAGE) k \<and> g_end h' = (g_end h div PAGE + k) * PAGE))
     \<and> ((\<exists>c s. (c, s, Free) \<in> set B \<and> block_total n \<le> s) \<longrightarrow> r \<noteq> 0)"
proof -
  let ?t = "block_total n"
  note tt = block_total_facts [of n]
  have t: "tiles (g_heap_start h) B (g_brk h)" "g_free h = link fl 0" "g_inited h" "set fl = frees B" using ok by (simp_all add: heap_ok_def)
  have start: "malloc H h n = do { p \<leftarrow> first_fit h ?t (g_free h);
      if p \<noteq> 0 then take_block h (sub32 p HDR) ?t else new_block H h ?t }"
    using n by (intro malloc_start [OF t(3)]) simp
  obtain p where p: "first_fit h ?t (g_free h) = Some p"
      "if p = 0 then \<forall>b s. b \<in> set fl \<longrightarrow> (b, s, Free) \<in> set B \<longrightarrow> s < ?t
       else \<exists>b s. p = b + 8 \<and> (b, s, Free) \<in> set B \<and> ?t \<le> s"
    using first_fit_ok [of h B "[]" fl ?t] ok t(2) by auto
  show ?thesis
  proof (cases "p = 0")
    case False
    then obtain b s where b: "p = b + 8" "(b, s, Free) \<in> set B" "?t \<le> s" using p(2) by auto
    then obtain B1 B2 where B: "B = B1 @ (b, s, Free) # B2" by (meson split_list)
    obtain h' s' R fl' where h': "take_block h b ?t = Some (b + 8, h')" "heap_ok h' (B1 @ (b, s', Used) # R @ B2) fl'" "?t \<le> s'"
        "R = [] \<or> (\<exists>c r. R = [(c, r, Free)])" "keeps h h' B" "g_end h' = g_end h"
      using take_block_ok [OF ok [unfolded B] b(3) tt(1,2)] B by blast
    have "malloc H h n = Some (b + 8, h')"
      using start p(1) False b(1) h'(1) heap_bounds [OF ok b(2)] by (simp add: HDR_def)
    moreover have "settled (B1 @ (b, s', Used) # R @ B2)"
      using st h'(4) unfolding B by (auto simp: settled_def successively_append_iff successively_Cons no_gap_def)
    moreover have "in_use (B1 @ (b, s', Used) # R @ B2) = insert (b, s') (in_use B)" using h'(4) by (auto simp: B)
    moreover have "b \<notin> fst ` in_use B"
      using tiles_same_start [OF t(1) b(2)] by (force simp: in_use_def)
    moreover have "n + 16 \<le> s'" "b + 8 \<noteq> 0" using h'(3) tt(3) by simp_all
    ultimately show ?thesis using h'(2,5,6)
      by (intro exI [of _ "b + 8"] exI [of _ h'] exI [of _ "B1 @ (b, s', Used) # R @ B2"] exI [of _ fl']) blast
  next
    case True
    then have none: "\<not> (\<exists>c s. (c, s, Free) \<in> set B \<and> ?t \<le> s)" using p(2) t(4) by (force simp: frees_def)
    have m: "malloc H h n = new_block H h ?t" using start p(1) True by simp
    have "g_brk h + ?t + PAGE \<le> 2 ^ 32" using n tt(4) by (simp add: PAGE_def)
    from heap_extend_ok [OF ok tt(1,2) this] consider "heap_extend H h ?t = (0, h)"
      | h1 where "heap_extend H h ?t = (g_brk h, h1)" "heap_ok h1 (B @ [(g_brk h, ?t, Hole)]) fl" "keeps h h1 B"
          "g_brk h1 = g_brk h + ?t" "0 < g_brk h"
          "g_end h1 = g_end h \<or> (\<exists>k. can_grow H (g_end h div PAGE) k \<and> g_end h1 = (g_end h div PAGE + k) * PAGE)" by blast
    then show ?thesis
    proof cases
      case 1
      then have "malloc H h n = Some (0, h)" by (simp add: m new_block_def)
      then show ?thesis using ok st none by (intro exI [of _ 0] exI [of _ h] exI [of _ B] exI [of _ fl]) simp
    next
      case (2 h1)
      let ?b = "g_brk h"
      have b: "?b + 8 < 2 ^ 32" using n by simp
      from set_used_ok [OF 2(2)] obtain h2 where h2: "blk_set h1 ?b ?t True = Some h2" "heap_ok h2 (B @ [(?b, ?t, Used)]) fl"
          "keeps h1 h2 (B @ [(?b, ?t, Hole)])" "g_end h2 = g_end h1" by auto
      have "keeps h h2 B" by (rule keeps_trans [OF 2(3) h2(3)]) auto
      moreover have "malloc H h n = Some (?b + 8, h2)" using 2(1,5) h2(1) b by (simp add: m new_block_def HDR_def)
      moreover have "settled (B @ [(?b, ?t, Used)])"
        using st by (auto simp: settled_def successively_append_iff)
      moreover have "?b \<notin> fst ` in_use B"
        using tiles_mem [OF t(1)] by (fastforce simp: in_use_def)
      ultimately show ?thesis using h2(2,4) 2(6) tt(3) none
        by (intro exI [of _ "?b + 8"] exI [of _ h2] exI [of _ "B @ [(?b, ?t, Used)]"] exI [of _ fl]) auto
    qed
  qed
qed

lemma join_next_ok:
  assumes ok: "heap_ok h (B1 @ (b, s, Hole) # B2) fl" and st: "Hole \<notin> set (kinds B2)"
  shows "\<exists>s' h' C fl'. join_next h b s = Some (s', h') \<and> heap_ok h' (B1 @ (b, s', Hole) # C) fl'
     \<and> keeps h h' (B1 @ (b, s, Hole) # B2) \<and> g_brk h' = g_brk h \<and> g_end h' = g_end h
     \<and> (C = B2 \<and> (B2 = [] \<or> hd (kinds B2) \<noteq> Free) \<or> (\<exists>x t. B2 = (x, t, Free) # C))"
proof -
  note bb = heap_bounds [OF ok, of b s Hole, simplified]
  have t: "tiles (b + s) B2 (g_brk h)" using ok tiles_split(2) by (auto simp: heap_ok_def)
  have w: "w32 (b + s) = b + s" using bb by simp
  show ?thesis
  proof (cases B2)
    case Nil
    then have "join_next h b s = Some (s, h)" using t w by (simp add: join_next_def)
    then show ?thesis using ok Nil by (intro exI [of _ s] exI [of _ h] exI [of _ "[]"] exI [of _ fl]) simp
  next
    case (Cons x C)
    then obtain t' k where x: "x = (b + s, t', k)" using t by (cases x) auto
    have ok': "heap_ok h ((B1 @ [(b, s, Hole)]) @ (b + s, t', k) # C) fl" using ok Cons x by simp
    have k: "k \<noteq> Hole" using st Cons x by auto
    note xb = heap_bounds [OF ok', of "b + s" t' k, simplified]
    have u: "blk_used h (b + s) = Some (k = Used)" using blk_size_tag(4) [OF ok', of "b + s" t' k] k by simp
    show ?thesis
    proof (cases "k = Used")
      case True
      then have "join_next h b s = Some (s, h)" using u w xb by (simp add: join_next_def)
      then show ?thesis using ok Cons x True by (intro exI [of _ s] exI [of _ h] exI [of _ B2] exI [of _ fl]) simp
    next
      case False
      with k have kf: "k = Free" by (cases k) auto
      from fl_remove_ok [OF ok' [unfolded kf]] obtain h1 fl1 where h1: "fl_remove h (b + s) = Some h1"
          "heap_ok h1 ((B1 @ [(b, s, Hole)]) @ (b + s, t', Hole) # C) fl1" "keeps h h1 ((B1 @ [(b, s, Hole)]) @ (b + s, t', Free) # C)"
          "load_at h1 (b + s) = Some t'" "g_brk h1 = g_brk h" "g_end h1 = g_end h" by blast
      have "blk_size h1 (b + s) = Some t'" using h1(4) xb(5) by (auto simp: blk_size_def tag_size_def)
      then have "join_next h b s = Some (s + t', h1)" using u w xb h1(1,5) kf by (simp add: join_next_def)
      moreover have "heap_ok h1 (B1 @ (b, s + t', Hole) # C) fl1"
        using h1(2) hole_split [of s t' h1 B1 b C fl1] bb xb by simp
      ultimately show ?thesis using h1(3,5,6) Cons x kf
        by (intro exI [of _ "s + t'"] exI [of _ h1] exI [of _ C] exI [of _ fl1]) simp
    qed
  qed
qed

lemma join_prev_ok:
  assumes ok: "heap_ok h (B1 @ (b, s, Hole) # B2) fl" and st: "Hole \<notin> set (kinds B1)"
  shows "\<exists>b' s' h' C fl'. join_prev h b s = Some (b', s', h') \<and> heap_ok h' (C @ (b', s', Hole) # B2) fl'
     \<and> keeps h h' (B1 @ (b, s, Hole) # B2) \<and> g_brk h' = g_brk h \<and> g_end h' = g_end h
     \<and> (C = B1 \<and> (B1 = [] \<or> last (kinds B1) \<noteq> Free) \<or> (\<exists>x t. B1 = C @ [(x, t, Free)]))"
proof -
  note bb = heap_bounds [OF ok, of b s Hole, simplified]
  have t: "tiles (g_heap_start h) B1 b" using ok tiles_split(1) by (auto simp: heap_ok_def)
  show ?thesis
  proof (cases B1 rule: rev_cases)
    case Nil
    then have "join_prev h b s = Some (b, s, h)" using t by (simp add: join_prev_def)
    then show ?thesis using ok Nil by (intro exI [of _ b] exI [of _ s] exI [of _ h] exI [of _ "[]"] exI [of _ fl]) simp
  next
    case (snoc C x)
    then obtain p t' k where x: "x = (p, t', k)" by (cases x)
    have p: "p + t' = b" using t snoc x by (auto simp: tiles_append)
    have ok': "heap_ok h (C @ (p, t', k) # (b, s, Hole) # B2) fl" using ok snoc x by simp
    have k: "k \<noteq> Hole" using st snoc x by auto
    note pb = heap_bounds [OF ok', of p t' k, simplified]
    have foot: "load_at h (sub32 b FTR) = Some (tag_of t' k)"
      using blk_size_tag(2) [OF ok', of p t' k] k p bb by (simp add: FTR_def)
    have hs: "g_heap_start h < b" using pb p by linarith
    obtain q where q: "t' = 8 * q" using pb(5) by (elim dvdE)
    then have tu: "tag_used (tag_of t' k) = (k = Used)" "tag_size (tag_of t' k) = t'"
      by (auto simp: tag_used_def tag_of_def tag_size_def)
    show ?thesis
    proof (cases "k = Used")
      case True
      then have "join_prev h b s = Some (b, s, h)" using foot hs tu by (simp add: join_prev_def)
      then show ?thesis using ok snoc x True by (intro exI [of _ b] exI [of _ s] exI [of _ h] exI [of _ B1] exI [of _ fl]) simp
    next
      case False
      with k have kf: "k = Free" by (cases k) auto
      from fl_remove_ok [OF ok' [unfolded kf]] obtain h1 fl1 where h1: "fl_remove h p = Some h1"
          "heap_ok h1 (C @ (p, t', Hole) # (b, s, Hole) # B2) fl1" "keeps h h1 (C @ (p, t', Free) # (b, s, Hole) # B2)"
          "g_brk h1 = g_brk h" "g_end h1 = g_end h" by blast
      have "sub32 b t' = p" using p bb by auto
      moreover have "w32 (s + t') = t' + s" using p bb by simp
      ultimately have "join_prev h b s = Some (p, t' + s, h1)" using foot hs tu h1(1) kf by (simp add: join_prev_def Let_def)
      moreover have "heap_ok h1 (C @ (p, t' + s, Hole) # B2) fl1"
        using h1(2) hole_split [of t' s h1 C p B2 fl1] bb pb p by simp
      ultimately show ?thesis using h1(3,4,5) snoc x kf
        by (intro exI [of _ p] exI [of _ "t' + s"] exI [of _ h1] exI [of _ C] exI [of _ fl1]) simp
    qed
  qed
qed

lemma free_ok:
  assumes ok: "heap_ok h B fl" and st: "settled B" and b: "(b, s, Used) \<in> set B"
  shows "\<exists>h' B' fl'. free h (b + 8) = Some h' \<and> heap_ok h' B' fl' \<and> settled B' \<and> in_use B' = in_use B - {(b, s)}
     \<and> g_heap_start h' = g_heap_start h \<and> g_brk h' = g_brk h \<and> g_end h' = g_end h
     \<and> (\<forall>x<g_heap_start h. mem h' x = mem h x)
     \<and> (\<forall>c t x. (c, t) \<in> in_use B' \<longrightarrow> c + 8 \<le> x \<longrightarrow> x < c + t - 8 \<longrightarrow> mem h' x = mem h x)"
proof -
  obtain B1 B2 where B: "B = B1 @ (b, s, Used) # B2" using b by (meson split_list)
  note bb = heap_bounds [OF ok b]
  have start: "sub32 (b + 8) HDR = b" "blk_size h b = Some s" using bb blk_size_tag(3) [OF ok b] by (auto simp: HDR_def)
  have holes: "Hole \<notin> set (kinds B1)" "Hole \<notin> set (kinds B2)" using st by (auto simp: settled_def B)
  have h0: "heap_ok h (B1 @ (b, s, Hole) # B2) fl" using used_hole ok B by blast
  from join_next_ok [OF h0 holes(2)] obtain s1 h1 C2 fl1 where 1: "join_next h b s = Some (s1, h1)"
      "heap_ok h1 (B1 @ (b, s1, Hole) # C2) fl1" "keeps h h1 (B1 @ (b, s, Hole) # B2)" "g_brk h1 = g_brk h" "g_end h1 = g_end h"
      "C2 = B2 \<and> (B2 = [] \<or> hd (kinds B2) \<noteq> Free) \<or> (\<exists>x t. B2 = (x, t, Free) # C2)" by blast
  from join_prev_ok [OF 1(2) holes(1)] obtain b2 s2 h2 C1 fl2 where 2: "join_prev h1 b s1 = Some (b2, s2, h2)"
      "heap_ok h2 (C1 @ (b2, s2, Hole) # C2) fl2" "keeps h1 h2 (B1 @ (b, s1, Hole) # C2)" "g_brk h2 = g_brk h1" "g_end h2 = g_end h1"
      "C1 = B1 \<and> (B1 = [] \<or> last (kinds B1) \<noteq> Free) \<or> (\<exists>x t. B1 = C1 @ [(x, t, Free)])" by blast
  from set_free_ok [OF 2(2)] obtain h3 h4 where 4: "blk_set h2 b2 s2 False = Some h3" "fl_insert h3 b2 = Some h4"
      "heap_ok h4 (C1 @ (b2, s2, Free) # C2) (b2 # fl2)" "keeps h2 h4 (C1 @ (b2, s2, Hole) # C2)" "g_brk h4 = g_brk h2" "g_end h4 = g_end h2"
    by blast
  have "settled (B1 @ (b, s, Used) # C2)" "C2 = [] \<or> hd (kinds C2) \<noteq> Free"
    using st 1(6) unfolding B by (cases C2; auto simp: settled_def successively_append_iff successively_Cons no_gap_def)+
  then have "settled (C1 @ (b, s, Used) # C2)" "C1 = [] \<or> last (kinds C1) \<noteq> Free"
    using 2(6) by (cases C1 rule: rev_cases; auto simp: settled_def successively_append_iff successively_Cons no_gap_def)+
  then have st': "settled (C1 @ (b2, s2, Free) # C2)"
    using \<open>C2 = [] \<or> hd (kinds C2) \<noteq> Free\<close> by (auto intro: settled_set_free [of C1 b s C2] simp: settled_def successively_append_iff successively_Cons no_gap_def)
  have "(b, s) \<notin> in_use B1 \<union> in_use B2"
    using tiles_others [of "g_heap_start h" B1 b s Used B2 "g_brk h" b s Used] ok bb by (auto simp: heap_ok_def B in_use_def)
  then have use: "in_use (C1 @ (b2, s2, Free) # C2) = in_use B - {(b, s)}" using 1(6) 2(6) by (auto simp: B)
  have k: "keeps h h2 (B1 @ (b, s, Hole) # B2)" by (rule keeps_trans [OF 1(3) 2(3)]) (use 1(6) in auto)
  have k: "keeps h h4 (B1 @ (b, s, Hole) # B2)" by (rule keeps_trans [OF k 4(4)]) (use 1(6) 2(6) in auto)
  have "free h (b + 8) = Some h4" using 1(1) 2(1) 4(1,2) start by (simp add: free_def)
  moreover have "(c, t, Used) \<in> set (B1 @ (b, s, Hole) # B2)" if "(c, t) \<in> in_use (C1 @ (b2, s2, Free) # C2)" for c t
    using that 1(6) 2(6) by (auto simp: in_use_def)
  then have "\<forall>c t x. (c, t) \<in> in_use (C1 @ (b2, s2, Free) # C2) \<longrightarrow> c + 8 \<le> x \<longrightarrow> x < c + t - 8 \<longrightarrow> mem h4 x = mem h x"
    using k unfolding keeps_def by blast
  moreover have "g_heap_start h4 = g_heap_start h" "\<forall>x<g_heap_start h. mem h4 x = mem h x"
    using k unfolding keeps_def by blast+
  moreover have "g_brk h4 = g_brk h" "g_end h4 = g_end h" using 4(5,6) 2(4,5) 1(4,5) by simp_all
  ultimately show ?thesis using 4(3) st' use by blast
qed

end
