(* ===== verification/Freestanding_Client.thy ===== *)
theory Freestanding_Client
  imports Freestanding_Malloc
begin

text \<open>
  The allocator (\<open>src/src/freestanding/alloc.c\<close>) as its client sees it: the calls, the writes of the client
  into its blocks, and the bytes it must find there again.
\<close>

section \<open>Calls\<close>

datatype call =
    Malloc nat
  | Calloc nat nat
  | Realloc nat nat
  | Release nat
  | Write nat nat byte

fun run_call :: "Host \<Rightarrow> call \<Rightarrow> Heap \<Rightarrow> (nat \<times> Heap) option" where
  "run_call H (Malloc n) h = malloc H h n"
| "run_call H (Calloc a b) h = calloc H h a b"
| "run_call H (Realloc p n) h = realloc H h p n"
| "run_call H (Release p) h = map_option (Pair 0) (free h p)"
| "run_call H (Write p i v) h = map_option (\<lambda>m. (0, h\<lparr>mem := m\<rparr>)) (store8 (mem h) (p + i) v)"

text \<open>
  The live blocks, by their pointers, with their contents. A call is valid if it releases, resizes and
  writes live blocks only.
\<close>

type_synonym live = "nat \<rightharpoonup> byte list"

fun valid :: "live \<Rightarrow> call \<Rightarrow> bool" where
  "valid A (Release p) \<longleftrightarrow> p = 0 \<or> A p \<noteq> None"
| "valid A (Realloc p n) \<longleftrightarrow> p = 0 \<or> A p \<noteq> None"
| "valid A (Write p i v) \<longleftrightarrow> (case A p of None \<Rightarrow> False | Some bs \<Rightarrow> i < length bs)"
| "valid A _ \<longleftrightarrow> True"

fun at_most :: "nat \<Rightarrow> call \<Rightarrow> bool" where
  "at_most R (Malloc n) \<longleftrightarrow> n \<le> R"
| "at_most R (Calloc a b) \<longleftrightarrow> a * b \<le> R \<or> 2 ^ 32 \<le> a * b"
| "at_most R (Realloc p n) \<longleftrightarrow> n \<le> R"
| "at_most R _ \<longleftrightarrow> True"

text \<open>
  What the client knows after a call with result \<open>r\<close>: a new block holds whatever the memory has there, except
  where \<open>calloc\<close> and \<open>realloc\<close> say what it holds.
\<close>

definition found :: "Heap \<Rightarrow> nat \<Rightarrow> nat \<Rightarrow> byte list" where
  "found h a n = map (\<lambda>i. the (mem h (a + i))) [0..<n]"

fun after :: "live \<Rightarrow> call \<Rightarrow> nat \<Rightarrow> Heap \<Rightarrow> live" where
  "after A (Malloc n) r h = (if r = 0 then A else A(r \<mapsto> found h r n))"
| "after A (Calloc a b) r h = (if r = 0 then A else A(r \<mapsto> replicate (a * b) 0))"
| "after A (Realloc p n) r h =
     (if p = 0 then (if r = 0 then A else A(r \<mapsto> found h r n))
      else if n = 0 then A(p := None)
      else if r = 0 then A
      else let bs = take n (the (A p)) in (A(p := None))(r \<mapsto> bs @ found h (r + length bs) (n - length bs)))"
| "after A (Release p) r h = A(p := None)"
| "after A (Write p i v) r h = A(p \<mapsto> (the (A p))[i := v])"

text \<open>The states a client reaches, from a memory \<open>m\<close> as the module is loaded.\<close>

definition boot :: "memory \<Rightarrow> Heap" where
  "boot m = \<lparr>mem = m, g_heap_start = 0, g_brk = 0, g_end = 0, g_free = 0, g_inited = False\<rparr>"

inductive client :: "Host \<Rightarrow> nat \<Rightarrow> memory \<Rightarrow> Heap \<Rightarrow> live \<Rightarrow> bool" for H R m where
  start: "client H R m (boot m) (\<lambda>p. None)"
| step: "client H R m h A \<Longrightarrow> valid A c \<Longrightarrow> at_most R c \<Longrightarrow> run_call H c h = Some (r, h') \<Longrightarrow>
    client H R m h' (after A c r h')"

text \<open>
  The host: the memory has at most \<open>L\<close> pages, and the largest request on top of them is within 32 bits.
\<close>

definition host_ok :: "Host \<Rightarrow> nat \<Rightarrow> nat \<Rightarrow> bool" where
  "host_ok H L R \<longleftrightarrow> 0 < heap_base H \<and> heap_base H \<le> start_pages H * PAGE \<and> start_pages H \<le> L
     \<and> (\<forall>n k. can_grow H n k \<longrightarrow> n + k \<le> L) \<and> L * PAGE + R + 65568 \<le> 2 ^ 32"

section \<open>The relation between the heap and the live blocks\<close>

definition holds :: "Heap \<Rightarrow> block list \<Rightarrow> live \<Rightarrow> bool" where
  "holds h B A \<longleftrightarrow>
     (\<forall>p bs. A p = Some bs \<longrightarrow> 8 \<le> p \<and> (\<exists>s. (p - 8, s) \<in> in_use B \<and> length bs + 16 \<le> s) \<and> bytes_in (mem h) p bs)
     \<and> (\<forall>c s. (c, s) \<in> in_use B \<longrightarrow> A (c + 8) \<noteq> None)"

definition heap_start :: "Host \<Rightarrow> nat" where
  "heap_start H = align_up (heap_base H) ALIGN"

definition represents :: "Host \<Rightarrow> nat \<Rightarrow> memory \<Rightarrow> Heap \<Rightarrow> block list \<Rightarrow> live \<Rightarrow> bool" where
  "represents H L m h B A \<longleftrightarrow> (\<exists>fl. heap_ok h B fl) \<and> settled B \<and> holds h B A \<and> g_heap_start h = heap_start H
     \<and> g_end h \<le> L * PAGE \<and> (\<forall>x<heap_base H. mem h x = m x)"

lemma heap_start_facts:
  assumes "host_ok H L R"
  shows "8 dvd heap_start H" "heap_base H \<le> heap_start H" "heap_start H \<le> start_pages H * PAGE" "w32 (start_pages H * PAGE) = start_pages H * PAGE"
    "start_pages H * PAGE \<le> L * PAGE" "L * PAGE < 2 ^ 32"
proof -
  have l: "start_pages H * PAGE \<le> L * PAGE" "L * PAGE < 2 ^ 32" using assms by (auto simp: host_ok_def)
  from l show "start_pages H * PAGE \<le> L * PAGE" "L * PAGE < 2 ^ 32" by simp_all
  show "w32 (start_pages H * PAGE) = start_pages H * PAGE" using l by (intro w32_id) linarith
  have "L * PAGE + 65568 \<le> 2 ^ 32" and b': "heap_base H \<le> start_pages H * PAGE" using assms by (auto simp: host_ok_def)
  then have b: "heap_base H \<le> start_pages H * PAGE" "heap_base H + 7 < 2 ^ 32" using l(1) by linarith+
  have a: "heap_start H = 8 * ((heap_base H + 7) div 8)"
    using b(2) minus_mod_eq_mult_div [of "heap_base H + 7" 8] by (simp add: heap_start_def align_up_def ALIGN_def Let_def add.commute)
  then show "8 dvd heap_start H" by simp
  show "heap_base H \<le> heap_start H" unfolding a by presburger
  have "8 dvd start_pages H * PAGE" by (simp add: PAGE_def)
  then obtain q where q: "start_pages H * PAGE = 8 * q" by (elim dvdE)
  then show "heap_start H \<le> start_pages H * PAGE" using b(1) unfolding a q by presburger
qed

lemma represents_init:
  assumes H: "host_ok H L R" and m: "dom m = {..<start_pages H * PAGE}"
  shows "represents H L m (ensure_init H (boot m)) [] (\<lambda>p. None)"
proof -
  note f = heap_start_facts [OF H]
  have "ensure_init H (boot m) = \<lparr>mem = m, g_heap_start = heap_start H, g_brk = heap_start H, g_end = start_pages H * PAGE,
      g_free = 0, g_inited = True\<rparr>" (is "_ = ?h")
    using f(4) by (simp add: ensure_init_def boot_def heap_start_def Let_def)
  moreover have "heap_ok ?h [] []" using f m H order.strict_trans1 [OF f(5,6)] by (simp add: heap_ok_def host_ok_def frees_def)
  then have "represents H L m ?h [] (\<lambda>p. None)"
    unfolding represents_def using f(5) by (auto simp: settled_def holds_def intro!: exI [of _ "[]"])
  ultimately show ?thesis by simp
qed

lemma malloc_init: "malloc H h n = malloc H (ensure_init H h) n"
proof -
  have "ensure_init H (ensure_init H h) = ensure_init H h" by (simp add: ensure_init_def Let_def)
  then show ?thesis by (simp add: malloc_def)
qed

lemma found_bytes: "room (mem h) a n \<Longrightarrow> bytes_in (mem h) a (found h a n) \<and> length (found h a n) = n"
  by (auto simp: found_def bytes_in_def room_def dom_def subset_eq)

lemma holds_block:
  assumes "holds h B A" and "A p = Some bs"
  obtains s where "(p - 8, s) \<in> in_use B" "length bs + 16 \<le> s" "8 \<le> p" "bytes_in (mem h) p bs"
  using assms unfolding holds_def by blast

lemma holds_bytes: "holds h B A \<Longrightarrow> A p = Some bs \<Longrightarrow> bytes_in (mem h) p bs"
  unfolding holds_def by blast

lemma in_use_room:
  assumes "heap_ok h B fl" and "(c, s) \<in> in_use B" and "n + 16 \<le> s"
  shows "room (mem h) (c + 8) n"
  using heap_bounds [OF assms(1), of c s Used] assms(2,3) by (auto simp: in_use_def room_def)

lemma in_use_disjoint:
  assumes "heap_ok h B fl" and "(c, s) \<in> in_use B" and "(c', s') \<in> in_use B"
  shows "(c, s) = (c', s') \<or> c' + s' \<le> c \<or> c + s \<le> c'"
  using tiles_disjoint [of "g_heap_start h" B "g_brk h" c s Used c' s' Used] assms by (auto simp: heap_ok_def in_use_def)

section \<open>Each call\<close>

lemma malloc_represents:
  assumes H: "host_ok H L R" and rep: "represents H L m h B A" and n: "n \<le> R"
  shows "\<exists>r h' B'. malloc H h n = Some (r, h') \<and> in_use B \<subseteq> in_use B' \<and> (r = 0 \<longrightarrow> represents H L m h' B' A)
     \<and> (r \<noteq> 0 \<longrightarrow> room (mem h') r n \<and> A r = None \<and> (\<forall>bs. length bs = n \<longrightarrow> bytes_in (mem h') r bs \<longrightarrow> represents H L m h' B' (A(r \<mapsto> bs))))"
proof -
  obtain fl where h: "heap_ok h B fl" "settled B" "holds h B A" "g_heap_start h = heap_start H" "g_end h \<le> L * PAGE"
      "\<forall>x<heap_base H. mem h x = m x" using rep by (auto simp: represents_def)
  have "g_brk h \<le> g_end h" using h(1) by (simp add: heap_ok_def)
  then have "g_brk h + n + 65568 \<le> 2 ^ 32" using h(5) H n by (simp add: host_ok_def)
  from malloc_ok [OF h(1,2) this, of H] obtain r h' B' fl' where r: "malloc H h n = Some (r, h')" "heap_ok h' B' fl'" "settled B'" "keeps h h' B"
      "r = 0 \<and> in_use B' = in_use B \<or> (\<exists>c s. r = c + 8 \<and> n + 16 \<le> s \<and> in_use B' = insert (c, s) (in_use B) \<and> c \<notin> fst ` in_use B)"
      "g_end h' = g_end h \<or> (\<exists>k. can_grow H (g_end h div PAGE) k \<and> g_end h' = (g_end h div PAGE + k) * PAGE)" by blast
  have e: "g_end h' \<le> L * PAGE" using r(6) h(5) H by (auto simp: host_ok_def)
  have low: "g_heap_start h' = heap_start H" "\<forall>x<heap_base H. mem h' x = m x"
    using r(4) h(4,6) heap_start_facts(2) [OF H] by (auto simp: keeps_def)
  have kept: "bytes_in (mem h') p bs" if p: "A p = Some bs" for p bs
  proof -
    obtain s where s: "(p - 8, s) \<in> in_use B" "length bs + 16 \<le> s" "8 \<le> p" "bytes_in (mem h) p bs"
      using holds_block [OF h(3) p] .
    then have "mem h' x = mem h x" if "p \<le> x" "x < p + length bs" for x
      using r(4) that by (auto simp: keeps_def in_use_def)
    then show ?thesis using s(4) bytes_in_cong [of p bs "mem h" "mem h'"] by simp
  qed
  show ?thesis
  proof (cases "r = 0")
    case True
    have "in_use B' = in_use B" using True r(5) by auto
    then have "holds h' B' A" using h(3) kept unfolding holds_def by metis
    then have "represents H L m h' B' A" using r(2,3) e low by (auto simp: represents_def)
    then show ?thesis using True r(1) \<open>in_use B' = in_use B\<close> by auto
  next
    case False
    then obtain c s where c: "r = c + 8" "n + 16 \<le> s" "in_use B' = insert (c, s) (in_use B)" "c \<notin> fst ` in_use B" using r(5) by blast
    have "room (mem h') r n" using in_use_room [OF r(2), of c s n] c by simp
    moreover have "A r = None"
    proof (rule ccontr)
      assume "A r \<noteq> None"
      then obtain bs where "A r = Some bs" by auto
      from holds_block [OF h(3) this] obtain s' where "(r - 8, s') \<in> in_use B" .
      then show False using c(1,4) by force
    qed
    moreover have "represents H L m h' B' (A(r \<mapsto> bs))" if bs: "length bs = n" "bytes_in (mem h') r bs" for bs
    proof -
      have "holds h' B' (A(r \<mapsto> bs))"
        unfolding holds_def
      proof (intro conjI allI impI)
        fix p cs assume "(A(r \<mapsto> bs)) p = Some cs"
        then consider "p = r" "cs = bs" | "A p = Some cs" by (cases "p = r") simp_all
        then have "8 \<le> p \<and> (\<exists>s. (p - 8, s) \<in> in_use B' \<and> length cs + 16 \<le> s) \<and> bytes_in (mem h') p cs"
        proof cases
          case 1
          with c bs show ?thesis by auto
        next
          case 2
          from holds_block [OF h(3) 2] c(3) kept [OF 2] show ?thesis by blast
        qed
        then show "8 \<le> p" "\<exists>s. (p - 8, s) \<in> in_use B' \<and> length cs + 16 \<le> s" "bytes_in (mem h') p cs" by blast+
      next
        fix c' s' assume "(c', s') \<in> in_use B'"
        then show "(A(r \<mapsto> bs)) (c' + 8) \<noteq> None" using c(1,3) h(3) by (auto simp: holds_def)
      qed
      then show ?thesis using r(2,3) e low by (auto simp: represents_def)
    qed
    moreover have "in_use B \<subseteq> in_use B'" using c(3) by auto
    ultimately show ?thesis using False r(1) by blast
  qed
qed

lemma free_represents:
  assumes H: "host_ok H L R" and rep: "represents H L m h B A" and p: "A p = Some bs"
  shows "\<exists>h' B'. free h p = Some h' \<and> represents H L m h' B' (A(p := None))"
proof -
  obtain fl where h: "heap_ok h B fl" "settled B" "holds h B A" "g_heap_start h = heap_start H" "g_end h \<le> L * PAGE"
      "\<forall>x<heap_base H. mem h x = m x" using rep by (auto simp: represents_def)
  obtain s where s: "(p - 8, s) \<in> in_use B" "8 \<le> p" using holds_block [OF h(3) p] by blast
  then have "(p - 8, s, Used) \<in> set B" by (simp add: in_use_def)
  from free_ok [OF h(1,2) this] obtain h' B' fl' where h': "free h (p - 8 + 8) = Some h'" "heap_ok h' B' fl'" "settled B'" "in_use B' = in_use B - {(p - 8, s)}"
      "g_heap_start h' = g_heap_start h" "g_end h' = g_end h" "\<forall>x<g_heap_start h. mem h' x = mem h x"
      "\<forall>c t x. (c, t) \<in> in_use B' \<longrightarrow> c + 8 \<le> x \<longrightarrow> x < c + t - 8 \<longrightarrow> mem h' x = mem h x"
    by blast
  have "holds h' B' (A(p := None))"
    unfolding holds_def
  proof (intro conjI allI impI)
    fix q cs assume "(A(p := None)) q = Some cs"
    then have q: "q \<noteq> p" "A q = Some cs" by (auto split: if_splits)
    obtain t where t: "(q - 8, t) \<in> in_use B" "length cs + 16 \<le> t" "8 \<le> q" "bytes_in (mem h) q cs" using holds_block [OF h(3) q(2)] .
    have "q - 8 \<noteq> p - 8" using q(1) s(2) t(3) by arith
    then have t': "(q - 8, t) \<in> in_use B'" unfolding h'(4) using t(1) by blast
    then have "mem h' x = mem h x" if "q \<le> x" "x < q + length cs" for x using h'(8) that t(2,3) by auto
    then show "bytes_in (mem h') q cs" using t(4) bytes_in_cong [of q cs "mem h" "mem h'"] by simp
    show "8 \<le> q" "\<exists>s. (q - 8, s) \<in> in_use B' \<and> length cs + 16 \<le> s" using t t' by auto
  next
    fix c t assume ct: "(c, t) \<in> in_use B'"
    have "c \<noteq> p - 8"
    proof
      assume "c = p - 8"
      with ct have "(p - 8, t) \<in> in_use B" "t \<noteq> s" using h'(4) by auto
      with s(1) show False using tiles_same_start [of "g_heap_start h" B "g_brk h"] h(1) by (auto simp: heap_ok_def in_use_def)
    qed
    then show "(A(p := None)) (c + 8) \<noteq> None" using ct h'(4) h(3) s(2) by (auto simp: holds_def)
  qed
  then have "represents H L m h' B' (A(p := None))"
    using h'(2-7) h(4,5,6) heap_start_facts(2) [OF H] by (auto simp: represents_def)
  then show ?thesis using h'(1) s(2) by auto
qed


lemma bytes_in_drop: "bytes_in m a bs \<Longrightarrow> k \<le> length bs \<Longrightarrow> bytes_in m (a + k) (drop k bs)"
  by (simp add: bytes_in_def add.assoc)

lemma room_mono: "room m a n \<Longrightarrow> k \<le> n \<Longrightarrow> room m a k"
  by (force simp: room_def)

lemma payload_write:
  assumes ok: "heap_ok h B fl" and c: "(c, s) \<in> in_use B" and a: "c + 8 \<le> a" "a + length ds \<le> c + s - 8"
  shows "heap_ok (h\<lparr>mem := blit (mem h) a ds\<rparr>) B fl"
proof -
  let ?m = "blit (mem h) a ds"
  have cB: "(c, s, Used) \<in> set B" using c by (simp add: in_use_def)
  note cb = heap_bounds [OF ok cB]
  have o: "outside (mem h) ?m a (length ds)" by (auto simp: outside_def blit_other)
  have t: "tiles (g_heap_start h) B (g_brk h)" using ok by (simp add: heap_ok_def)
  have away: "y = (c, s, Used) \<or> c' + s' \<le> c \<or> c + s \<le> c'" if "y = (c', s', k)" "y \<in> set B" for y c' s' k
    using tiles_disjoint [OF t cB] that by blast
  have tags: "tagged ?m y = tagged (mem h) y" if y: "y \<in> set B" for y
  proof -
    obtain c' s' k where y': "y = (c', s', k)" by (cases y)
    note yb = heap_bounds [OF ok y [unfolded y']]
    have "c' + 4 \<le> a \<or> a + length ds \<le> c'" "c' + s' - 8 + 4 \<le> a \<or> a + length ds \<le> c' + s' - 8"
      using away [OF y' y] y' a cb(4) yb(4) by auto
    from this [THEN load32_outside [OF o]] show ?thesis by (simp add: y')
  qed
  have "dll ?m 0 fl 0 = dll (mem h) 0 fl 0"
  proof (rule dll_frame)
    fix b assume "b \<in> set fl"
    then obtain t where b: "(b, t, Free) \<in> set B" using free_block [OF ok] by blast
    have "b + t \<le> c \<or> c + s \<le> b" using away [OF refl b] by simp
    then have "b + 8 + 4 \<le> a \<or> a + length ds \<le> b + 8" "b + 12 + 4 \<le> a \<or> a + length ds \<le> b + 12"
      using a cb(4) heap_bounds(4) [OF ok b] by auto
    from this [THEN load32_outside [OF o]] show "load32 ?m (b + 8) = load32 (mem h) (b + 8) \<and> load32 ?m (b + 12) = load32 (mem h) (b + 12)" ..
  qed
  moreover have "dom ?m = dom (mem h)" using cb a by (intro blit_dom) (auto simp: room_def)
  ultimately show ?thesis using ok tags by (simp add: heap_ok_def del: tagged.simps)
qed

lemma write_represents:
  assumes H: "host_ok H L R" and rep: "represents H L m h B A" and p: "A p = Some bs" and i: "i + length ds \<le> length bs"
  shows "represents H L m (h\<lparr>mem := blit (mem h) (p + i) ds\<rparr>) B (A(p \<mapsto> take i bs @ ds @ drop (i + length ds) bs))"
proof -
  let ?h = "h\<lparr>mem := blit (mem h) (p + i) ds\<rparr>" and ?bs = "take i bs @ ds @ drop (i + length ds) bs"
  obtain fl where h: "heap_ok h B fl" "settled B" "holds h B A" "g_heap_start h = heap_start H" "g_end h \<le> L * PAGE"
      "\<forall>x<heap_base H. mem h x = m x" using rep by (auto simp: represents_def)
  obtain s where s: "(p - 8, s) \<in> in_use B" "length bs + 16 \<le> s" "8 \<le> p" "bytes_in (mem h) p bs" using holds_block [OF h(3) p] .
  have ok: "heap_ok ?h B fl" using payload_write [OF h(1) s(1), of "p + i" ds] s(2,3) i by simp
  have same: "mem ?h x = mem h x" if "x < p \<or> p + length bs \<le> x" for x using that i by (auto simp: blit_other)
  have len: "length ?bs = length bs" using i by simp
  have "bytes_in (mem ?h) p ?bs"
  proof -
    have "bytes_in (mem h) p (take i bs)" by (rule bytes_in_take [OF s(4)])
    moreover have "bytes_in (mem h) (p + i + length ds) (drop (i + length ds) bs)"
      using bytes_in_drop [OF s(4) i] by (simp add: add.assoc)
    moreover have "bytes_in (mem ?h) p (take i bs) = bytes_in (mem h) p (take i bs)"
      using i by (intro bytes_in_cong) (simp add: blit_other)
    moreover have "bytes_in (mem ?h) (p + i + length ds) (drop (i + length ds) bs) = bytes_in (mem h) (p + i + length ds) (drop (i + length ds) bs)"
      by (intro bytes_in_cong) (simp add: blit_other)
    moreover have "length (take i bs) = i" using i by simp
    ultimately show ?thesis by simp
  qed
  have "holds ?h B (A(p \<mapsto> ?bs))"
    unfolding holds_def
  proof (intro conjI allI impI)
    fix q cs assume "(A(p \<mapsto> ?bs)) q = Some cs"
    then consider "q = p" "cs = ?bs" | "q \<noteq> p" "A q = Some cs" by (cases "q = p") simp_all
    then have "8 \<le> q \<and> (\<exists>s. (q - 8, s) \<in> in_use B \<and> length cs + 16 \<le> s) \<and> bytes_in (mem ?h) q cs"
    proof cases
      case 1
      then show ?thesis using s(1,2,3) len \<open>bytes_in (mem ?h) p ?bs\<close> by auto
    next
      case 2
      obtain t where t: "(q - 8, t) \<in> in_use B" "length cs + 16 \<le> t" "8 \<le> q" "bytes_in (mem h) q cs" using holds_block [OF h(3) 2(2)] .
      have "q - 8 \<noteq> p - 8" using 2(1) s(3) t(3) by arith
      then have "q - 8 + t \<le> p - 8 \<or> p - 8 + s \<le> q - 8" using in_use_disjoint [OF h(1) s(1) t(1)] by auto
      then have "bytes_in (mem ?h) q cs = bytes_in (mem h) q cs" using s(2,3) t(2,3) by (intro bytes_in_cong same) linarith
      with t show ?thesis by blast
    qed
    then show "8 \<le> q" "\<exists>s. (q - 8, s) \<in> in_use B \<and> length cs + 16 \<le> s" "bytes_in (mem ?h) q cs" by blast+
  next
    fix c t assume "(c, t) \<in> in_use B"
    then show "(A(p \<mapsto> ?bs)) (c + 8) \<noteq> None" using h(3) by (auto simp: holds_def)
  qed
  moreover have "heap_base H < p"
    using heap_bounds(10) [OF h(1), of "p - 8" s Used] s(1,3) h(4) heap_start_facts(2) [OF H] by (auto simp: in_use_def)
  then have "\<forall>x<heap_base H. mem ?h x = m x" using h(6) same by simp
  ultimately show ?thesis using ok h(2,4,5) by (auto simp: represents_def)
qed

lemma resize_represents:
  assumes rep: "represents H L m h B A" and s: "(p - 8, s) \<in> in_use B" "8 \<le> p" "length cs + 16 \<le> s" and c: "bytes_in (mem h) p cs"
  shows "represents H L m h B (A(p \<mapsto> cs))"
proof -
  have h: "holds h B A" using rep by (simp add: represents_def)
  have "holds h B (A(p \<mapsto> cs))"
    unfolding holds_def
  proof (intro conjI allI impI)
    fix q ds assume "(A(p \<mapsto> cs)) q = Some ds"
    then consider "q = p" "ds = cs" | "A q = Some ds" by (cases "q = p") simp_all
    then have "8 \<le> q \<and> (\<exists>s. (q - 8, s) \<in> in_use B \<and> length ds + 16 \<le> s) \<and> bytes_in (mem h) q ds"
      using s c holds_block [OF h, of q ds] by cases blast+
    then show "8 \<le> q" "\<exists>s. (q - 8, s) \<in> in_use B \<and> length ds + 16 \<le> s" "bytes_in (mem h) q ds" by blast+
  qed (use h in \<open>auto simp: holds_def\<close>)
  with rep show ?thesis by (simp add: represents_def)
qed

lemma found_drop: "bytes_in (mem h) a cs \<Longrightarrow> k \<le> length cs \<Longrightarrow> found h (a + k) (length cs - k) = drop k cs"
  by (intro nth_equalityI) (auto simp: found_def bytes_in_def add.assoc)

lemma calloc_represents:
  assumes H: "host_ok H L R" and rep: "represents H L m h B A" and n: "a * b \<le> R"
  shows "\<exists>r h' B'. calloc H h a b = Some (r, h') \<and> represents H L m h' B' (if r = 0 then A else A(r \<mapsto> replicate (a * b) 0))"
proof -
  let ?n = "a * b"
  have small: "\<not> 2 ^ 32 \<le> ?n" using n H by (simp add: host_ok_def)
  obtain r h1 B1 where r: "malloc H h ?n = Some (r, h1)" "r = 0 \<longrightarrow> represents H L m h1 B1 A"
      "r \<noteq> 0 \<longrightarrow> room (mem h1) r ?n \<and> A r = None \<and> (\<forall>bs. length bs = ?n \<longrightarrow> bytes_in (mem h1) r bs \<longrightarrow> represents H L m h1 B1 (A(r \<mapsto> bs)))"
    using malloc_represents [OF H rep n] by blast
  show ?thesis
  proof (cases "r = 0")
    case True
    then show ?thesis using r(1,2) small by (auto simp: calloc_def)
  next
    case False
    then obtain bs where bs: "length bs = ?n" "bytes_in (mem h1) r bs" "room (mem h1) r ?n" using r(3) bytes_in_ex by blast
    then have "represents H L m h1 B1 (A(r \<mapsto> bs))" using r(3) False by blast
    from write_represents [OF H this, of r bs 0 "replicate ?n 0"] bs(1)
    have "represents H L m (h1\<lparr>mem := blit (mem h1) r (replicate ?n 0)\<rparr>) B1 (A(r \<mapsto> replicate ?n 0))" by simp
    moreover have "calloc H h a b = Some (r, h1\<lparr>mem := blit (mem h1) r (replicate ?n 0)\<rparr>)"
      using r(1) False small memset_blit [OF bs(3), of 0] by (simp add: calloc_def)
    ultimately show ?thesis using False by auto
  qed
qed

lemma realloc_represents:
  assumes H: "host_ok H L R" and rep: "represents H L m h B A" and n: "n \<le> R" "n \<noteq> 0" and p: "A p = Some bs"
  shows "\<exists>r h' B'. realloc H h p n = Some (r, h') \<and> represents H L m h' B' (after A (Realloc p n) r h')"
proof -
  obtain fl where h: "heap_ok h B fl" "holds h B A" using rep by (auto simp: represents_def)
  obtain s where s: "(p - 8, s) \<in> in_use B" "length bs + 16 \<le> s" "8 \<le> p" "bytes_in (mem h) p bs" using holds_block [OF h(2) p] .
  have sB: "(p - 8, s, Used) \<in> set B" using s(1) by (simp add: in_use_def)
  note pb = heap_bounds [OF h(1) sB]
  have size: "blk_size h (sub32 p HDR) = Some s" "sub32 s (HDR + FTR) = s - 16"
    using blk_size_tag(3) [OF h(1) sB] pb s(3) by (simp_all add: HDR_def FTR_def)
  have p0: "p \<noteq> 0" using s(3) by simp
  show ?thesis
  proof (cases "n \<le> s - 16")
    case True
    let ?cs = "found h p n"
    have rm: "room (mem h) p n" using in_use_room [OF h(1) s(1), of n] s(2,3) True by simp
    have f: "bytes_in (mem h) p ?cs" "length ?cs = n" using found_bytes [OF rm] by auto
    have "take n bs = take (length (take n bs)) ?cs"
      using f s(4) by (intro bytes_in_unique [of "mem h" p]) (auto intro: bytes_in_take)
    moreover have "drop (length (take n bs)) ?cs = found h (p + length (take n bs)) (n - length (take n bs))"
      using found_drop [OF f(1), of "length (take n bs)"] f(2) by simp
    ultimately have "take n bs @ found h (p + length (take n bs)) (n - length (take n bs)) = ?cs"
      by (metis append_take_drop_id)
    moreover have "represents H L m h B (A(p \<mapsto> ?cs))" using resize_represents [OF rep s(1,3)] f True s(2) by simp
    moreover have "realloc H h p n = Some (p, h)" using True size p0 n(2) by (simp add: realloc_def)
    ultimately show ?thesis using p0 n(2) p by (intro exI [of _ p] exI [of _ h] exI [of _ B]) (simp add: Let_def)
  next
    case False
    obtain q h1 B1 where q: "malloc H h n = Some (q, h1)" "in_use B \<subseteq> in_use B1" "q = 0 \<longrightarrow> represents H L m h1 B1 A"
        "q \<noteq> 0 \<longrightarrow> room (mem h1) q n \<and> A q = None \<and> (\<forall>bs. length bs = n \<longrightarrow> bytes_in (mem h1) q bs \<longrightarrow> represents H L m h1 B1 (A(q \<mapsto> bs)))"
      using malloc_represents [OF H rep n(1)] by blast
    show ?thesis
    proof (cases "q = 0")
      case True
      then have "realloc H h p n = Some (0, h1)" using False size p0 n(2) q(1) by (simp add: realloc_def)
      then show ?thesis using True q(3) p0 n(2) by (intro exI [of _ 0] exI [of _ h1] exI [of _ B1]) simp
    next
      case q0: False
      then obtain cs where cs: "length cs = n" "bytes_in (mem h1) q cs" "room (mem h1) q n" "A q = None" using q(4) bytes_in_ex by blast
      then have rep1: "represents H L m h1 B1 (A(q \<mapsto> cs))" using q(4) q0 by blast
      then obtain fl1 where h1: "heap_ok h1 B1 fl1" "holds h1 B1 (A(q \<mapsto> cs))" by (auto simp: represents_def)
      have qp: "q \<noteq> p" using cs(4) p by auto
      have sp: "(p - 8, s) \<in> in_use B1" using q(2) s(1) by blast
      obtain t where t: "(q - 8, t) \<in> in_use B1" "n + 16 \<le> t" "8 \<le> q" using holds_block [OF h1(2), of q cs] cs(1) by auto
      have "room (mem h1) p (s - 16)" using in_use_room [OF h1(1) sp, of "s - 16"] s(2,3) by simp
      then obtain src where src: "length src = s - 16" "bytes_in (mem h1) p src" using bytes_in_ex by blast
      have bs1: "bytes_in (mem h1) p bs" using h1(2) p qp by (auto simp: holds_def)
      have bs: "take (length bs) src = bs"
        using bytes_in_unique [OF bytes_in_take [OF src(2)] bs1] src(1) s(2) by simp
      have rq: "room (mem h1) q (length src)" using False src(1) by (intro room_mono [OF cs(3)]) simp
      have "q - 8 \<noteq> p - 8" using qp s(3) t(3) by arith
      then have "q - 8 + t \<le> p - 8 \<or> p - 8 + s \<le> q - 8" using in_use_disjoint [OF h1(1) sp t(1)] by auto
      then have "q \<le> p \<or> p + length src \<le> q" using src(1) s(2,3) t(2,3) by linarith
      from memcpy_blit [OF src(2) rq this] have cp: "memcpy (mem h1) q p (s - 16) = Some (blit (mem h1) q src)" using src(1) by simp
      let ?h2 = "h1\<lparr>mem := blit (mem h1) q src\<rparr>" and ?cs = "src @ drop (length src) cs"
      have "represents H L m ?h2 B1 (A(q \<mapsto> ?cs))"
        using write_represents [OF H rep1, of q cs 0 src] cs(1) src(1) False by simp
      from free_represents [OF H this, of p bs] obtain h3 B3 where h3: "free ?h2 p = Some h3"
          "represents H L m h3 B3 ((A(q \<mapsto> ?cs))(p := None))" using p qp by auto
      have "holds h3 B3 ((A(q \<mapsto> ?cs))(p := None))" using h3(2) by (simp add: represents_def)
      then have "bytes_in (mem h3) q ?cs" using qp by (intro holds_bytes [of h3 B3 "(A(q \<mapsto> ?cs))(p := None)"]) simp_all
      then have "found h3 (q + length bs) (n - length bs) = drop (length bs) ?cs"
        using found_drop [of h3 q ?cs "length bs"] cs(1) src(1) s(2) False by simp
      moreover have "take (length bs) ?cs = bs" using bs src(1) s(2) by simp
      ultimately have "bs @ found h3 (q + length bs) (n - length bs) = ?cs" by (metis append_take_drop_id)
      moreover have "take n bs = bs" using False s(2) by simp
      moreover have "realloc H h p n = Some (q, h3)"
        using False size p0 n(2) q(1) q0 cp h3(1) by (simp add: realloc_def)
      moreover have "(A(q \<mapsto> ?cs))(p := None) = (A(p := None))(q \<mapsto> ?cs)" using qp by (simp add: fun_upd_twist)
      ultimately show ?thesis using h3(2) q0 p0 n(2) p
        by (intro exI [of _ q] exI [of _ h3] exI [of _ B3]) (simp add: Let_def)
    qed
  qed
qed


section \<open>Every reachable state\<close>

text \<open>Before the first call that needs it the heap is not set up; then nothing is live.\<close>

definition good :: "Host \<Rightarrow> nat \<Rightarrow> memory \<Rightarrow> Heap \<Rightarrow> live \<Rightarrow> bool" where
  "good H L m h A \<longleftrightarrow> (\<exists>B. represents H L m h B A) \<or> h = boot m \<and> A = (\<lambda>p. None)"

lemma malloc_good:
  assumes H: "host_ok H L R" and m: "dom m = {..<start_pages H * PAGE}" and g: "good H L m h A" and n: "n \<le> R"
  shows "\<exists>r h'. malloc H h n = Some (r, h') \<and> good H L m h' (if r = 0 then A else A(r \<mapsto> found h' r n))"
    "\<lbrakk>a * b = n\<rbrakk> \<Longrightarrow> \<exists>r h'. calloc H h a b = Some (r, h') \<and> good H L m h' (if r = 0 then A else A(r \<mapsto> replicate n 0))"
proof -
  let ?h = "ensure_init H h"
  obtain B where B: "represents H L m ?h B A"
  proof (cases "h = boot m \<and> A = (\<lambda>p. None)")
    case True
    then show thesis using represents_init [OF H m] that by auto
  next
    case False
    then obtain B where b: "represents H L m h B A" using g by (auto simp: good_def)
    then have "ensure_init H h = h" by (auto simp: represents_def heap_ok_def ensure_init_def)
    with b show thesis using that by simp
  qed
  from malloc_represents [OF H B n] obtain r h' B' where r: "malloc H h n = Some (r, h')" "r = 0 \<longrightarrow> represents H L m h' B' A"
      "r \<noteq> 0 \<longrightarrow> room (mem h') r n \<and> A r = None \<and> (\<forall>bs. length bs = n \<longrightarrow> bytes_in (mem h') r bs \<longrightarrow> represents H L m h' B' (A(r \<mapsto> bs)))"
    using malloc_init [of H h n] by auto
  then have "represents H L m h' B' (if r = 0 then A else A(r \<mapsto> found h' r n))" using found_bytes by auto
  with r(1) show "\<exists>r h'. malloc H h n = Some (r, h') \<and> good H L m h' (if r = 0 then A else A(r \<mapsto> found h' r n))"
    by (auto simp: good_def)
  assume ab: "a * b = n"
  have "calloc H h a b = calloc H ?h a b"
    using ab n H by (simp add: calloc_def host_ok_def malloc_init [of H h n])
  moreover from calloc_represents [OF H B, of a b] ab n obtain r h' B' where
    "calloc H ?h a b = Some (r, h')" "represents H L m h' B' (if r = 0 then A else A(r \<mapsto> replicate n 0))" by auto
  ultimately show "\<exists>r h'. calloc H h a b = Some (r, h') \<and> good H L m h' (if r = 0 then A else A(r \<mapsto> replicate n 0))"
    unfolding good_def by (intro exI [of _ r] exI [of _ h'] conjI disjI1 exI [of _ B']) simp_all
qed

lemma good_null: "host_ok H L R \<Longrightarrow> good H L m h A \<Longrightarrow> A 0 = None"
  unfolding good_def represents_def holds_def by (auto; metis not_None_eq not_less_zero zero_less_numeral not_le)

lemma call_good:
  assumes H: "host_ok H L R" and m: "dom m = {..<start_pages H * PAGE}" and g: "good H L m h A"
    and v: "valid A c" and n: "at_most R c"
  shows "\<exists>r h'. run_call H c h = Some (r, h') \<and> good H L m h' (after A c r h')"
proof -
  have live: "\<exists>B. represents H L m h B A" if "A p = Some bs" for p bs
    using g that by (auto simp: good_def)
  note none = good_null [OF H g]
  show ?thesis
  proof (cases c)
    case (Malloc k)
    then show ?thesis using malloc_good(1) [OF H m g, of k] n by simp
  next
    case (Calloc a b)
    show ?thesis
    proof (cases "2 ^ 32 \<le> a * b")
      case True
      then show ?thesis using Calloc g by (simp add: calloc_def)
    next
      case False
      then show ?thesis using Calloc malloc_good(2) [OF H m g, of "a * b" a b] n by simp
    qed
  next
    case (Realloc p k)
    show ?thesis
    proof (cases "p = 0")
      case True
      then show ?thesis using Realloc malloc_good(1) [OF H m g, of k] n by (simp add: realloc_def)
    next
      case False
      then obtain bs where bs: "A p = Some bs" using v Realloc by auto
      then obtain B where B: "represents H L m h B A" using live by blast
      show ?thesis
      proof (cases "k = 0")
        case True
        from free_represents [OF H B bs] obtain h' B' where "free h p = Some h'" "represents H L m h' B' (A(p := None))" by blast
        then show ?thesis using Realloc True False by (auto simp: realloc_def good_def)
      next
        case k: False
        from realloc_represents [OF H B _ k bs] n Realloc obtain r h' B' where
          "realloc H h p k = Some (r, h')" "represents H L m h' B' (after A (Realloc p k) r h')" by auto
        then show ?thesis unfolding Realloc good_def by auto
      qed
    qed
  next
    case (Release p)
    show ?thesis
    proof (cases "p = 0")
      case True
      then have "A(p := None) = A" using none by auto
      then show ?thesis using Release True g by (simp add: free_def)
    next
      case False
      then obtain bs where bs: "A p = Some bs" using v Release by auto
      then obtain B where B: "represents H L m h B A" using live by blast
      from free_represents [OF H B bs] show ?thesis using Release by (auto simp: good_def)
    qed
  next
    case (Write p i b)
    then obtain bs where bs: "A p = Some bs" "i < length bs" using v by (auto split: option.splits)
    then obtain B where B: "represents H L m h B A" using live by blast
    from write_represents [OF H B bs(1), of i "[b]"] bs(2)
    have "represents H L m (h\<lparr>mem := (mem h)(p + i \<mapsto> b)\<rparr>) B (A(p \<mapsto> bs[i := b]))"
      by (simp add: blit_Cons upd_conv_take_nth_drop)
    moreover have "mem h (p + i) \<noteq> None"
      using B bs holds_bytes [of h B A p bs] by (auto simp: represents_def bytes_in_def)
    ultimately show ?thesis using Write bs(1) by (auto simp: store8_def good_def)
  qed
qed

lemma client_good:
  assumes H: "host_ok H L R" and m: "dom m = {..<start_pages H * PAGE}" and c: "client H R m h A"
  shows "good H L m h A"
  using c
proof (induction rule: client.induct)
  case start
  then show ?case by (simp add: good_def)
next
  case (step h A c r h')
  then show ?case using call_good [OF H m step.IH step.hyps(2,3)] by auto
qed

text \<open>What the client may rely on.\<close>

definition live_ok :: "Host \<Rightarrow> memory \<Rightarrow> Heap \<Rightarrow> live \<Rightarrow> bool" where
  "live_ok H m h A \<longleftrightarrow>
     (\<forall>p bs. A p = Some bs \<longrightarrow> 8 dvd p \<and> heap_base H < p \<and> bytes_in (mem h) p bs)
     \<and> (\<forall>p q bs cs. A p = Some bs \<longrightarrow> A q = Some cs \<longrightarrow> p \<noteq> q \<longrightarrow> p + length bs \<le> q \<or> q + length cs \<le> p)
     \<and> (\<forall>x<heap_base H. mem h x = m x)"

lemma good_live_ok:
  assumes H: "host_ok H L R" and g: "good H L m h A"
  shows "live_ok H m h A"
proof (cases "h = boot m \<and> A = (\<lambda>p. None)")
  case True
  then show ?thesis by (auto simp: live_ok_def boot_def)
next
  case False
  then obtain B fl where h: "heap_ok h B fl" "holds h B A" "g_heap_start h = heap_start H" "\<forall>x<heap_base H. mem h x = m x"
    using g by (auto simp: good_def represents_def)
  have one: "8 dvd p \<and> heap_base H < p \<and> bytes_in (mem h) p bs" if p: "A p = Some bs" for p bs
  proof -
    obtain s where s: "(p - 8, s) \<in> in_use B" "8 \<le> p" "bytes_in (mem h) p bs" using holds_block [OF h(2) p] by blast
    then have "(p - 8, s, Used) \<in> set B" by (simp add: in_use_def)
    note b = heap_bounds [OF h(1) this]
    have "8 dvd p - 8 + 8" using b(3) by (intro dvd_add) simp_all
    then show ?thesis using s(2,3) b(10) h(3) heap_start_facts(2) [OF H] by simp
  qed
  moreover have "p + length bs \<le> q \<or> q + length cs \<le> p" if pq: "A p = Some bs" "A q = Some cs" "p \<noteq> q" for p q bs cs
  proof -
    obtain s t where s: "(p - 8, s) \<in> in_use B" "8 \<le> p" "length bs + 16 \<le> s" and t: "(q - 8, t) \<in> in_use B" "8 \<le> q" "length cs + 16 \<le> t"
      using holds_block [OF h(2) pq(1)] holds_block [OF h(2) pq(2)] by metis
    have "p - 8 \<noteq> q - 8" using pq(3) s(2) t(2) by arith
    then show ?thesis using in_use_disjoint [OF h(1) s(1) t(1)] s t by auto
  qed
  ultimately show ?thesis using h(4) by (auto simp: live_ok_def)
qed

section \<open>Results\<close>

text \<open>C2: The allocator serves its client correctly: in every state that any sequence of valid calls and writes
  reaches, the live blocks are aligned, apart from each other and above the static data, they hold what the
  client has put there, the static data is as it was, and the next valid call ends without a trap.\<close>

theorem allocator_correct:
  assumes "host_ok H L R" and "dom m = {..<start_pages H * PAGE}" and "client H R m h A"
  shows "live_ok H m h A \<and> (\<forall>c. valid A c \<longrightarrow> at_most R c \<longrightarrow> (\<exists>r h'. run_call H c h = Some (r, h')))"
  using good_live_ok [OF assms(1)] client_good [OF assms] call_good [OF assms(1,2)] by blast

definition host1 :: Host where
  "host1 = \<lparr>heap_base = 1028, start_pages = 1, can_grow = (\<lambda>n k. n + k \<le> 16)\<rparr>"

definition mem1 :: memory where
  "mem1 = (\<lambda>a. if a < 65536 then Some 0 else None)"

lemma host1_facts: "host_ok host1 16 1000" "dom mem1 = {..<start_pages host1 * PAGE}"
  by (auto simp: host_ok_def host1_def mem1_def PAGE_def split: if_splits)

lemma allocator_correct_witness:
  "\<exists>r h A. run_call host1 (Malloc 10) (boot mem1) = Some (r, h) \<and> live_ok host1 mem1 h A \<and> (\<exists>s h'. run_call host1 (Malloc 20) h = Some (s, h'))"
proof -
  have c0: "client host1 1000 mem1 (boot mem1) (\<lambda>p. None)" by (rule client.start)
  obtain r h where r: "run_call host1 (Malloc 10) (boot mem1) = Some (r, h)"
    using allocator_correct [OF host1_facts c0, THEN conjunct2, rule_format, of "Malloc 10"] by auto
  have c1: "client host1 1000 mem1 h (after (\<lambda>p. None) (Malloc 10) r h)" by (rule client.step [OF c0 _ _ r]) simp_all
  have "live_ok host1 mem1 h (after (\<lambda>p. None) (Malloc 10) r h)" "\<exists>s h'. run_call host1 (Malloc 20) h = Some (s, h')"
    using allocator_correct [OF host1_facts c1] allocator_correct [OF host1_facts c1, THEN conjunct2, rule_format, of "Malloc 20"]
    by simp_all
  with r show ?thesis by blast
qed

text \<open>C12: Freed memory comes back whole: when everything has been released, the heap is one free block again, and any
  request that fits into it is served from its start, also if the host grants no more memory.\<close>

theorem freed_memory_is_reused:
  assumes "host_ok H L R" and "dom m = {..<start_pages H * PAGE}" and "client H R m h (\<lambda>p. None)"
    and "n \<le> R" and "n + 32 \<le> g_brk h - g_heap_start h"
  shows "\<exists>h'. malloc H h n = Some (g_heap_start h + 8, h')"
proof -
  have "h \<noteq> boot m" using assms(5) by (auto simp: boot_def)
  with client_good [OF assms(1-3)] obtain B fl where h: "heap_ok h B fl" "settled B" "holds h B (\<lambda>p. None)" "g_end h \<le> L * PAGE"
    by (auto simp: good_def represents_def)
  have "in_use B = {}" using h(3) by (auto simp: holds_def)
  then have k: "k = Free" if "(c, s, k) \<in> set B" for c s k
    using that h(2) by (cases k) (force simp: in_use_def settled_def kinds_def)+
  have t: "tiles (g_heap_start h) B (g_brk h)" using h(1) by (simp add: heap_ok_def)
  have "B \<noteq> []" using t assms(5) by auto
  then obtain c s k' C where B': "B = (c, s, k') # C" by (cases B) auto
  with k [of c s k'] have B: "B = (c, s, Free) # C" by simp
  have "C = []"
  proof (rule ccontr)
    assume "C \<noteq> []"
    then obtain c' s' k' D where "C = (c', s', k') # D" by (cases C) auto
    with k [of c' s' k'] B have "C = (c', s', Free) # D" by simp
    with h(2) B show False by (simp add: settled_def)
  qed
  then have c: "c = g_heap_start h" "c + s = g_brk h" "B = [(c, s, Free)]" using t B by auto
  have fl: "fl = [c]"
  proof -
    have "set fl = {c}" "distinct fl" using h(1) c(3) by (auto simp: heap_ok_def frees_def)
    then show ?thesis by (metis distinct.simps(2) empty_iff insert_iff list.set(1) list.set_intros(1) list.exhaust subset_singletonD list.set_sel(1) list.simps(15) insert_absorb singleton_insert_inj_eq' set_empty2)
  qed
  have big: "block_total n \<le> s" using block_total_facts(4) [of n] assms(5) c by simp
  have bounds: "8 \<le> c" "c + s \<le> g_brk h" "g_brk h \<le> g_end h" "g_end h < 2 ^ 32" using heap_bounds [OF h(1), of c s Free] c(3) by auto
  have sz: "blk_size h c = Some s" using blk_size_tag(3) [OF h(1), of c s Free] c(3) by simp
  have "g_free h = c + 8" using h(1) fl by (simp add: heap_ok_def)
  moreover have sub: "sub32 (c + 8) HDR = c"
  proof -
    have "32 \<le> s" using heap_bounds(4) [OF h(1), of c s Free] c(3) by simp
    then show ?thesis using bounds by (simp add: HDR_def)
  qed
  ultimately have "first_fit h (block_total n) (g_free h) = Some (c + 8)"
    using sz big by (simp add: first_fit.simps)
  moreover have "\<exists>h'. take_block h c (block_total n) = Some (c + 8, h')"
    using take_block_ok [of h "[]" c s "[]" fl "block_total n"] h(1) c(3) big block_total_facts(1,2) [of n] by auto
  moreover have "n + 32 < 2 ^ 32" using assms(1,4) by (simp add: host_ok_def)
  then have "malloc H h n = do { p \<leftarrow> first_fit h (block_total n) (g_free h);
      if p \<noteq> 0 then take_block h (sub32 p HDR) (block_total n) else new_block H h (block_total n) }"
    using h(1) by (intro malloc_start) (simp_all add: heap_ok_def)
  ultimately show ?thesis using sub c(1) by auto
qed


lemma first_block:
  "\<exists>h'. client host1 1000 mem1 h' (\<lambda>p. None) \<and> g_brk h' = 1152 \<and> g_heap_start h' = 1032"
proof -
  define h0 where "h0 = \<lparr>mem = mem1, g_heap_start = 1032, g_brk = 1032, g_end = 65536, g_free = 0, g_inited = True\<rparr>"
  define h1 where "h1 = h0\<lparr>g_brk := 1152, mem := tags_put mem1 1032 120 Used\<rparr>"
  have d: "dom mem1 = {..<65536}" using host1_facts(2) by (simp add: host1_def PAGE_def)
  have "ensure_init host1 (boot mem1) = h0"
    by (simp add: ensure_init_def boot_def h0_def host1_def align_up_def ALIGN_def w32_def PAGE_def)
  moreover have "malloc host1 h0 100 = new_block host1 h0 120"
    using malloc_start [of h0 100 host1] by (simp add: h0_def first_fit.simps block_total_def)
  moreover have "heap_extend host1 h0 120 = (1032, h0\<lparr>g_brk := 1152\<rparr>)"
    by (simp add: heap_extend_def h0_def w32_def)
  moreover have "blk_set (h0\<lparr>g_brk := 1152\<rparr>) 1032 120 True = Some h1"
    using blk_set_mem [of "h0\<lparr>g_brk := 1152\<rparr>" 65536 1032 120 True] d by (simp add: h0_def h1_def)
  ultimately have m: "run_call host1 (Malloc 100) (boot mem1) = Some (1040, h1)"
    using malloc_init [of host1 "boot mem1" 100] by (simp add: new_block_def HDR_def w32_def)
  let ?A = "after (\<lambda>p. None) (Malloc 100) 1040 h1"
  have c1: "client host1 1000 mem1 h1 ?A"
    by (rule client.step [OF client.start _ _ m]) simp_all
  have A: "?A 1040 = Some (found h1 1040 100)" by simp
  then have "?A \<noteq> (\<lambda>p. None)" by (metis option.distinct(1))
  with client_good [OF host1_facts c1] obtain B fl where h: "heap_ok h1 B fl" "settled B" "holds h1 B ?A"
    unfolding good_def represents_def by blast
  obtain s where "(1040 - 8, s) \<in> in_use B" using holds_block [OF h(3) A] .
  then have "(1032, s, Used) \<in> set B" by (simp add: in_use_def)
  from free_ok [OF h(1,2) this] obtain h' where h': "free h1 1040 = Some h'" "g_brk h' = g_brk h1" "g_heap_start h' = g_heap_start h1"
    by auto
  have "client host1 1000 mem1 h' (after ?A (Release 1040) 0 h')"
    by (rule client.step [OF c1]) (simp_all add: h'(1))
  moreover have "after ?A (Release 1040) 0 h' = (\<lambda>p. None)" by (simp add: fun_eq_iff)
  ultimately show ?thesis using h'(2,3) by (auto simp: h1_def h0_def)
qed

lemma freed_memory_is_reused_witness:
  "\<exists>h h'. client host1 1000 mem1 h (\<lambda>p. None) \<and> malloc host1 h 80 = Some (1040, h')"
proof -
  obtain h where h: "client host1 1000 mem1 h (\<lambda>p. None)" "g_brk h = 1152" "g_heap_start h = 1032" using first_block by blast
  from freed_memory_is_reused [OF host1_facts h(1), of 80] h show ?thesis by auto
qed

section \<open>Requests that are too large\<close>

text \<open>
  Only requests above \<open>0xfffffff0\<close> are rejected. For those just below, the header and the footer wrap the size
  of the block around to 0, so that a pointer is returned, with the tags written over each other, although there is no
  room; and the sum of the break and the size of a larger block can wrap, which passes for room.
\<close>

lemma total_wraps: "w32 (HDR + align_up 0xffffffe9 ALIGN + FTR) = 0" "\<not> 0xffffffe9 > (0xfffffff0 :: nat)"
  by (simp_all add: HDR_def FTR_def ALIGN_def align_up_def w32_def)

lemma break_wraps:
  assumes "g_brk h = 65536" and "g_end h = 131072"
  shows "heap_extend H h 0xffff1000 = (65536, h\<lparr>g_brk := 4096\<rparr>)"
  using assms by (simp add: heap_extend_def w32_def)

end
