(* ===== verification/Freestanding_Format.thy ===== *)
theory Freestanding_Format
  imports Prelude "HOL-Library.Monad_Syntax"
begin

text \<open>
  Formatted output of the compiler built as WebAssembly (\<open>src/src/freestanding/fmt.c\<close>): the bounded sink, the
  conversions, the format parser. In that build \<open>int\<close>, \<open>long\<close>, \<open>size_t\<close> and pointers have 32 bits,
  \<open>long long\<close> and \<open>intmax_t\<close> 64. \<open>dtoa\<close> of the vendored library is a parameter: the digits and the position of the
  point for a magnitude, a mode and a number of digits. None is undefined behaviour: an argument that is missing
  or of another size, or a local buffer written past its end. The values of the \<open>int\<close> variables are not bounded.
\<close>

section \<open>The sink\<close>

record out =
  o_buf :: string
  o_cap :: nat
  o_n :: nat

definition put :: "out \<Rightarrow> char \<Rightarrow> out" where
  "put o' c = (if o_n o' < o_cap o' then o'\<lparr>o_buf := (o_buf o')[o_n o' := c], o_n := o_n o' + 1\<rparr> else o'\<lparr>o_n := o_n o' + 1\<rparr>)"

definition put_mem :: "out \<Rightarrow> string \<Rightarrow> out" where
  "put_mem o' s = foldl put o' s"

text \<open>A negative count writes nothing.\<close>

definition put_pad :: "out \<Rightarrow> char \<Rightarrow> int \<Rightarrow> out" where
  "put_pad o' c count = put_mem o' (replicate (nat count) c)"

datatype flag = F_MINUS | F_PLUS | F_SPACE | F_HASH | F_ZERO

type_synonym flags = "flag set"

definition emit_field :: "out \<Rightarrow> string \<Rightarrow> string \<Rightarrow> int \<Rightarrow> flags \<Rightarrow> out" where
  "emit_field o' pre body width flags =
     (let tot = int (length pre) + int (length body);
          pad = (if width > tot then width - tot else 0)
      in if F_MINUS \<in> flags then put_pad (put_mem (put_mem o' pre) body) (CHR '' '') pad
         else if F_ZERO \<in> flags then put_mem (put_pad (put_mem o' pre) (CHR ''0'') pad) body
         else put_mem (put_mem (put_pad o' (CHR '' '') pad) pre) body)"

section \<open>Numbers\<close>

text \<open>The digits are written from the end of a buffer of \<open>sz\<close> bytes, behind them a NUL.\<close>

definition LOWER_DIGITS :: string where "LOWER_DIGITS = ''0123456789abcdef''"
definition UPPER_DIGITS :: string where "UPPER_DIGITS = ''0123456789ABCDEF''"

partial_function (option) u_digits :: "nat \<Rightarrow> nat \<Rightarrow> string \<Rightarrow> nat \<Rightarrow> string \<Rightarrow> string option" where
  "u_digits sz base tbl v acc =
     (if v = 0 then Some acc
      else if length acc + 1 \<ge> sz then None
      else u_digits sz base tbl (v div base) (tbl ! (v mod base) # acc))"

definition u_to_str :: "nat \<Rightarrow> nat \<Rightarrow> nat \<Rightarrow> bool \<Rightarrow> string option" where
  "u_to_str sz v base upper =
     (let digits = (if upper then UPPER_DIGITS else LOWER_DIGITS)
      in if v = 0 then (if 2 \<le> sz then Some ''0'' else None) else u_digits sz base digits v [])"

definition strip_frac_zeros :: "string \<Rightarrow> string" where
  "strip_frac_zeros s =
     (if CHR ''.'' \<in> set s
      then let dot = length (takeWhile (\<lambda>c. c \<noteq> CHR ''.'') s);
               frac = rev (dropWhile (\<lambda>c. c = CHR ''0'') (rev (drop (dot + 1) s)))
           in if frac = [] then take dot s else take (dot + 1) s @ frac
      else s)"

text \<open>\<open>dtoa mag mode ndigits\<close>; the magnitude is given by its bits.\<close>

type_synonym dtoa_fn = "u64 \<Rightarrow> nat \<Rightarrow> int \<Rightarrow> string \<times> int"

definition TMP :: nat where "TMP = 1100"

definition fits :: "string \<Rightarrow> string option" where
  "fits s = (if length s \<le> TMP then Some s else None)"

definition digit_at :: "string \<Rightarrow> int \<Rightarrow> char" where
  "digit_at ds i = (if 0 \<le> i \<and> i < int (length ds) then ds ! nat i else CHR ''0'')"

definition render_e :: "string \<Rightarrow> int \<Rightarrow> int \<Rightarrow> bool \<Rightarrow> bool \<Rightarrow> flags \<Rightarrow> string option" where
  "render_e ds decpt prec lower strip flags =
     do { let e = (if ds = [] then 0 else decpt - 1);
          t \<leftarrow> fits ((if ds = [] then ''0'' else [hd ds])
                    @ (if prec > 0 \<or> F_HASH \<in> flags then ''.'' else [])
                    @ map (\<lambda>i. digit_at ds (i + 1)) [0..prec - 1]);
          let t = (if strip then strip_frac_zeros t else t);
          eb \<leftarrow> u_to_str 8 (nat \<bar>e\<bar>) 10 False;
          fits (t @ [if lower then CHR ''e'' else CHR ''E'', if e < 0 then CHR ''-'' else CHR ''+'']
                @ (if length eb < 2 then ''0'' else []) @ eb) }"

definition render_f :: "string \<Rightarrow> int \<Rightarrow> int \<Rightarrow> bool \<Rightarrow> flags \<Rightarrow> string option" where
  "render_f ds decpt prec strip flags =
     do { t \<leftarrow> fits ((if decpt \<le> 0 then ''0'' else map (digit_at ds) [0..decpt - 1])
                    @ (if prec > 0 \<or> F_HASH \<in> flags then ''.'' else [])
                    @ map (\<lambda>i. digit_at ds (decpt + i)) [0..prec - 1]);
          Some (if strip then strip_frac_zeros t else t) }"

text \<open>\<open>mode\<close> and \<open>ndig\<close> by the conversion, then the form of \<open>%g\<close> by the exponent.\<close>

definition render_float :: "dtoa_fn \<Rightarrow> u64 \<Rightarrow> char \<Rightarrow> int \<Rightarrow> flags \<Rightarrow> string option" where
  "render_float dtoa mag conv prec flags =
     (let lower = (97 \<le> code conv);
          c = (if lower then conv else chr (code conv + 32));
          P = (if prec \<le> 0 then (if prec = 0 then 1 else 6) else prec);
          strip = (c = CHR ''g'' \<and> F_HASH \<notin> flags);
          prec = (if c \<noteq> CHR ''g'' \<and> prec < 0 then 6 else prec);
          (mode, ndig) = (if c = CHR ''g'' then (2, P) else if c = CHR ''e'' then (2, prec + 1) else (3, prec));
          (ds, decpt) = dtoa mag mode ndig;
          X = decpt - 1;
          (c, prec) = (if c = CHR ''g''
                       then if X < -4 \<or> X \<ge> P then (CHR ''e'', P - 1) else (CHR ''f'', P - 1 - X)
                       else (c, prec))
      in if c = CHR ''e'' then render_e ds decpt prec lower strip flags
         else render_f ds decpt prec strip flags)"

text \<open>The bits of a double.\<close>

definition sign_bit :: "u64 \<Rightarrow> bool" where "sign_bit v \<longleftrightarrow> bit v 63"
definition exp_ones :: "u64 \<Rightarrow> bool" where "exp_ones v \<longleftrightarrow> take_bit 11 (drop_bit 52 v) = 2047"
definition is_nan :: "u64 \<Rightarrow> bool" where "is_nan v \<longleftrightarrow> exp_ones v \<and> take_bit 52 v \<noteq> 0"
definition is_inf :: "u64 \<Rightarrow> bool" where "is_inf v \<longleftrightarrow> exp_ones v \<and> take_bit 52 v = 0"

definition fmt_float :: "dtoa_fn \<Rightarrow> out \<Rightarrow> u64 \<Rightarrow> char \<Rightarrow> int \<Rightarrow> flags \<Rightarrow> int \<Rightarrow> out option" where
  "fmt_float dtoa o' v conv prec flags width =
     (let upper = (code conv < 97);
          pfx = (if sign_bit v then ''-'' else if F_PLUS \<in> flags then ''+'' else if F_SPACE \<in> flags then '' '' else []);
          v = (if sign_bit v then unset_bit 63 v else v)
      in if is_nan v \<or> is_inf v
         then Some (emit_field o' pfx
                      (if is_nan v then (if upper then ''NAN'' else ''nan'') else (if upper then ''INF'' else ''inf''))
                      width (flags - {F_ZERO}))
         else do { tmp \<leftarrow> render_float dtoa v conv prec flags; Some (emit_field o' pfx tmp width flags) })"

section \<open>Arguments\<close>

datatype arg = W32 u32 | W64 u64 | Str "string option" | Dbl u64

type_synonym va_list = "arg list"

definition arg_i32 :: "va_list \<Rightarrow> (int \<times> va_list) option" where
  "arg_i32 ap = (case ap of W32 w # ap \<Rightarrow> Some (sint w, ap) | _ \<Rightarrow> None)"

definition arg_u32 :: "va_list \<Rightarrow> (nat \<times> va_list) option" where
  "arg_u32 ap = (case ap of W32 w # ap \<Rightarrow> Some (unat w, ap) | _ \<Rightarrow> None)"

definition arg_i64 :: "va_list \<Rightarrow> (int \<times> va_list) option" where
  "arg_i64 ap = (case ap of W64 w # ap \<Rightarrow> Some (sint w, ap) | _ \<Rightarrow> None)"

definition arg_u64 :: "va_list \<Rightarrow> (nat \<times> va_list) option" where
  "arg_u64 ap = (case ap of W64 w # ap \<Rightarrow> Some (unat w, ap) | _ \<Rightarrow> None)"

definition arg_str :: "va_list \<Rightarrow> (string option \<times> va_list) option" where
  "arg_str ap = (case ap of Str s # ap \<Rightarrow> Some (s, ap) | _ \<Rightarrow> None)"

definition arg_dbl :: "va_list \<Rightarrow> (u64 \<times> va_list) option" where
  "arg_dbl ap = (case ap of Dbl d # ap \<Rightarrow> Some (d, ap) | _ \<Rightarrow> None)"

section \<open>The parts of a conversion\<close>

datatype len_mod = LEN_NONE | LEN_hh | LEN_h | LEN_l | LEN_ll | LEN_j | LEN_z | LEN_t | LEN_L

definition flag_of :: "char \<Rightarrow> flag option" where
  "flag_of c = (if c = CHR ''-'' then Some F_MINUS else if c = CHR ''+'' then Some F_PLUS else if c = CHR '' '' then Some F_SPACE
                else if c = CHR ''#'' then Some F_HASH else if c = CHR ''0'' then Some F_ZERO else None)"

fun parse_flags :: "flags \<Rightarrow> string \<Rightarrow> flags \<times> string" where
  "parse_flags fs [] = (fs, [])"
| "parse_flags fs (c # f) = (case flag_of c of None \<Rightarrow> (fs, c # f) | Some x \<Rightarrow> parse_flags (insert x fs) f)"

fun parse_num :: "int \<Rightarrow> string \<Rightarrow> int \<times> string" where
  "parse_num n [] = (n, [])"
| "parse_num n (c # f) = (if is_digit c then parse_num (n * 10 + (int (code c) - 48)) f else (n, c # f))"

definition parse_width :: "flags \<Rightarrow> string \<Rightarrow> va_list \<Rightarrow> (int \<times> flags \<times> string \<times> va_list) option" where
  "parse_width fs f ap =
     (if at f = CHR ''*''
      then do { (w, ap) \<leftarrow> arg_i32 ap;
                Some (if w < 0 then (- w, insert F_MINUS fs, drop 1 f, ap) else (w, fs, drop 1 f, ap)) }
      else let (w, f) = parse_num 0 f in Some (w, fs, f, ap))"

definition parse_prec :: "string \<Rightarrow> va_list \<Rightarrow> (int \<times> string \<times> va_list) option" where
  "parse_prec f ap =
     (if at f = CHR ''.''
      then do { (p, f, ap) \<leftarrow> (if at (drop 1 f) = CHR ''*''
                                 then do { (p, ap) \<leftarrow> arg_i32 ap; Some (p, drop 2 f, ap) }
                                 else let (p, f) = parse_num 0 (drop 1 f) in Some (p, f, ap));
                Some (if p < 0 then -1 else p, f, ap) }
      else Some (-1, f, ap))"

definition parse_len :: "string \<Rightarrow> len_mod \<times> string" where
  "parse_len f =
     (if at f = CHR ''h'' then (if at (drop 1 f) = CHR ''h'' then (LEN_hh, drop 2 f) else (LEN_h, drop 1 f))
      else if at f = CHR ''l'' then (if at (drop 1 f) = CHR ''l'' then (LEN_ll, drop 2 f) else (LEN_l, drop 1 f))
      else if at f = CHR ''j'' then (LEN_j, drop 1 f)
      else if at f = CHR ''z'' then (LEN_z, drop 1 f)
      else if at f = CHR ''t'' then (LEN_t, drop 1 f)
      else if at f = CHR ''L'' then (LEN_L, drop 1 f)
      else (LEN_NONE, f))"

section \<open>The conversions\<close>

definition signed_arg :: "len_mod \<Rightarrow> va_list \<Rightarrow> (int \<times> va_list) option" where
  "signed_arg len ap =
     (case len of
        LEN_ll \<Rightarrow> arg_i64 ap
      | LEN_j \<Rightarrow> arg_i64 ap
      | LEN_hh \<Rightarrow> map_option (\<lambda>(v, ap). (signed_take_bit 7 v, ap)) (arg_i32 ap)
      | LEN_h \<Rightarrow> map_option (\<lambda>(v, ap). (signed_take_bit 15 v, ap)) (arg_i32 ap)
      | _ \<Rightarrow> arg_i32 ap)"

text \<open>\<open>%tu\<close> reads a \<open>ptrdiff_t\<close> and widens it with its sign.\<close>

definition unsigned_arg :: "len_mod \<Rightarrow> va_list \<Rightarrow> (nat \<times> va_list) option" where
  "unsigned_arg len ap =
     (case len of
        LEN_ll \<Rightarrow> arg_u64 ap
      | LEN_j \<Rightarrow> arg_u64 ap
      | LEN_t \<Rightarrow> map_option (\<lambda>(v, ap). (nat (v mod 2 ^ 64), ap)) (arg_i32 ap)
      | LEN_hh \<Rightarrow> map_option (\<lambda>(v, ap). (v mod 2 ^ 8, ap)) (arg_u32 ap)
      | LEN_h \<Rightarrow> map_option (\<lambda>(v, ap). (v mod 2 ^ 16, ap)) (arg_u32 ap)
      | _ \<Rightarrow> arg_u32 ap)"

definition NB :: nat where "NB = 24"

definition conv_s :: "out \<Rightarrow> string option \<Rightarrow> int \<Rightarrow> int \<Rightarrow> flags \<Rightarrow> out" where
  "conv_s o' s prec width flags =
     (let s = (case s of None \<Rightarrow> ''(null)'' | Some s \<Rightarrow> cstr s);
          slen = (if prec < 0 then length s else min (length s) (nat prec))
      in emit_field o' [] (take slen s) width (flags - {F_ZERO}))"

definition conv_d :: "out \<Rightarrow> int \<Rightarrow> int \<Rightarrow> flags \<Rightarrow> out option" where
  "conv_d o' v width flags =
     do { let mag = (if v < 0 then nat (- (v + 1)) + 1 else nat v);
          p \<leftarrow> u_to_str NB mag 10 False;
          let pfx = (if v < 0 then ''-'' else if F_PLUS \<in> flags then ''+'' else if F_SPACE \<in> flags then '' '' else []);
          Some (emit_field o' pfx p width flags) }"

definition conv_u :: "out \<Rightarrow> char \<Rightarrow> nat \<Rightarrow> int \<Rightarrow> flags \<Rightarrow> out option" where
  "conv_u o' conv v width flags =
     do { let base = (if conv = CHR ''o'' then 8 else if conv = CHR ''u'' then 10 else 16);
          p \<leftarrow> u_to_str NB v base (conv = CHR ''X'');
          let pfx = (if F_HASH \<in> flags \<and> v \<noteq> 0
                     then (if conv = CHR ''x'' then ''0x'' else if conv = CHR ''X'' then ''0X'' else []) else []);
          Some (emit_field o' pfx p width flags) }"

definition convert :: "dtoa_fn \<Rightarrow> out \<Rightarrow> char \<Rightarrow> flags \<Rightarrow> int \<Rightarrow> int \<Rightarrow> len_mod \<Rightarrow> va_list \<Rightarrow> (out \<times> va_list) option" where
  "convert dtoa o' conv flags width prec len ap =
     (if conv = CHR ''%'' then Some (put o' (CHR ''%''), ap)
      else if conv = CHR ''c'' then
        do { (v, ap) \<leftarrow> arg_i32 ap; Some (emit_field o' [] [chr (nat (v mod 256))] width (flags - {F_ZERO}), ap) }
      else if conv = CHR ''s'' then
        do { (s, ap) \<leftarrow> arg_str ap; Some (conv_s o' s prec width flags, ap) }
      else if conv \<in> set ''di'' then
        do { (v, ap) \<leftarrow> signed_arg len ap; q \<leftarrow> conv_d o' v width flags; Some (q, ap) }
      else if conv \<in> set ''uoxX'' then
        do { (v, ap) \<leftarrow> unsigned_arg len ap; q \<leftarrow> conv_u o' conv v width flags; Some (q, ap) }
      else if conv = CHR ''p'' then
        do { (v, ap) \<leftarrow> arg_u32 ap; p \<leftarrow> u_to_str NB v 16 False; Some (emit_field o' ''0x'' p width flags, ap) }
      else if conv \<in> set ''eEfFgG'' then
        do { (v, ap) \<leftarrow> arg_dbl ap; q \<leftarrow> fmt_float dtoa o' v conv prec flags width; Some (q, ap) }
      else if conv = NUL then Some (o', ap)
      else Some (put (put o' (CHR ''%'')) conv, ap))"

section \<open>The format\<close>

lemma length_parse_flags: "length (snd (parse_flags fs f)) \<le> length f"
  by (induction fs f rule: parse_flags.induct) (auto split: option.splits intro: le_SucI)

lemma length_parse_num: "length (snd (parse_num n f)) \<le> length f"
  by (induction n f rule: parse_num.induct) (auto intro: le_SucI)

definition conversion :: "dtoa_fn \<Rightarrow> out \<Rightarrow> string \<Rightarrow> va_list \<Rightarrow> (out \<times> string \<times> va_list) option" where
  "conversion dtoa o' f ap =
     do { let (fs, f) = parse_flags {} f;
          (width, fs, f, ap) \<leftarrow> parse_width fs f ap;
          (prec, f, ap) \<leftarrow> parse_prec f ap;
          let (len, f) = parse_len f;
          (o', ap) \<leftarrow> convert dtoa o' (at f) fs width prec len ap;
          Some (o', drop 1 f, ap) }"

lemma conversion_length: "conversion dtoa o' f ap = Some (q, g, ap') \<Longrightarrow> length g \<le> length f"
proof -
  assume c: "conversion dtoa o' f ap = Some (q, g, ap')"
  obtain fs f1 where 1: "parse_flags {} f = (fs, f1)" by (cases "parse_flags {} f")
  with c obtain w fs' f2 ap2 where 2: "parse_width fs f1 ap = Some (w, fs', f2, ap2)"
    by (auto simp: conversion_def bind_eq_Some_conv)
  with c 1 obtain p f3 ap3 where 3: "parse_prec f2 ap2 = Some (p, f3, ap3)"
    by (auto simp: conversion_def bind_eq_Some_conv)
  obtain len f4 where 4: "parse_len f3 = (len, f4)" by (cases "parse_len f3")
  from c 1 2 3 4 have g: "g = drop 1 f4" by (auto simp: conversion_def bind_eq_Some_conv)
  have "length f1 \<le> length f" using length_parse_flags [of "{}" f] 1 by simp
  moreover have "length f2 \<le> length f1" using 2 length_parse_num [of 0 f1]
    by (auto simp: parse_width_def bind_eq_Some_conv split: if_splits prod.splits)
  moreover have "length f3 \<le> length f2" using 3 length_parse_num [of 0 "drop 1 f2"]
    by (auto simp: parse_prec_def bind_eq_Some_conv split: if_splits prod.splits)
  moreover have "length f4 \<le> length f3" using 4 by (auto simp: parse_len_def split: if_splits)
  ultimately show ?thesis using g by simp
qed

function vs_loop :: "dtoa_fn \<Rightarrow> out \<Rightarrow> string \<Rightarrow> va_list \<Rightarrow> out option" where
  "vs_loop dtoa o' [] ap = Some o'"
| "vs_loop dtoa o' (c # f) ap =
     (if c \<noteq> CHR ''%'' then vs_loop dtoa (put o' c) f ap
      else case conversion dtoa o' f ap of
             None \<Rightarrow> None
           | Some (q, g, ap') \<Rightarrow> vs_loop dtoa q g ap')"
  by pat_completeness auto
termination
  by (relation "measure (\<lambda>(d, o', f, ap). length f)") (auto simp: le_imp_less_Suc conversion_length)

text \<open>
  The buffer is the bytes the caller has there; a null pointer is an empty one, with \<open>cap\<close> 0. The result is cut to 32
  bits.
\<close>

definition l2w_vsnprintf :: "dtoa_fn \<Rightarrow> string \<Rightarrow> nat \<Rightarrow> string \<Rightarrow> va_list \<Rightarrow> (int \<times> string) option" where
  "l2w_vsnprintf dtoa buf cap f ap =
     do { q \<leftarrow> vs_loop dtoa \<lparr>o_buf = buf, o_cap = (if cap = 0 then 0 else cap - 1), o_n = 0\<rparr> (cstr f) ap;
          let trm = (if o_n q < o_cap q then o_n q else o_cap q);
          Some (sint (of_nat (o_n q) :: u32), if cap \<noteq> 0 then (o_buf q)[trm := NUL] else o_buf q) }"

definition vsnprintf :: "dtoa_fn \<Rightarrow> string \<Rightarrow> nat \<Rightarrow> string \<Rightarrow> va_list \<Rightarrow> (int \<times> string) option" where
  "vsnprintf = l2w_vsnprintf"

definition snprintf :: "dtoa_fn \<Rightarrow> string \<Rightarrow> nat \<Rightarrow> string \<Rightarrow> va_list \<Rightarrow> (int \<times> string) option" where
  "snprintf = l2w_vsnprintf"

text \<open>What \<open>fprintf\<close> hands to the log of the host; \<open>line\<close> is the local buffer as it is found.\<close>

definition fprintf :: "dtoa_fn \<Rightarrow> string \<Rightarrow> string \<Rightarrow> va_list \<Rightarrow> (int \<times> string) option" where
  "fprintf dtoa line f ap =
     do { (r, line) \<leftarrow> l2w_vsnprintf dtoa line 1024 f ap;
          let len = (if r < 1024 then r else 1023);
          Some (r, take (nat len) line) }"

end
