(* ===== verification/Freestanding_Print.thy ===== *)
theory Freestanding_Print
  imports Freestanding_Format
begin

text \<open>
  What \<open>snprintf\<close> writes (\<open>src/src/freestanding/fmt.c\<close>): the text of the conversions the compiler uses, cut to the
  buffer, closed with a NUL, and its whole length as the result.
\<close>

section \<open>The sink holds a text\<close>

definition sink :: "string \<Rightarrow> nat \<Rightarrow> string \<Rightarrow> out" where
  "sink B k T = \<lparr>o_buf = take k T @ drop (min k (length T)) B, o_cap = k, o_n = length T\<rparr>"

lemma put_sink: "k \<le> length B \<Longrightarrow> put (sink B k T) c = sink B k (T @ [c])"
proof -
  assume k: "k \<le> length B"
  show ?thesis
  proof (cases "length T < k")
    case True
    with k have "drop (length T) B = B ! length T # drop (Suc (length T)) B" by (simp add: Cons_nth_drop_Suc)
    moreover have "min k (Suc (length T)) = Suc (length T)" "min k (length T) = length T" using True by auto
    ultimately show ?thesis using True k by (simp add: put_def sink_def list_update_append)
  qed (simp add: put_def sink_def min_def)
qed

lemma put_mem_sink: "k \<le> length B \<Longrightarrow> put_mem (sink B k T) s = sink B k (T @ s)"
  by (induction s arbitrary: T) (simp_all add: put_mem_def put_sink)

definition field_text :: "string \<Rightarrow> string \<Rightarrow> int \<Rightarrow> flags \<Rightarrow> string" where
  "field_text pre body width flags =
     (let pad = nat (width - int (length pre + length body))
      in if F_MINUS \<in> flags then pre @ body @ replicate pad (CHR '' '')
         else if F_ZERO \<in> flags then pre @ replicate pad (CHR ''0'') @ body
         else replicate pad (CHR '' '') @ pre @ body)"

lemma emit_field_sink: "k \<le> length B \<Longrightarrow> emit_field (sink B k T) pre body w fs = sink B k (T @ field_text pre body w fs)"
  by (simp add: emit_field_def field_text_def Let_def put_pad_def put_mem_sink)

lemma field_text_plain [simp]: "field_text pre body 0 fs = pre @ body"
  by (simp add: field_text_def)

section \<open>Digits\<close>

lemma decimal_digit: "d < 10 \<Longrightarrow> LOWER_DIGITS ! d = chr (48 + d)"
proof -
  have "\<forall>d\<in>set [0..<10]. LOWER_DIGITS ! d = chr (48 + d)" by code_simp
  then show "d < 10 \<Longrightarrow> LOWER_DIGITS ! d = chr (48 + d)" by simp
qed

lemma dec_str_0: "dec_str 0 = ''0''"
  by code_simp

lemma u_digits_dec:
  "0 < v \<Longrightarrow> length (dec_str v) + length acc < sz \<Longrightarrow> u_digits sz 10 LOWER_DIGITS v acc = Some (dec_str v @ acc)"
proof (induction v arbitrary: acc rule: less_induct)
  case (less v)
  have d: "LOWER_DIGITS ! (v mod 10) = chr (48 + v mod 10)" by (rule decimal_digit) simp
  show ?case
  proof (cases "v < 10")
    case True
    then have s: "dec_str v = [chr (48 + v)]" by (subst dec_str.simps) simp
    have "u_digits sz 10 LOWER_DIGITS 0 bs = Some bs" for bs by (simp add: u_digits.simps)
    then show ?thesis using less.prems True d s by (subst u_digits.simps) simp
  next
    case False
    then have s: "dec_str v = dec_str (v div 10) @ [chr (48 + v mod 10)]" by (subst dec_str.simps) simp
    then show ?thesis using less.IH [of "v div 10" "chr (48 + v mod 10) # acc"] less.prems False d
      by (subst u_digits.simps) (auto simp: div_greater_zero_iff)
  qed
qed

lemma u_to_str_dec: "v < 2 ^ 64 \<Longrightarrow> u_to_str NB v 10 False = Some (dec_str v)"
proof -
  assume "v < 2 ^ 64"
  then have "length (dec_str v) \<le> 20" by (intro length_dec_str) simp_all
  then show ?thesis using u_digits_dec [of v "[]" NB] by (auto simp: u_to_str_def NB_def dec_str_0)
qed

lemma conv_d_sink:
  assumes "k \<le> length B" and "- (2 ^ 63) \<le> v" and "v < 2 ^ 63"
  shows "conv_d (sink B k T) v 0 {} = Some (sink B k (T @ int_str v))"
proof -
  have "(if v < 0 then nat (- (v + 1)) + 1 else nat v) = nat \<bar>v\<bar>"
    using nat_add_distrib [of "- (v + 1)" 1] by (cases "v < 0") simp_all
  moreover have "nat \<bar>v\<bar> < 2 ^ 64" using assms(2,3) by (cases "v < 0") (simp_all add: nat_less_iff)
  ultimately show ?thesis using assms(1)
    by (simp add: conv_d_def Let_def u_to_str_dec emit_field_sink int_str_def)
qed

section \<open>The formats of the compiler\<close>

text \<open>The pieces of a format, their arguments, and the text C prescribes for them.\<close>

datatype piece =
    Lit string
  | Percent
  | D u32
  | U u32
  | ZU u32
  | LLD u64
  | S string
  | PrecS u32 string
  | C u32
  | X2 u32

fun fmt_of :: "piece \<Rightarrow> string" where
  "fmt_of (Lit s) = s"
| "fmt_of Percent = ''%%''"
| "fmt_of (D w) = ''%d''"
| "fmt_of (U w) = ''%u''"
| "fmt_of (ZU w) = ''%zu''"
| "fmt_of (LLD w) = ''%lld''"
| "fmt_of (S s) = ''%s''"
| "fmt_of (PrecS n s) = ''%.*s''"
| "fmt_of (C w) = ''%c''"
| "fmt_of (X2 w) = ''%02x''"

fun args_of :: "piece \<Rightarrow> va_list" where
  "args_of (Lit s) = []"
| "args_of Percent = []"
| "args_of (D w) = [W32 w]"
| "args_of (U w) = [W32 w]"
| "args_of (ZU w) = [W32 w]"
| "args_of (LLD w) = [W64 w]"
| "args_of (S s) = [Str (Some s)]"
| "args_of (PrecS n s) = [W32 n, Str (Some s)]"
| "args_of (C w) = [W32 w]"
| "args_of (X2 w) = [W32 w]"

fun text_of :: "piece \<Rightarrow> string" where
  "text_of (Lit s) = s"
| "text_of Percent = ''%''"
| "text_of (D w) = int_str (sint w)"
| "text_of (U w) = dec_str (unat w)"
| "text_of (ZU w) = dec_str (unat w)"
| "text_of (LLD w) = int_str (sint w)"
| "text_of (S s) = s"
| "text_of (PrecS n s) = (if sint n < 0 then s else take (nat (sint n)) s)"
| "text_of (C w) = [chr (unat w)]"
| "text_of (X2 w) = [LOWER_DIGITS ! (unat w div 16), LOWER_DIGITS ! (unat w mod 16)]"

fun printable :: "piece \<Rightarrow> bool" where
  "printable (Lit s) \<longleftrightarrow> CHR ''%'' \<notin> set s \<and> NUL \<notin> set s"
| "printable (S s) \<longleftrightarrow> NUL \<notin> set s"
| "printable (PrecS n s) \<longleftrightarrow> NUL \<notin> set s"
| "printable (X2 w) \<longleftrightarrow> unat w < 256"
| "printable _ \<longleftrightarrow> True"

lemma vs_loop_lit:
  "k \<le> length B \<Longrightarrow> CHR ''%'' \<notin> set s \<Longrightarrow> vs_loop dtoa (sink B k T) (s @ f) ap = vs_loop dtoa (sink B k (T @ s)) f ap"
  by (induction s arbitrary: T) (auto simp: put_sink)

lemmas conversion_defs = conversion_def flag_of_def parse_width_def parse_prec_def parse_len_def convert_def
  signed_arg_def unsigned_arg_def arg_i32_def arg_u32_def arg_i64_def arg_u64_def arg_str_def is_digit_def Let_def

lemma sint_bounds: "- (2 ^ 63) \<le> sint (w :: u32)" "sint (w :: u32) < 2 ^ 63" "- (2 ^ 63) \<le> sint (x :: u64)" "sint (x :: u64) < 2 ^ 63"
  using sint_greater_eq [of w] sint_less [of w] sint_greater_eq [of x] sint_less [of x] by simp_all

lemma unat_bounds: "unat (w :: u32) < 2 ^ 64" "unat (x :: u64) < 2 ^ 64"
proof -
  have "unat w < 2 ^ 32" using unsigned_less [of w] by simp
  then show "unat w < 2 ^ 64" by (rule order.strict_trans) simp
  show "unat x < 2 ^ 64" using unsigned_less [of x] by simp
qed

lemma hex2: "v < 256 \<Longrightarrow> \<exists>p. u_to_str NB v 16 False = Some p \<and> field_text [] p 2 {F_ZERO} = [LOWER_DIGITS ! (v div 16), LOWER_DIGITS ! (v mod 16)]"
proof -
  assume v: "v < 256"
  have 0: "u_digits NB 16 tbl 0 bs = Some bs" for tbl bs by (simp add: u_digits.simps)
  have one: "u_digits NB 16 LOWER_DIGITS d bs = Some (LOWER_DIGITS ! d # bs)" if "0 < d" "d < 16" "length bs < 20" for d bs
    using that 0 by (subst u_digits.simps) (simp add: NB_def)
  have z: "LOWER_DIGITS ! 0 = CHR ''0''" by (simp add: LOWER_DIGITS_def)
  consider "v = 0" | "0 < v" "v < 16" | "16 \<le> v" by linarith
  then show ?thesis
  proof cases
    case 1
    then show ?thesis using z by (simp add: u_to_str_def NB_def field_text_def)
  next
    case 2
    then show ?thesis using one [of v "[]"] z by (simp add: u_to_str_def field_text_def)
  next
    case 3
    then have "u_digits NB 16 LOWER_DIGITS v [] = u_digits NB 16 LOWER_DIGITS (v div 16) [LOWER_DIGITS ! (v mod 16)]"
      by (subst u_digits.simps) (simp add: NB_def)
    moreover have "0 < v div 16" "v div 16 < 16" using v 3 by (auto simp: div_greater_zero_iff)
    ultimately show ?thesis using one [of "v div 16"] 3 by (simp add: u_to_str_def field_text_def)
  qed
qed

lemma vs_loop_piece:
  assumes "k \<le> length B" and "printable p"
  shows "vs_loop dtoa (sink B k T) (fmt_of p @ f) (args_of p @ ap) = vs_loop dtoa (sink B k (T @ text_of p)) f ap"
proof (cases p)
  case (Lit s)
  then show ?thesis using assms by (simp add: vs_loop_lit)
next
  case Percent
  then show ?thesis using assms(1) by (simp add: conversion_defs put_sink)
next
  case (D w)
  then show ?thesis using conv_d_sink [OF assms(1) sint_bounds(1,2)] by (simp add: conversion_defs)
next
  case (U w)
  then show ?thesis using assms(1) unat_bounds(1) [of w]
    by (simp add: conversion_defs conv_u_def u_to_str_dec emit_field_sink)
next
  case (ZU w)
  then show ?thesis using assms(1) unat_bounds(1) [of w]
    by (simp add: conversion_defs conv_u_def u_to_str_dec emit_field_sink)
next
  case (LLD w)
  then show ?thesis using conv_d_sink [OF assms(1) sint_bounds(3,4)] by (simp add: conversion_defs)
next
  case (S s)
  then show ?thesis using assms by (simp add: conversion_defs conv_s_def cstr_id emit_field_sink)
next
  case (PrecS n s)
  moreover have "take (min (length s) m) s = take m s" for m by (cases "length s \<le> m") auto
  ultimately show ?thesis using assms by (auto simp: conversion_defs conv_s_def cstr_id emit_field_sink)
next
  case (C w)
  have "chr (nat (sint w mod 256)) = chr (unat w)"
  proof -
    have "take_bit 8 (sint w) = take_bit 8 (uint w)" by (simp add: sint_uint take_bit_signed_take_bit)
    then have "sint w mod 256 = uint w mod 256" by (simp add: take_bit_eq_mod)
    then have "nat (sint w mod 256) = unat w mod 256" by (simp add: nat_mod_distrib flip: unat_eq_nat_uint)
    then show ?thesis by (simp add: char_eq_code del: code_inject)
  qed
  with C show ?thesis using assms by (simp add: conversion_defs emit_field_sink)
next
  case (X2 w)
  then obtain q where "u_to_str NB (unat w) 16 False = Some q"
      "field_text [] q 2 {F_ZERO} = [LOWER_DIGITS ! (unat w div 16), LOWER_DIGITS ! (unat w mod 16)]"
    using hex2 assms(2) by auto
  with X2 show ?thesis using assms(1) by (simp add: conversion_defs conv_u_def emit_field_sink)
qed

lemma vs_loop_pieces:
  "k \<le> length B \<Longrightarrow> \<forall>p\<in>set ps. printable p \<Longrightarrow>
    vs_loop dtoa (sink B k T) (concat (map fmt_of ps)) (concat (map args_of ps) @ ap) = Some (sink B k (T @ concat (map text_of ps)))"
  by (induction ps arbitrary: T) (simp_all add: vs_loop_piece)

lemma fmt_no_NUL: "\<forall>p\<in>set ps. printable p \<Longrightarrow> cstr (concat (map fmt_of ps)) = concat (map fmt_of ps)"
proof (rule cstr_id)
  assume "\<forall>p\<in>set ps. printable p"
  moreover have "printable p \<Longrightarrow> NUL \<notin> set (fmt_of p)" for p by (cases p) simp_all
  ultimately show "NUL \<notin> set (concat (map fmt_of ps))" by auto
qed

section \<open>Result\<close>



end
