(* ===== verification/Freestanding_Strtoll.thy ===== *)
theory Freestanding_Strtoll
  imports Lexer "HOL-Library.Monad_Syntax"
begin

text \<open>
  \<open>strtoll\<close> of the compiler built as WebAssembly (\<open>src/src/freestanding/baselib.c\<close>), with its clamping, and its
  agreement with the \<open>strtoll\<close> the lexer relies on. The result is the value, the end pointer and whether \<open>errno\<close> is set
  to \<open>ERANGE\<close>; None is the negation of \<open>LLONG_MIN\<close>, which is undefined.
\<close>

definition LLONG_MAX :: int where "LLONG_MAX = 0x7fffffffffffffff"
definition LLONG_MIN :: int where "LLONG_MIN = - LLONG_MAX - 1"

definition digit_val :: "char \<Rightarrow> nat" where
  "digit_val c =
     (if 48 \<le> code c \<and> code c \<le> 57 then code c - 48
      else if 97 \<le> code c \<and> code c \<le> 122 then code c - 97 + 10
      else if 65 \<le> code c \<and> code c \<le> 90 then code c - 65 + 10
      else 99)"

text \<open>Blanks, the sign and the base.\<close>

definition strtoll_head :: "string \<Rightarrow> nat \<Rightarrow> bool \<times> string \<times> nat" where
  "strtoll_head s base =
     (let p = dropWhile is_space s;
          neg = (at p = CHR ''-'');
          p = (if at p = CHR ''+'' \<or> at p = CHR ''-'' then drop 1 p else p)
      in if (base = 0 \<or> base = 16) \<and> at p = CHR ''0'' \<and> (at (drop 1 p) = CHR ''x'' \<or> at (drop 1 p) = CHR ''X'')
             \<and> digit_val (at (drop 2 p)) < 16
         then (neg, drop 2 p, 16)
         else if base = 0 then (neg, p, if at p = CHR ''0'' then 8 else 10)
         else (neg, p, base))"

fun strtoll_loop :: "nat \<Rightarrow> nat \<Rightarrow> nat \<Rightarrow> nat \<Rightarrow> bool \<Rightarrow> bool \<Rightarrow> string \<Rightarrow> nat \<times> bool \<times> bool \<times> string" where
  "strtoll_loop base lim limd acc any overflow [] = (acc, any, overflow, [])"
| "strtoll_loop base lim limd acc any overflow (c # p) =
     (let d = digit_val c
      in if d \<ge> base then (acc, any, overflow, c # p)
         else if overflow \<or> acc > lim \<or> (acc = lim \<and> d > limd) then strtoll_loop base lim limd acc True True p
         else strtoll_loop base lim limd ((acc * base + d) mod 2 ^ 64) True overflow p)"

definition strtoll_str :: "string \<Rightarrow> nat \<Rightarrow> (int \<times> string \<times> bool) option" where
  "strtoll_str s base =
     (let (neg, p, base) = strtoll_head s base;
          cutoff = (if neg then 2 ^ 63 else nat LLONG_MAX);
          (acc, any, overflow, q) = strtoll_loop base (cutoff div base) (cutoff mod base) 0 False False p;
          e = (if any then q else s)
      in if overflow then Some (if neg then LLONG_MIN else LLONG_MAX, e, True)
         else if neg then (if acc = 2 ^ 63 then None else Some (- int acc, e, False))
         else Some (int acc, e, False))"

text \<open>The number written by a run of digits.\<close>

definition digits_value :: "nat \<Rightarrow> nat \<Rightarrow> string \<Rightarrow> nat" where
  "digits_value base a ds = foldl (\<lambda>a c. a * base + digit_val c) a ds"

lemma digits_value_ge: "0 < base \<Longrightarrow> a \<le> digits_value base a ds"
proof (induction ds arbitrary: a)
  case (Cons c ds)
  have "a \<le> a * base + digit_val c" using Cons.prems by (simp add: trans_le_add1)
  also have "\<dots> \<le> digits_value base (a * base + digit_val c) ds" using Cons by blast
  finally show ?case by (simp add: digits_value_def)
qed (simp add: digits_value_def)

lemma cutoff_step:
  assumes "(0 :: nat) < base" and "d < base"
  shows "(cutoff div base < a \<or> a = cutoff div base \<and> cutoff mod base < d) \<longleftrightarrow> cutoff < a * base + d"
proof -
  have c: "cutoff = cutoff div base * base + cutoff mod base" "cutoff mod base < base" using assms(1) by simp_all
  consider "a < cutoff div base" | "a = cutoff div base" | "cutoff div base < a" by linarith
  then show ?thesis
  proof cases
    case 1
    then have "(a + 1) * base \<le> cutoff div base * base" by (intro mult_le_mono1) simp
    also have "\<dots> \<le> cutoff" by simp
    finally have "a * base + base \<le> cutoff" by simp
    then show ?thesis using 1 assms(2) by simp
  next
    case 2
    then show ?thesis using c by (metis nat_add_left_cancel_less less_irrefl)
  next
    case 3
    then have "(cutoff div base + 1) * base \<le> a * base" by (intro mult_le_mono1) simp
    then have "cutoff div base * base + base \<le> a * base" by simp
    then have "cutoff < a * base + d" using c by linarith
    then show ?thesis using 3 by simp
  qed
qed

lemma strtoll_loop_spec:
  assumes "0 < base" and "cutoff < 2 ^ 64"
    and "overflow \<longleftrightarrow> cutoff < v" and "\<not> overflow \<Longrightarrow> acc = v"
  shows "\<exists>acc'. strtoll_loop base (cutoff div base) (cutoff mod base) acc any overflow p =
     (acc', any \<or> takeWhile (\<lambda>c. digit_val c < base) p \<noteq> [],
      cutoff < digits_value base v (takeWhile (\<lambda>c. digit_val c < base) p), dropWhile (\<lambda>c. digit_val c < base) p)
     \<and> (digits_value base v (takeWhile (\<lambda>c. digit_val c < base) p) \<le> cutoff \<longrightarrow> acc' = digits_value base v (takeWhile (\<lambda>c. digit_val c < base) p))"
  using assms(3,4)
proof (induction p arbitrary: acc any overflow v)
  case Nil
  then show ?case by (auto simp: digits_value_def)
next
  case (Cons c p)
  let ?d = "digit_val c" and ?v = "v * base + digit_val c"
  show ?case
  proof (cases "base \<le> ?d")
    case True
    then show ?thesis using Cons.prems by (auto simp: digits_value_def Let_def)
  next
    case False
    have dv: "digits_value base v (c # ds) = digits_value base ?v ds" for ds by (simp add: digits_value_def)
    show ?thesis
    proof (cases "overflow \<or> acc > cutoff div base \<or> (acc = cutoff div base \<and> ?d > cutoff mod base)")
      case ov: True
      have "cutoff < ?v"
      proof (cases overflow)
        case True
        then have "cutoff < v" using Cons.prems(1) by simp
        also have "v \<le> ?v" using assms(1) by (simp add: trans_le_add1)
        finally show ?thesis .
      next
        case no: False
        then show ?thesis using ov Cons.prems(2) cutoff_step [OF assms(1), of ?d cutoff v] False by simp
      qed
      then obtain acc' where "strtoll_loop base (cutoff div base) (cutoff mod base) acc True True p =
          (acc', True, cutoff < digits_value base ?v (takeWhile (\<lambda>c. digit_val c < base) p), dropWhile (\<lambda>c. digit_val c < base) p)"
          "digits_value base ?v (takeWhile (\<lambda>c. digit_val c < base) p) \<le> cutoff \<longrightarrow>
            acc' = digits_value base ?v (takeWhile (\<lambda>c. digit_val c < base) p)"
        using Cons.IH [of True ?v acc True] by auto
      then show ?thesis using False ov by (auto simp: Let_def dv)
    next
      case no: False
      then have "acc = v" "?v \<le> cutoff" using Cons.prems(2) cutoff_step [OF assms(1), of ?d cutoff v] False by auto
      then have "(acc * base + ?d) mod 2 ^ 64 = ?v" using assms(2) by simp
      moreover obtain acc' where "strtoll_loop base (cutoff div base) (cutoff mod base) ?v True False p =
          (acc', True, cutoff < digits_value base ?v (takeWhile (\<lambda>c. digit_val c < base) p), dropWhile (\<lambda>c. digit_val c < base) p)"
          "digits_value base ?v (takeWhile (\<lambda>c. digit_val c < base) p) \<le> cutoff \<longrightarrow>
            acc' = digits_value base ?v (takeWhile (\<lambda>c. digit_val c < base) p)"
        using Cons.IH [of False ?v ?v True] \<open>?v \<le> cutoff\<close> by auto
      ultimately show ?thesis using False no by (auto simp: Let_def dv)
    qed
  qed
qed

text \<open>C13: \<open>strtoll\<close> is exact: in every base it gives the number the digits after the sign and prefix write, clamped to
  the range of \<open>long long\<close> with \<open>ERANGE\<close> exactly when it is outside, and stops at the first other character; for
  the number \<open>- 2 ^ 63\<close> itself the code negates \<open>LLONG_MIN\<close>.\<close>

theorem strtoll_exact:
  assumes "base = 0 \<or> 2 \<le> base" and "strtoll_head s base = (neg, p, b)"
  shows "strtoll_str s base =
    (let ds = takeWhile (\<lambda>c. digit_val c < b) p;
         x = (if neg then - int (digits_value b 0 ds) else int (digits_value b 0 ds))
     in if x = LLONG_MIN then None
        else Some (max LLONG_MIN (min LLONG_MAX x), if ds = [] then s else drop (length ds) p, x < LLONG_MIN \<or> LLONG_MAX < x))"
proof -
  let ?ds = "takeWhile (\<lambda>c. digit_val c < b) p" and ?cut = "if neg then 2 ^ 63 else nat LLONG_MAX"
  let ?v = "digits_value b 0 ?ds"
  have b: "0 < b" using assms by (auto simp: strtoll_head_def Let_def split: if_splits)
  have cut: "?cut < 2 ^ 64" by (simp add: LLONG_MAX_def)
  obtain acc where l: "strtoll_loop b (?cut div b) (?cut mod b) 0 False False p = (acc, ?ds \<noteq> [], ?cut < ?v, dropWhile (\<lambda>c. digit_val c < b) p)"
      "?v \<le> ?cut \<longrightarrow> acc = ?v"
    using strtoll_loop_spec [OF b cut, of False 0 0 False p] by auto
  have drop: "dropWhile (\<lambda>c. digit_val c < b) p = drop (length ?ds) p" by (simp add: dropWhile_eq_drop)
  show ?thesis
  proof (cases "?cut < ?v")
    case True
    then show ?thesis using l assms(2) drop
      by (cases neg) (auto simp: strtoll_str_def Let_def LLONG_MIN_def LLONG_MAX_def)
  next
    case False
    then show ?thesis using l assms(2) drop
      by (cases neg) (auto simp: strtoll_str_def Let_def LLONG_MIN_def LLONG_MAX_def)
  qed
qed

lemma strtoll_exact_witness: "strtoll_str '' -0x1Fg'' 16 = Some (- 31, ''g'', False)"
proof -
  have "strtoll_head '' -0x1Fg'' 16 = (True, ''1Fg'', 16)" by code_simp
  from strtoll_exact [OF _ this] show ?thesis
    by (simp add: digit_val_def digits_value_def LLONG_MIN_def LLONG_MAX_def)
qed

text \<open>C40: The lexer is served as its model assumes: on a run of digits, base 10, this \<open>strtoll\<close> gives the value and the
  \<open>ERANGE\<close> flag that the lexer's literals are built from, and consumes the whole run.\<close>

theorem strtoll_serves_lexer:
  assumes "s \<noteq> []" and "\<forall>c\<in>set s. is_digit c"
  shows "strtoll_str s 10 = Some (uint (fst (strtoll10 s)), [], snd (strtoll10 s))"
proof -
  obtain c t where s: "s = c # t" "is_digit c" using assms by (cases s) auto
  then have "\<not> is_space c" "c \<noteq> CHR ''+''" "c \<noteq> CHR ''-''" by (auto simp: is_digit_def is_space_def)
  then have h: "strtoll_head s 10 = (False, s, 10)" by (simp add: strtoll_head_def s Let_def)
  have d: "digit_val x = code x - 48" if "is_digit x" for x using that by (auto simp: digit_val_def is_digit_def)
  have "digit_val x < 10" if "is_digit x" for x using that by (auto simp: digit_val_def is_digit_def)
  then have t: "takeWhile (\<lambda>c. digit_val c < 10) s = s" using assms(2) by (simp add: takeWhile_eq_all_conv)
  have "digits_value 10 a s = foldl (\<lambda>v c. v * 10 + (code c - 48)) a s" for a
    using assms(2) by (induction s arbitrary: a) (auto simp: digits_value_def d)
  then have v: "digits_value 10 0 s = dec_val s" by (simp add: dec_val_def)
  let ?v = "int (dec_val s)"
  have *: "uint (of_nat (dec_val s) :: u64) = ?v" if "?v < 2 ^ 63"
    using that by (simp add: unsigned_of_nat take_bit_nat_eq_self)
  have neq: "?v \<noteq> LLONG_MIN" by (simp add: LLONG_MIN_def LLONG_MAX_def)
  have "uint (2 ^ 63 - 1 :: u64) = LLONG_MAX" by (simp add: LLONG_MAX_def)
  then show ?thesis using strtoll_exact [OF _ h] * assms(1) neq
    by (simp add: t v strtoll10_def LLONG_MIN_def LLONG_MAX_def)
qed

lemma strtoll_serves_lexer_witness: "strtoll_str ''9223372036854775808'' 10 = Some (2 ^ 63 - 1, [], True)"
proof -
  have "strtoll10 ''9223372036854775808'' = (2 ^ 63 - 1, True)" by (simp add: strtoll10_def dec_val_def)
  then show ?thesis using strtoll_serves_lexer [of "''9223372036854775808''"] by (simp add: is_digit_def)
qed

end
