(* ===== verification/Spec2Isabelle.thy ===== *)
theory Spec2Isabelle
  imports Wat_Findings Parser_Properties Parser_Findings Codegen_Strings Freestanding_Client Freestanding_Print Freestanding_Strtoll
begin

text \<open>
  A verification development for lua2wasm, the ahead-of-time compiler from Lua to WebAssembly.

  \<^bold>\<open>The program.\<close> \<open>lua2wasm\<close> (\<open>src/src/main.c\<close>) reads a Lua text and runs it through four stages. The
  lexer (\<open>lexer.c\<close>) turns the text into an array of tokens. The parser (\<open>parser.c\<close>) turns the tokens
  into the tree of \<open>ast.h\<close>, allocated in a node pool (\<open>ast.c\<close>), and resolves every name: to a slot of
  its function, to an upvalue, to a global, or to a predeclared function of \<open>builtins.c\<close>. The code
  generator (\<open>codegen/\<close>) writes a module in the WebAssembly text format into a \<open>WatBuilder\<close>
  (\<open>wat_builder.c\<close>), with the constant strings in a pool of its own (\<open>codegen/strings.c\<close>). The assembler
  (\<open>wat2wasm.c\<close>) reads that text, drops what cannot be reached, and writes the binary module. The compiler
  is also built as WebAssembly itself (\<open>wasm_entry.c\<close>), on a C library of its own
  (\<open>freestanding/\<close>): an allocator, the memory and string functions, \<open>strtoll\<close> and formatted output.

  \<^bold>\<open>Conventions.\<close> A definition bears the name of the C function it models; a loop, a branch or a
  \<open>case\<close> of a long C function is a definition of its own, named after what it does. C structs are
  records, enums and tagged unions are datatypes, \<open>uint32_t\<close>, \<open>uint64_t\<close>, \<open>uint8_t\<close> and the other
  fixed-width integers are words where they wrap or are compared with their limits, and naturals or
  integers where they count. Arrays are lists, and an access outside an array is a branch of the model:
  an error value, \<open>None\<close>, or a flag of the state. A \<open>longjmp\<close> or an error return is \<open>Inl\<close> of an error, a
  result is \<open>Inr\<close> (theory \<open>Prelude\<close>); the parser, which records its error and goes on, keeps it in
  the state as the code does. \<open>malloc\<close> failing ends the program (\<open>xalloc.c\<close>) and is not modelled, with
  the exception of the allocator's own callers.

  \<^bold>\<open>Theories.\<close>
  \<^item> \<open>Prelude\<close>: machine types, the error monad, the character classes of \<open>ctype.h\<close>, list lemmas, and
    the locale \<open>growable\<close>: a container that grows by appending. It is interpreted by the byte buffer and
    the text builder (\<open>Wat_Buf\<close>), the token vector (\<open>Lexer\<close>) and the item buffer of the parser
    (\<open>Parser_State\<close>).
  \<^item> \<open>Lexer\<close>, \<open>Lexer_Correct\<close>: all of \<open>lexer.c\<close>. The tokens are spans of the text, in order and with
    their lines; string bodies never overrun the scratch buffer, whose size is computed by a first pass;
    printed lexemes are read back; numerals, long brackets and escapes are what Lua says.
  \<^item> \<open>Ast\<close>, \<open>Builtins\<close>: the tree, the node pool and its blocks, the table of predeclared functions.
  \<^item> \<open>Parser_State\<close>, \<open>Parser_Expr\<close>, \<open>Parser_Stmt\<close>: all of \<open>parser.c\<close>, as a state monad over the record
    \<open>Parser\<close> (cursor, error, frames of the open functions, function table, global table). \<open>touch\<close> and the
    like record an access outside an array in the state instead of going wrong silently.
  \<^item> \<open>Parser_Inv\<close>, \<open>Parser_Wf\<close>, \<open>Parser_Wf_Stmt\<close>, \<open>Parser_Wf_Block\<close>, \<open>Parser_Total\<close>: the invariant of the
    parser with rules of the weakest precondition for every function, and the induction on the
    recursion bound. \<open>Parser_Scope\<close>: lexical scoping. \<open>Parser_Print\<close>: operators. \<open>Parser_Properties\<close>:
    termination, memory safety, well-scopedness, resolution, const variables, operator precedence.
    \<open>Parser_Findings\<close>: inputs on which the parser and the Lua manual disagree.
  \<^item> \<open>Codegen_Strings\<close>: \<open>codegen/strings.c\<close> with its structs of \<open>codegen/internal.h\<close>. The pool with its
    hash index agrees with one that scans (locale \<open>interner\<close>, interpreted by the pool), and every hoisted
    constant is declared once under a name of its own.
  \<^item> \<open>Wat_Buf\<close>, \<open>Wat_Reader\<close>, \<open>Wat_Types\<close>, \<open>Wat_Instr\<close>, \<open>Wat_Dce\<close>, \<open>Wat_Module\<close>, \<open>Wat_Assemble\<close>: \<open>wat2wasm.c\<close> in
    the order of the file: buffer and LEB128, reader, types and names, instruction encoder,
    dead-code elimination, module fields and sections, and \<open>assemble\<close> with its entry points.
  \<^item> \<open>Wat_Remap\<close>, \<open>Wat_Live\<close>, \<open>Wat_Correct\<close>, \<open>Wat_Properties\<close>: what is kept is exactly what is reachable from
    exports, start, globals and element segments; surviving functions are renumbered in order and live
    code mentions no dropped one; the type table is complete before code is written; sections and code
    entries decode to what was put in. \<open>Wat_Findings\<close>: inputs on which comments and code disagree.
  \<^item> \<open>Freestanding_Memory\<close>, \<open>Freestanding_Strtoll\<close>: \<open>baselib.c\<close> over a memory that is a partial map from
    addresses to bytes; an access outside it is a trap (\<open>None\<close>).
  \<^item> \<open>Freestanding_Alloc\<close>, \<open>Freestanding_Heap\<close>, \<open>Freestanding_Malloc\<close>, \<open>Freestanding_Client\<close>: \<open>alloc.c\<close> with its headers,
    footers and free list in that memory; the tiling invariant; every operation keeps it; and a step
    relation of a client that allocates, writes, and frees. In each state it reaches, live blocks are
    disjoint and hold what was written, and freed memory is found again.
  \<^item> \<open>Freestanding_Format\<close>, \<open>Freestanding_Print\<close>: \<open>fmt.c\<close>: the sink that counts past its end, the
    conversions, and \<open>snprintf\<close> against the text that C prescribes.

  \<^bold>\<open>Interaction.\<close> The lexer's tokens are the input of the parser model as they are (\<open>Token\<close>), so termination
  and memory safety of the parser are stated of the text, through both. \<open>Parser_State\<close> asks \<open>Builtins\<close> for
  predeclared names. The assembler's reader, encoder and eliminator share one state record, passed on in
  the order of \<open>assemble\<close>. \<open>strtoll\<close> of the C library is shown to be the one the lexer relies on.

  \<^bold>\<open>Bounds and fuel.\<close> The recursive functions of the parser carry a bound on their depth, since C recurses
  without one; \<open>parse\<close> starts with the number of tokens and one, and \<open>Parser_Total\<close> shows that a run
  never uses it up, because every nested call is made behind a consumed token. The loops of the
  lexer, the reader and the encoder are recursions with a measure on the remaining input. The worklist of
  the eliminator ends because each entity is put on it once. The search of the free list walks the
  list that the invariant describes; \<open>partial_function (option)\<close> gives it, and its end is part of the
  theorem. The laws of the allocator hold while the sizes asked for stay below the
  point where the 32-bit sums wrap around; beyond it two lemmas of \<open>Freestanding_Client\<close> show that they fail.

  \<^bold>\<open>Parameters.\<close> The conversions between text and \<open>double\<close> (\<open>strtod\<close>, the vendored \<open>dtoa\<close>), \<open>memory.grow\<close>
  of the engine and host output are arguments of the definitions that use them, with hypotheses on
  their documented behaviour where a property needs any.

  \<^bold>\<open>Not modelled.\<close> The emitters of the code generator (\<open>expr.c\<close>, \<open>stmt.c\<close>, \<open>module.c\<close>, \<open>outline.c\<close>, \<open>arrays.c\<close>) write
  text of the WebAssembly format by format strings; a property of them that is more than their text needs a
  semantics of that format and of the runtime prelude, which is written in it. Command lines, file access
  and the entry points (\<open>main.c\<close>, \<open>wat2wasm_cli.c\<close>, \<open>wasm_entry.c\<close>) are input and output around the
  modelled stages, and \<open>xalloc.c\<close> ends the program when memory is short. What \<open>vsnprintf\<close> of the
  host prints is an argument of the text builder.
\<close>

end
